theory Spec2Isabelle
  imports Main "HOL-Library.Multiset" "HOL-Library.AList"
begin

section \<open>Data model\<close>

text \<open>
  The three modules of the repository serialise a graph of persons with mutual friendship
  references. Python objects live on a heap and are compared by identity; the heap is a
  list of objects and the address of an object is its index. Addresses that are not below
  the length of the heap denote no object: no Python reference is ever of that kind, and
  the model turns such a read into the result \<open>None\<close> instead of reading the list out of
  range.

  \<open>Person\<close> (lab3_oop_encapsulated.py) and \<open>PersonDirectAccess\<close> (lab3_oop_direct_access.py)
  have the same four fields \<open>_id\<close>, \<open>_name\<close>, \<open>_born_in\<close>, \<open>_friends\<close>, and the same
  \<open>add_friend\<close>; the record \<open>person\<close> stands for both. The type variable \<open>'d\<close> is
  \<open>datetime\<close>. The identifier is drawn by \<open>uuid.uuid4()\<close>; the constructor of the model
  takes it as an argument.
\<close>

type_synonym addr = nat

record 'd person =
  p_id :: string
  p_name :: string
  p_born_in :: 'd
  p_friends :: "addr list"

type_synonym 'd heap = "'d person list"

text \<open>
  The dictionary written for one person (\<open>to_dict\<close>, and \<open>obj_data\<close> in the direct-access
  serialiser): the keys \<open>id\<close>, \<open>name\<close>, \<open>born_in\<close> (the text of \<open>isoformat()\<close>) and
  \<open>friends\<close> (a list of identifiers). \<open>json.dumps\<close> and \<open>json.loads\<close> are library code; the
  model stops at the list of these dictionaries.
\<close>

record flat =
  d_id :: string
  d_name :: string
  d_born_in :: string
  d_friends :: "string list"

text \<open>
  The exceptions the three modules can raise. \<open>KeyError\<close> carries the missing key and
  \<open>ValueError\<close> the text that \<open>datetime.fromisoformat\<close> refused.
\<close>

datatype error = KeyError string | IndexError | TypeError | ValueError string | RecursionError

section \<open>The encapsulated and the direct-access classes\<close>

definition Person :: "string \<Rightarrow> string \<Rightarrow> 'd \<Rightarrow> 'd person" where
  "Person uuid name born_in =
     \<lparr>p_id = uuid, p_name = name, p_born_in = born_in, p_friends = []\<rparr>"

text \<open>Allocation: the new object gets the next address.\<close>

definition new_person :: "'d heap \<Rightarrow> string \<Rightarrow> string \<Rightarrow> 'd \<Rightarrow> 'd heap \<times> addr" where
  "new_person h uuid name born_in = (h @ [Person uuid name born_in], length h)"

definition get_id :: "'d person \<Rightarrow> string" where
  "get_id p = p_id p"

definition get_name :: "'d person \<Rightarrow> string" where
  "get_name p = p_name p"

definition get_birth_date :: "'d person \<Rightarrow> 'd" where
  "get_birth_date p = p_born_in p"

text \<open>
  \<open>get_friends\<close> returns \<open>self._friends.copy()\<close>. As a value the copy is the same list;
  the difference between the copy and the list itself is the subject of the last section,
  where lists are objects too.
\<close>

definition get_friends :: "'d person \<Rightarrow> addr list" where
  "get_friends p = p_friends p"

definition append_friend :: "'d heap \<Rightarrow> addr \<Rightarrow> addr \<Rightarrow> 'd heap" where
  "append_friend h self friend =
     h[self := (h ! self)\<lparr>p_friends := p_friends (h ! self) @ [friend]\<rparr>]"

text \<open>
  \<open>add_friend\<close>: \<open>in\<close> on a list of objects without \<open>__eq__\<close> is membership by identity,
  here by address. The method calls itself on the friend when the reverse reference is
  missing.
\<close>

function add_friend :: "'d heap \<Rightarrow> addr \<Rightarrow> addr \<Rightarrow> 'd heap" where
  "add_friend h self friend =
     (if self < length h \<and> friend < length h \<and> friend \<notin> set (p_friends (h ! self)) then
        (let h' = append_friend h self friend in
         if self \<notin> set (p_friends (h' ! friend)) then add_friend h' friend self else h')
      else h)"
  by pat_completeness auto
termination
proof (relation "measure (\<lambda>(h, self, friend).
          (if friend \<in> set (p_friends (h ! self)) then 0 else 1) +
          (if self \<in> set (p_friends (h ! friend)) then 0 else 1))")
  show "wf (measure (\<lambda>(h :: 'd heap, self, friend).
          (if friend \<in> set (p_friends (h ! self)) then 0 else 1) +
          (if self \<in> set (p_friends (h ! friend)) then (0::nat) else 1)))"
    by simp
next
  fix h :: "'d heap" and self friend h'
  assume a: "self < length h \<and> friend < length h \<and> friend \<notin> set (p_friends (h ! self))"
    and h': "h' = append_friend h self friend"
    and b: "self \<notin> set (p_friends (h' ! friend))"
  from a h' have in_self: "friend \<in> set (p_friends (h' ! self))"
    by (simp add: append_friend_def)
  from a h' b have ne: "self \<noteq> friend"
    by (auto simp: append_friend_def)
  with a h' have same: "h' ! friend = h ! friend"
    by (simp add: append_friend_def)
  from b same have "self \<notin> set (p_friends (h ! friend))" by simp
  with a in_self b
  show "((h', friend, self), (h, self, friend)) \<in> measure (\<lambda>(h, self, friend).
          (if friend \<in> set (p_friends (h ! self)) then 0 else 1) +
          (if self \<in> set (p_friends (h ! friend)) then 0 else 1))"
    by simp
qed

declare add_friend.simps [simp del]

definition to_dict :: "('d \<Rightarrow> string) \<Rightarrow> 'd heap \<Rightarrow> 'd person \<Rightarrow> flat" where
  "to_dict isoformat h p =
     \<lparr>d_id = p_id p, d_name = p_name p, d_born_in = isoformat (p_born_in p),
      d_friends = map (\<lambda>friend. p_id (h ! friend)) (p_friends p)\<rparr>"

text \<open>
  \<open>datetime.fromisoformat\<close> is library code: a function from texts to dates that raises
  \<open>ValueError\<close> on a text that is no ISO date, which is the value \<open>None\<close> here. The
  exception leaves \<open>from_dict\<close> and its callers.
\<close>

definition from_dict :: "(string \<Rightarrow> 'd option) \<Rightarrow> flat \<Rightarrow> error + 'd person" where
  "from_dict fromisoformat data =
     (case fromisoformat (d_born_in data) of
        None \<Rightarrow> Inl (ValueError (d_born_in data))
      | Some born_in \<Rightarrow>
          Inr \<lparr>p_id = d_id data, p_name = d_name data, p_born_in = born_in, p_friends = []\<rparr>)"

section \<open>Serialisation: the traversal\<close>

record cstate =
  objects_to_save :: "flat list"
  visited_ids :: "string set"

definition visit :: "('d \<Rightarrow> string) \<Rightarrow> 'd heap \<Rightarrow> addr \<Rightarrow> cstate \<Rightarrow> cstate" where
  "visit isoformat h p st =
     \<lparr>objects_to_save = objects_to_save st @ [to_dict isoformat h (h ! p)],
      visited_ids = insert (get_id (h ! p)) (visited_ids st)\<rparr>"

text \<open>
  \<open>collect_objects\<close> is the nested function of \<open>serialize\<close>; \<open>collect_friends\<close> is its
  \<open>for friend in p.get_friends()\<close> loop. The two Python variables the closure updates are
  the state that is passed along.

  Every call of \<open>collect_objects\<close> takes a frame of the interpreter's stack, and the
  interpreter raises \<open>RecursionError\<close> at the call that would exceed its recursion limit
  (\<open>sys.getrecursionlimit()\<close>, 1000 unless the program changes it). The argument \<open>frames\<close>
  is the number of nested calls of \<open>collect_objects\<close> the interpreter still allows: the
  limit, less the frames of the callers of \<open>serialize\<close> and the frame the calls made inside
  the body need. The exception is not caught: it ends the loops of all the calls on the
  stack and \<open>serialize\<close>.
\<close>

fun collect_objects ::
    "nat \<Rightarrow> ('d \<Rightarrow> string) \<Rightarrow> 'd heap \<Rightarrow> addr \<Rightarrow> cstate \<Rightarrow> (error + cstate) option" and
  collect_friends ::
    "nat \<Rightarrow> ('d \<Rightarrow> string) \<Rightarrow> 'd heap \<Rightarrow> addr list \<Rightarrow> cstate \<Rightarrow> (error + cstate) option"
where
  "collect_objects 0 isoformat h p st = Some (Inl RecursionError)"
| "collect_objects (Suc frames) isoformat h p st =
     (if length h \<le> p then None
      else if get_id (h ! p) \<in> visited_ids st then Some (Inr st)
      else collect_friends frames isoformat h (get_friends (h ! p)) (visit isoformat h p st))"
| "collect_friends frames isoformat h [] st = Some (Inr st)"
| "collect_friends frames isoformat h (friend # rest) st =
     (case collect_objects frames isoformat h friend st of
        None \<Rightarrow> None
      | Some (Inl e) \<Rightarrow> Some (Inl e)
      | Some (Inr st') \<Rightarrow> collect_friends frames isoformat h rest st')"

definition serialize ::
  "nat \<Rightarrow> ('d \<Rightarrow> string) \<Rightarrow> 'd heap \<Rightarrow> addr \<Rightarrow> (error + flat list) option" where
  "serialize frames isoformat h person =
     map_option (map_sum id objects_to_save)
       (collect_objects frames isoformat h person \<lparr>objects_to_save = [], visited_ids = {}\<rparr>)"

subsection \<open>The recursion without the limit\<close>

text \<open>
  The same two functions with no bound on the depth: what the traversal computes when the
  frames suffice (\<open>collect_objects_unbounded_eq\<close> below). The recursion is well founded on
  every heap, cyclic or not, because a call that goes on marks an identifier that was not
  marked before.
\<close>

function (domintros)
  collect_objects_unbounded :: "('d \<Rightarrow> string) \<Rightarrow> 'd heap \<Rightarrow> addr \<Rightarrow> cstate \<Rightarrow> cstate option" and
  collect_friends_unbounded :: "('d \<Rightarrow> string) \<Rightarrow> 'd heap \<Rightarrow> addr list \<Rightarrow> cstate \<Rightarrow> cstate option"
where
  "collect_objects_unbounded isoformat h p st =
     (if length h \<le> p then None
      else if get_id (h ! p) \<in> visited_ids st then Some st
      else collect_friends_unbounded isoformat h (get_friends (h ! p)) (visit isoformat h p st))"
| "collect_friends_unbounded isoformat h [] st = Some st"
| "collect_friends_unbounded isoformat h (friend # rest) st =
     (case collect_objects_unbounded isoformat h friend st of
        None \<Rightarrow> None
      | Some st' \<Rightarrow> collect_friends_unbounded isoformat h rest st')"
  by pat_completeness auto

lemma collect_visited_mono_partial:
  "collect_objects_unbounded_collect_friends_unbounded_dom (Inl (fmt, h, p, st)) \<Longrightarrow>
     collect_objects_unbounded fmt h p st = Some st' \<Longrightarrow> visited_ids st \<subseteq> visited_ids st'"
  "collect_objects_unbounded_collect_friends_unbounded_dom (Inr (fmt, h, fs, st)) \<Longrightarrow>
     collect_friends_unbounded fmt h fs st = Some st' \<Longrightarrow> visited_ids st \<subseteq> visited_ids st'"
proof (induction fmt h p st and fmt h fs st arbitrary: st' and st'
    rule: collect_objects_unbounded_collect_friends_unbounded.pinduct)
  case (1 fmt h p st)
  then show ?case
    by (auto simp: collect_objects_unbounded.psimps visit_def split: if_splits)
next
  case (2 fmt h st)
  then show ?case by (simp add: collect_friends_unbounded.psimps)
next
  case (3 fmt h friend rest st)
  then show ?case
    by (fastforce simp: collect_friends_unbounded.psimps split: option.splits)
qed

definition unvisited :: "'d heap \<Rightarrow> cstate \<Rightarrow> nat" where
  "unvisited h st = card (get_id ` set h - visited_ids st)"

lemma unvisited_visit:
  "p < length h \<Longrightarrow> get_id (h ! p) \<notin> visited_ids st \<Longrightarrow>
     unvisited h (visit fmt h p st) < unvisited h st"
  unfolding unvisited_def visit_def
  by (intro psubset_card_mono) auto

lemma unvisited_mono:
  "visited_ids st \<subseteq> visited_ids st' \<Longrightarrow> unvisited h st' \<le> unvisited h st"
  unfolding unvisited_def by (intro card_mono) auto

definition collect_rank ::
  "('d \<Rightarrow> string) \<times> 'd heap \<times> addr \<times> cstate + ('d \<Rightarrow> string) \<times> 'd heap \<times> addr list \<times> cstate
     \<Rightarrow> nat \<times> nat" where
  "collect_rank x =
     (case x of
        Inl (fmt, h, p, st) \<Rightarrow> (unvisited h st, 0)
      | Inr (fmt, h, fs, st) \<Rightarrow> (unvisited h st, Suc (length fs)))"

termination collect_objects_unbounded
proof (relation "inv_image (less_than <*lex*> less_than) collect_rank")
  show "wf (inv_image (less_than <*lex*> less_than)
     (collect_rank :: ('d \<Rightarrow> string) \<times> 'd heap \<times> addr \<times> cstate +
             ('d \<Rightarrow> string) \<times> 'd heap \<times> addr list \<times> cstate \<Rightarrow> nat \<times> nat))"
    by (intro wf_inv_image wf_lex_prod wf_less_than)
next
  fix fmt :: "'d \<Rightarrow> string" and h :: "'d heap" and p and st :: cstate
  assume "\<not> length h \<le> p" "get_id (h ! p) \<notin> visited_ids st"
  then show "(Inr (fmt, h, get_friends (h ! p), visit fmt h p st), Inl (fmt, h, p, st))
      \<in> inv_image (less_than <*lex*> less_than) collect_rank"
    by (simp add: collect_rank_def unvisited_visit)
next
  fix fmt :: "'d \<Rightarrow> string" and h :: "'d heap" and friend rest and st :: cstate
  show "(Inl (fmt, h, friend, st), Inr (fmt, h, friend # rest, st))
      \<in> inv_image (less_than <*lex*> less_than) collect_rank"
    by (simp add: collect_rank_def)
next
  fix fmt :: "'d \<Rightarrow> string" and h :: "'d heap" and friend rest and st st' :: cstate
  assume "collect_objects_unbounded fmt h friend st = Some st'"
    and "collect_objects_unbounded_collect_friends_unbounded_dom (Inl (fmt, h, friend, st))"
  then have "visited_ids st \<subseteq> visited_ids st'"
    by (rule collect_visited_mono_partial(1) [rotated])
  then have "unvisited h st' \<le> unvisited h st"
    by (rule unvisited_mono)
  then show "(Inr (fmt, h, rest, st'), Inr (fmt, h, friend # rest, st))
      \<in> inv_image (less_than <*lex*> less_than) collect_rank"
    by (auto simp: collect_rank_def)
qed

declare collect_objects_unbounded.simps [simp del]

definition serialize_unbounded :: "('d \<Rightarrow> string) \<Rightarrow> 'd heap \<Rightarrow> addr \<Rightarrow> flat list option" where
  "serialize_unbounded isoformat h person =
     map_option objects_to_save
       (collect_objects_unbounded isoformat h person \<lparr>objects_to_save = [], visited_ids = {}\<rparr>)"

section \<open>Well-formed heaps and reachability\<close>

text \<open>
  Every Python reference denotes an object (\<open>closed\<close>), and \<open>uuid4\<close> gives every person
  an identifier of its own (\<open>unique_ids\<close>). The friends relation of a heap is \<open>edges\<close>.
\<close>

definition closed :: "'d heap \<Rightarrow> bool" where
  "closed h = (\<forall>p\<in>set h. \<forall>a\<in>set (p_friends p). a < length h)"

definition unique_ids :: "'d heap \<Rightarrow> bool" where
  "unique_ids h = distinct (map p_id h)"

definition edges :: "'d heap \<Rightarrow> (addr \<times> addr) set" where
  "edges h = {(a, b). a < length h \<and> b \<in> set (p_friends (h ! a))}"

definition reachable :: "'d heap \<Rightarrow> addr \<Rightarrow> addr set" where
  "reachable h root = (edges h)\<^sup>* `` {root}"

lemma reachable_step: "a \<in> reachable h root \<Longrightarrow> (a, b) \<in> edges h \<Longrightarrow> b \<in> reachable h root"
  unfolding reachable_def by (auto intro: rtrancl_into_rtrancl)

lemma reachable_root: "root \<in> reachable h root"
  unfolding reachable_def by simp

definition id_at :: "'d heap \<Rightarrow> addr \<Rightarrow> string" where
  "id_at h a = p_id (h ! a)"

text \<open>What one call adds: the addresses \<open>as\<close> of the objects it has written, in order.\<close>

definition collected ::
  "('d \<Rightarrow> string) \<Rightarrow> 'd heap \<Rightarrow> addr set \<Rightarrow> cstate \<Rightarrow> cstate \<Rightarrow> addr list \<Rightarrow> bool" where
  "collected fmt h S st st' as \<longleftrightarrow>
     objects_to_save st' = objects_to_save st @ map (\<lambda>a. to_dict fmt h (h ! a)) as \<and>
     visited_ids st' = visited_ids st \<union> id_at h ` set as \<and>
     distinct (map (id_at h) as) \<and>
     id_at h ` set as \<inter> visited_ids st = {} \<and>
     (\<forall>a\<in>set as. a < length h \<and> (\<exists>s\<in>S. (s, a) \<in> (edges h)\<^sup>*)) \<and>
     (\<forall>a\<in>set as. \<forall>b\<in>set (p_friends (h ! a)). id_at h b \<in> visited_ids st')"

lemma collected_refl: "collected fmt h S st st []"
  by (simp add: collected_def)

lemma collected_visit:
  assumes p: "p < length h" and nv: "id_at h p \<notin> visited_ids st"
    and c: "collected fmt h (set (p_friends (h ! p))) (visit fmt h p st) st' as"
    and fr: "id_at h ` set (p_friends (h ! p)) \<subseteq> visited_ids st'"
  shows "collected fmt h {p} st st' (p # as)"
proof -
  have reach: "(p, a) \<in> (edges h)\<^sup>*"
    if "s \<in> set (p_friends (h ! p))" "(s, a) \<in> (edges h)\<^sup>*" for a s
  proof -
    from p that(1) have "(p, s) \<in> edges h" by (simp add: edges_def)
    then show ?thesis using that(2) by (rule converse_rtrancl_into_rtrancl)
  qed
  have v: "visited_ids (visit fmt h p st) = insert (id_at h p) (visited_ids st)"
    and o: "objects_to_save (visit fmt h p st) = objects_to_save st @ [to_dict fmt h (h ! p)]"
    by (simp_all add: visit_def get_id_def id_at_def)
  from c have c1: "objects_to_save st' = objects_to_save (visit fmt h p st) @ map (\<lambda>a. to_dict fmt h (h ! a)) as"
    and c2: "visited_ids st' = visited_ids (visit fmt h p st) \<union> id_at h ` set as"
    and c3: "distinct (map (id_at h) as)"
    and c4: "id_at h ` set as \<inter> visited_ids (visit fmt h p st) = {}"
    and c5: "\<forall>a\<in>set as. a < length h \<and> (\<exists>s\<in>set (p_friends (h ! p)). (s, a) \<in> (edges h)\<^sup>*)"
    and c6: "\<forall>a\<in>set as. \<forall>b\<in>set (p_friends (h ! a)). id_at h b \<in> visited_ids st'"
    unfolding collected_def by blast+
  have g1: "objects_to_save st' = objects_to_save st @ map (\<lambda>a. to_dict fmt h (h ! a)) (p # as)"
    using c1 o by simp
  have g2: "visited_ids st' = visited_ids st \<union> id_at h ` set (p # as)"
    using c2 v by auto
  have g3: "distinct (map (id_at h) (p # as))"
    using c3 c4 v by auto
  have g4: "id_at h ` set (p # as) \<inter> visited_ids st = {}"
    using c4 v nv by auto
  have g5: "\<forall>a\<in>set (p # as). a < length h \<and> (\<exists>s\<in>{p}. (s, a) \<in> (edges h)\<^sup>*)"
    using c5 p reach by auto
  have g6: "\<forall>a\<in>set (p # as). \<forall>b\<in>set (p_friends (h ! a)). id_at h b \<in> visited_ids st'"
    using c6 fr by auto
  show ?thesis unfolding collected_def using g1 g2 g3 g4 g5 g6 by blast
qed

lemma collected_trans:
  assumes a: "collected fmt h {f} st st1 as1" and b: "collected fmt h (set fs) st1 st' as2"
  shows "collected fmt h (set (f # fs)) st st' (as1 @ as2)"
proof -
  from a have a1: "objects_to_save st1 = objects_to_save st @ map (\<lambda>a. to_dict fmt h (h ! a)) as1"
    and a2: "visited_ids st1 = visited_ids st \<union> id_at h ` set as1"
    and a3: "distinct (map (id_at h) as1)"
    and a4: "id_at h ` set as1 \<inter> visited_ids st = {}"
    and a5: "\<forall>a\<in>set as1. a < length h \<and> (\<exists>s\<in>{f}. (s, a) \<in> (edges h)\<^sup>*)"
    and a6: "\<forall>a\<in>set as1. \<forall>b\<in>set (p_friends (h ! a)). id_at h b \<in> visited_ids st1"
    unfolding collected_def by blast+
  from b have b1: "objects_to_save st' = objects_to_save st1 @ map (\<lambda>a. to_dict fmt h (h ! a)) as2"
    and b2: "visited_ids st' = visited_ids st1 \<union> id_at h ` set as2"
    and b3: "distinct (map (id_at h) as2)"
    and b4: "id_at h ` set as2 \<inter> visited_ids st1 = {}"
    and b5: "\<forall>a\<in>set as2. a < length h \<and> (\<exists>s\<in>set fs. (s, a) \<in> (edges h)\<^sup>*)"
    and b6: "\<forall>a\<in>set as2. \<forall>b\<in>set (p_friends (h ! a)). id_at h b \<in> visited_ids st'"
    unfolding collected_def by blast+
  have g1: "objects_to_save st' = objects_to_save st @ map (\<lambda>a. to_dict fmt h (h ! a)) (as1 @ as2)"
    using a1 b1 by simp
  have g2: "visited_ids st' = visited_ids st \<union> id_at h ` set (as1 @ as2)"
    using a2 b2 by auto
  have g3: "distinct (map (id_at h) (as1 @ as2))"
    using a3 b3 b4 a2 by auto
  have g4: "id_at h ` set (as1 @ as2) \<inter> visited_ids st = {}"
    using a4 b4 a2 by auto
  have g5: "\<forall>a\<in>set (as1 @ as2). a < length h \<and> (\<exists>s\<in>set (f # fs). (s, a) \<in> (edges h)\<^sup>*)"
    using a5 b5 by auto
  have g6: "\<forall>a\<in>set (as1 @ as2). \<forall>b\<in>set (p_friends (h ! a)). id_at h b \<in> visited_ids st'"
    using a6 b6 b2 by auto
  show ?thesis unfolding collected_def using g1 g2 g3 g4 g5 g6 by blast
qed

lemma collect_post:
  "closed h \<Longrightarrow> p < length h \<Longrightarrow>
     \<exists>st' as. collect_objects_unbounded fmt h p st = Some st' \<and> collected fmt h {p} st st' as \<and>
        id_at h p \<in> visited_ids st'"
  "closed h \<Longrightarrow> \<forall>f\<in>set fs. f < length h \<Longrightarrow>
     \<exists>st' as. collect_friends_unbounded fmt h fs st = Some st' \<and> collected fmt h (set fs) st st' as \<and>
        id_at h ` set fs \<subseteq> visited_ids st'"
proof (induction fmt h p st and fmt h fs st rule: collect_objects_unbounded_collect_friends_unbounded.induct)
  case (1 fmt h p st)
  show ?case
  proof (cases "id_at h p \<in> visited_ids st")
    case True
    with 1(3) have "collect_objects_unbounded fmt h p st = Some st"
      by (simp add: collect_objects_unbounded.simps get_id_def id_at_def)
    with True collected_refl show ?thesis by blast
  next
    case False
    have fs: "\<forall>f\<in>set (get_friends (h ! p)). f < length h"
      using 1(2,3) by (auto simp: closed_def get_friends_def)
    from False 1(3) have nv: "get_id (h ! p) \<notin> visited_ids st" "\<not> length h \<le> p"
      by (simp_all add: get_id_def id_at_def)
    from 1(1) [OF nv(2) nv(1) 1(2) fs]
    obtain st' as where r: "collect_friends_unbounded fmt h (get_friends (h ! p)) (visit fmt h p st) = Some st'"
      and c: "collected fmt h (set (get_friends (h ! p))) (visit fmt h p st) st' as"
      and f: "id_at h ` set (get_friends (h ! p)) \<subseteq> visited_ids st'"
      by blast
    from nv r have "collect_objects_unbounded fmt h p st = Some st'"
      by (simp add: collect_objects_unbounded.simps)
    moreover have "collected fmt h {p} st st' (p # as)"
      using collected_visit [OF 1(3) False] c f by (simp add: get_friends_def)
    moreover from this have "id_at h p \<in> visited_ids st'"
      by (simp add: collected_def)
    ultimately show ?thesis by blast
  qed
next
  case (2 fmt h st)
  show ?case using collected_refl [of fmt h "{}" st] by auto
next
  case (3 fmt h friend rest st)
  from 3(4) have fl: "friend < length h" and rl: "\<forall>f\<in>set rest. f < length h" by simp_all
  from 3(1) [OF 3(3) fl]
  obtain st1 as1 where r1: "collect_objects_unbounded fmt h friend st = Some st1"
    and c1: "collected fmt h {friend} st st1 as1" and v1: "id_at h friend \<in> visited_ids st1"
    by blast
  from 3(2) [OF r1 3(3) rl]
  obtain st' as2 where r2: "collect_friends_unbounded fmt h rest st1 = Some st'"
    and c2: "collected fmt h (set rest) st1 st' as2" and v2: "id_at h ` set rest \<subseteq> visited_ids st'"
    by blast
  from r1 r2 have "collect_friends_unbounded fmt h (friend # rest) st = Some st'" by simp
  moreover have "collected fmt h (set (friend # rest)) st st' (as1 @ as2)"
    using c1 c2 by (rule collected_trans)
  moreover have "id_at h ` set (friend # rest) \<subseteq> visited_ids st'"
    using v1 v2 c2 by (auto simp: collected_def)
  ultimately show ?case by blast
qed

section \<open>Depth-first pre-order\<close>

text \<open>
  The order against which the traversal of the serialisers is compared: depth-first
  pre-order in its textbook formulation, with a stack of pending nodes, and visited nodes
  remembered by address. It is written independently of \<open>collect_objects\<close>, which recurses
  and remembers identifiers; \<open>collect_preorder\<close> below relates the two.
\<close>

function preorder :: "'d heap \<Rightarrow> addr list \<Rightarrow> addr set \<Rightarrow> addr list" where
  "preorder h [] seen = []"
| "preorder h (a # stack) seen =
     (if length h \<le> a \<or> a \<in> seen then preorder h stack seen
      else a # preorder h (p_friends (h ! a) @ stack) (insert a seen))"
  by pat_completeness auto
termination
proof (relation "inv_image (less_than <*lex*> less_than)
    (\<lambda>(h, stack, seen). (card ({..<length h} - seen), length stack))")
  show "wf (inv_image (less_than <*lex*> less_than)
    (\<lambda>(h :: 'd heap, stack :: addr list, seen). (card ({..<length h} - seen), length stack)))"
    by (intro wf_inv_image wf_lex_prod wf_less_than)
next
  fix h :: "'d heap" and a :: addr and stack :: "addr list" and seen :: "addr set"
  assume "length h \<le> a \<or> a \<in> seen"
  show "((h, stack, seen), (h, a # stack, seen)) \<in> inv_image (less_than <*lex*> less_than)
    (\<lambda>(h, stack, seen). (card ({..<length h} - seen), length stack))"
    by simp
next
  fix h :: "'d heap" and a :: addr and stack :: "addr list" and seen :: "addr set"
  assume "\<not> (length h \<le> a \<or> a \<in> seen)"
  then have "a \<in> {..<length h} - seen" by simp
  then have "card ({..<length h} - seen - {a}) < card ({..<length h} - seen)"
    by (intro card_Diff1_less) simp_all
  moreover have "{..<length h} - insert a seen = {..<length h} - seen - {a}" by blast
  ultimately have "card ({..<length h} - insert a seen) < card ({..<length h} - seen)"
    by simp
  then show "((h, p_friends (h ! a) @ stack, insert a seen), (h, a # stack, seen))
     \<in> inv_image (less_than <*lex*> less_than)
    (\<lambda>(h, stack, seen). (card ({..<length h} - seen), length stack))"
    by simp
qed

declare preorder.simps(2) [simp del]

lemma preorder_skip:
  "length h \<le> a \<or> a \<in> seen \<Longrightarrow> preorder h (a # stack) seen = preorder h stack seen"
  by (subst preorder.simps(2)) simp

lemma preorder_visit:
  "a < length h \<Longrightarrow> a \<notin> seen \<Longrightarrow>
     preorder h (a # stack) seen = a # preorder h (p_friends (h ! a) @ stack) (insert a seen)"
  by (subst preorder.simps(2)) simp

lemma id_at_inj:
  assumes "unique_ids h" "a < length h" "b < length h" "id_at h a = id_at h b"
  shows "a = b"
proof -
  from assms(2-4) have "map p_id h ! a = map p_id h ! b" by (simp add: id_at_def)
  moreover from assms(1) have "distinct (map p_id h)" by (simp add: unique_ids_def)
  ultimately show ?thesis using assms(2,3) nth_eq_iff_index_eq [of "map p_id h" a b] by simp
qed

lemma id_at_image_mem:
  assumes "unique_ids h" "a < length h" "V \<subseteq> {..<length h}"
  shows "id_at h a \<in> id_at h ` V \<longleftrightarrow> a \<in> V"
proof
  assume "id_at h a \<in> id_at h ` V"
  then obtain b where b: "b \<in> V" "id_at h a = id_at h b" by blast
  with assms(3) have "b < length h" by blast
  with assms(1,2) b(2) have "a = b" by (auto intro: id_at_inj)
  with b(1) show "a \<in> V" by simp
next
  assume "a \<in> V" then show "id_at h a \<in> id_at h ` V" by (rule imageI)
qed

lemma collect_preorder:
  "closed h \<Longrightarrow> unique_ids h \<Longrightarrow> p < length h \<Longrightarrow> visited_ids st = id_at h ` V \<Longrightarrow>
     V \<subseteq> {..<length h} \<Longrightarrow>
     \<exists>st' as. collect_objects_unbounded fmt h p st = Some st' \<and>
        objects_to_save st' = objects_to_save st @ map (\<lambda>a. to_dict fmt h (h ! a)) as \<and>
        visited_ids st' = id_at h ` (V \<union> set as) \<and> set as \<subseteq> {..<length h} \<and>
        (\<forall>stack. preorder h (p # stack) V = as @ preorder h stack (V \<union> set as))"
  "closed h \<Longrightarrow> unique_ids h \<Longrightarrow> \<forall>f\<in>set fs. f < length h \<Longrightarrow> visited_ids st = id_at h ` V \<Longrightarrow>
     V \<subseteq> {..<length h} \<Longrightarrow>
     \<exists>st' as. collect_friends_unbounded fmt h fs st = Some st' \<and>
        objects_to_save st' = objects_to_save st @ map (\<lambda>a. to_dict fmt h (h ! a)) as \<and>
        visited_ids st' = id_at h ` (V \<union> set as) \<and> set as \<subseteq> {..<length h} \<and>
        (\<forall>stack. preorder h (fs @ stack) V = as @ preorder h stack (V \<union> set as))"
proof (induction fmt h p st and fmt h fs st arbitrary: V and V
    rule: collect_objects_unbounded_collect_friends_unbounded.induct)
  case (1 fmt h p st)
  note cl = 1(2) and un = 1(3) and pl = 1(4) and vis = 1(5) and Vs = 1(6)
  show ?case
  proof (cases "p \<in> V")
    case True
    with vis pl have "collect_objects_unbounded fmt h p st = Some st"
      by (simp add: collect_objects_unbounded.simps get_id_def id_at_def)
    moreover from True have "\<forall>stack. preorder h (p # stack) V = [] @ preorder h stack (V \<union> set [])"
      by (simp add: preorder_skip)
    moreover have "objects_to_save st = objects_to_save st @ map (\<lambda>a. to_dict fmt h (h ! a)) []"
      by simp
    moreover have "visited_ids st = id_at h ` (V \<union> set [])" using vis by simp
    moreover have "set ([] :: addr list) \<subseteq> {..<length h}" by simp
    ultimately show ?thesis by blast
  next
    case False
    with id_at_image_mem [OF un pl Vs] vis have nvi: "id_at h p \<notin> visited_ids st" by simp
    then have nv: "\<not> length h \<le> p" "get_id (h ! p) \<notin> visited_ids st"
      using pl by (simp_all add: get_id_def id_at_def)
    have fs: "\<forall>f\<in>set (get_friends (h ! p)). f < length h"
      using cl pl by (auto simp: closed_def get_friends_def)
    have v': "visited_ids (visit fmt h p st) = id_at h ` insert p V"
      using vis by (simp add: visit_def get_id_def id_at_def)
    have V': "insert p V \<subseteq> {..<length h}" using Vs pl by simp
    from 1(1) [OF nv cl un fs v' V']
    obtain st' as where r: "collect_friends_unbounded fmt h (get_friends (h ! p)) (visit fmt h p st) = Some st'"
      and o: "objects_to_save st' = objects_to_save (visit fmt h p st) @ map (\<lambda>a. to_dict fmt h (h ! a)) as"
      and v: "visited_ids st' = id_at h ` (insert p V \<union> set as)"
      and s: "set as \<subseteq> {..<length h}"
      and pre: "\<forall>stack. preorder h (get_friends (h ! p) @ stack) (insert p V) = as @ preorder h stack (insert p V \<union> set as)"
      by blast
    have "collect_objects_unbounded fmt h p st = Some st'"
      using nv r by (simp add: collect_objects_unbounded.simps)
    moreover have "objects_to_save st' = objects_to_save st @ map (\<lambda>a. to_dict fmt h (h ! a)) (p # as)"
      using o by (simp add: visit_def)
    moreover have "visited_ids st' = id_at h ` (V \<union> set (p # as))"
      using v by simp
    moreover have "set (p # as) \<subseteq> {..<length h}" using s pl by simp
    moreover have "\<forall>stack. preorder h (p # stack) V = (p # as) @ preorder h stack (V \<union> set (p # as))"
    proof
      fix stack
      have "preorder h (p # stack) V = p # preorder h (get_friends (h ! p) @ stack) (insert p V)"
        using False pl by (simp add: preorder_visit get_friends_def)
      also have "\<dots> = p # as @ preorder h stack (insert p V \<union> set as)"
        using pre by simp
      finally show "preorder h (p # stack) V = (p # as) @ preorder h stack (V \<union> set (p # as))"
        by simp
    qed
    ultimately show ?thesis by blast
  qed
next
  case (2 fmt h st)
  have "collect_friends_unbounded fmt h [] st = Some st" by simp
  moreover have "objects_to_save st = objects_to_save st @ map (\<lambda>a. to_dict fmt h (h ! a)) []"
    by simp
  moreover have "visited_ids st = id_at h ` (V \<union> set [])" using 2(4) by simp
  moreover have "set ([] :: addr list) \<subseteq> {..<length h}" by simp
  moreover have "\<forall>stack. preorder h ([] @ stack) V = [] @ preorder h stack (V \<union> set [])" by simp
  ultimately show ?case by blast
next
  case (3 fmt h friend rest st)
  note cl = 3(3) and un = 3(4) and vis = 3(6) and Vs = 3(7)
  from 3(5) have fl: "friend < length h" and rl: "\<forall>f\<in>set rest. f < length h" by simp_all
  from 3(1) [OF cl un fl vis Vs]
  obtain st1 as1 where r1: "collect_objects_unbounded fmt h friend st = Some st1"
    and o1: "objects_to_save st1 = objects_to_save st @ map (\<lambda>a. to_dict fmt h (h ! a)) as1"
    and v1: "visited_ids st1 = id_at h ` (V \<union> set as1)"
    and s1: "set as1 \<subseteq> {..<length h}"
    and pre1: "\<forall>stack. preorder h (friend # stack) V = as1 @ preorder h stack (V \<union> set as1)"
    by blast
  have V1: "V \<union> set as1 \<subseteq> {..<length h}" using Vs s1 by simp
  from 3(2) [OF r1 cl un rl v1 V1]
  obtain st' as2 where r2: "collect_friends_unbounded fmt h rest st1 = Some st'"
    and o2: "objects_to_save st' = objects_to_save st1 @ map (\<lambda>a. to_dict fmt h (h ! a)) as2"
    and v2: "visited_ids st' = id_at h ` (V \<union> set as1 \<union> set as2)"
    and s2: "set as2 \<subseteq> {..<length h}"
    and pre2: "\<forall>stack. preorder h (rest @ stack) (V \<union> set as1) = as2 @ preorder h stack (V \<union> set as1 \<union> set as2)"
    by blast
  have "collect_friends_unbounded fmt h (friend # rest) st = Some st'" using r1 r2 by simp
  moreover have "objects_to_save st' = objects_to_save st @ map (\<lambda>a. to_dict fmt h (h ! a)) (as1 @ as2)"
    using o1 o2 by simp
  moreover have "visited_ids st' = id_at h ` (V \<union> set (as1 @ as2))"
    using v2 by (simp add: Un_assoc)
  moreover have "set (as1 @ as2) \<subseteq> {..<length h}" using s1 s2 by simp
  moreover have "\<forall>stack. preorder h ((friend # rest) @ stack) V = (as1 @ as2) @ preorder h stack (V \<union> set (as1 @ as2))"
  proof
    fix stack
    have "preorder h ((friend # rest) @ stack) V = preorder h (friend # (rest @ stack)) V" by simp
    also have "\<dots> = as1 @ preorder h (rest @ stack) (V \<union> set as1)"
      using pre1 by blast
    also have "\<dots> = as1 @ as2 @ preorder h stack (V \<union> set as1 \<union> set as2)"
      using pre2 by simp
    finally show "preorder h ((friend # rest) @ stack) V = (as1 @ as2) @ preorder h stack (V \<union> set (as1 @ as2))"
      by (simp add: Un_assoc)
  qed
  ultimately show ?case by blast
qed

lemma serialize_preorder:
  assumes "closed h" "unique_ids h" "root < length h"
  shows "serialize_unbounded fmt h root = Some (map (\<lambda>a. to_dict fmt h (h ! a)) (preorder h [root] {}))"
proof -
  have "visited_ids \<lparr>objects_to_save = [], visited_ids = {}\<rparr> = id_at h ` {}" by simp
  from collect_preorder(1) [OF assms this, of fmt]
  obtain st' as where r: "collect_objects_unbounded fmt h root \<lparr>objects_to_save = [], visited_ids = {}\<rparr> = Some st'"
    and o: "objects_to_save st' = map (\<lambda>a. to_dict fmt h (h ! a)) as"
    and pre: "\<forall>stack. preorder h (root # stack) {} = as @ preorder h stack ({} \<union> set as)"
    by auto
  from pre have "preorder h [root] {} = as" by simp
  with r o show ?thesis by (simp add: serialize_unbounded_def)
qed

lemma preorder_root:
  assumes "closed h" "root < length h"
  shows "\<exists>as. distinct (map (id_at h) as) \<and>
           (\<forall>a\<in>set as. a < length h \<and> (root, a) \<in> (edges h)\<^sup>*) \<and>
           id_at h root \<in> id_at h ` set as \<and>
           (\<forall>a\<in>set as. \<forall>b\<in>set (p_friends (h ! a)). id_at h b \<in> id_at h ` set as) \<and>
           serialize_unbounded fmt h root = Some (map (\<lambda>a. to_dict fmt h (h ! a)) as)"
proof -
  from collect_post(1) [OF assms, of fmt "\<lparr>objects_to_save = [], visited_ids = {}\<rparr>"]
  obtain st' as where r: "collect_objects_unbounded fmt h root \<lparr>objects_to_save = [], visited_ids = {}\<rparr> = Some st'"
    and c: "collected fmt h {root} \<lparr>objects_to_save = [], visited_ids = {}\<rparr> st' as"
    and v: "id_at h root \<in> visited_ids st'"
    by blast
  from c have c1: "objects_to_save st' = map (\<lambda>a. to_dict fmt h (h ! a)) as"
    and c2: "visited_ids st' = id_at h ` set as"
    and c3: "distinct (map (id_at h) as)"
    and c5: "\<forall>a\<in>set as. a < length h \<and> (root, a) \<in> (edges h)\<^sup>*"
    and c6: "\<forall>a\<in>set as. \<forall>b\<in>set (p_friends (h ! a)). id_at h b \<in> visited_ids st'"
    unfolding collected_def by auto
  have "serialize_unbounded fmt h root = Some (map (\<lambda>a. to_dict fmt h (h ! a)) as)"
    using r c1 by (simp add: serialize_unbounded_def)
  with c2 c3 c5 c6 v show ?thesis by auto
qed

lemma to_dict_id [simp]: "d_id (to_dict fmt h (h ! a)) = id_at h a"
  by (simp add: to_dict_def id_at_def)

lemma map_id_at_inj:
  assumes u: "unique_ids h" and a: "\<forall>a\<in>set as. a < length h" and b: "\<forall>a\<in>set bs. a < length h"
    and e: "map (id_at h) as = map (id_at h) bs"
  shows "as = bs"
proof -
  have "inj_on (id_at h) {..<length h}"
    using u by (auto intro: inj_onI id_at_inj)
  moreover have "set as \<subseteq> {..<length h}" "set bs \<subseteq> {..<length h}" using a b by auto
  ultimately have "inj_on (id_at h) (set as \<union> set bs)"
    by (auto intro: inj_on_subset)
  with e show ?thesis by (rule inj_on_map_eq_map [THEN iffD1, rotated])
qed

lemma preorder_bounded: "\<forall>a\<in>set (preorder h stack seen). a < length h"
  by (induction h stack seen rule: preorder.induct) (auto simp: preorder.simps(2))

lemma preorder_facts:
  assumes cl: "closed h" and un: "unique_ids h" and rt: "root < length h"
  shows "distinct (preorder h [root] {})"
    and "set (preorder h [root] {}) = reachable h root"
    and "\<exists>rest. preorder h [root] {} = root # rest"
proof -
  let ?po = "preorder h [root] {}"
  from preorder_root [OF cl rt, of fmt]
  obtain as where d: "distinct (map (id_at h) as)"
    and r: "\<forall>a\<in>set as. a < length h \<and> (root, a) \<in> (edges h)\<^sup>*"
    and i: "id_at h root \<in> id_at h ` set as"
    and c: "\<forall>a\<in>set as. \<forall>b\<in>set (p_friends (h ! a)). id_at h b \<in> id_at h ` set as"
    and s: "serialize_unbounded fmt h root = Some (map (\<lambda>a. to_dict fmt h (h ! a)) as)"
    by blast
  from s serialize_preorder [OF cl un rt, of fmt]
  have "map (\<lambda>a. to_dict fmt h (h ! a)) as = map (\<lambda>a. to_dict fmt h (h ! a)) ?po" by simp
  then have "map d_id (map (\<lambda>a. to_dict fmt h (h ! a)) as) = map d_id (map (\<lambda>a. to_dict fmt h (h ! a)) ?po)"
    by simp
  then have "map (id_at h) as = map (id_at h) ?po" by (simp add: comp_def)
  with un r preorder_bounded [of h "[root]" "{}"] have eq: "as = ?po"
    by (intro map_id_at_inj [of h]) auto
  have sub: "set as \<subseteq> {..<length h}" using r by auto
  from d show "distinct ?po" unfolding eq [symmetric] by (rule distinct_map [THEN iffD1, THEN conjunct1])
  have root_in: "root \<in> set as"
    using i id_at_image_mem [OF un rt sub] by simp
  have closed_as: "b \<in> set as" if "a \<in> set as" "(a, b) \<in> edges h" for a b
  proof -
    from that have b: "b \<in> set (p_friends (h ! a))" and a: "a < length h" by (simp_all add: edges_def)
    with cl have bl: "b < length h" by (auto simp: closed_def)
    from c that(1) b have "id_at h b \<in> id_at h ` set as" by blast
    with id_at_image_mem [OF un bl sub] show ?thesis by simp
  qed
  have "b \<in> set as" if "(root, b) \<in> (edges h)\<^sup>*" for b
    using that by (induction rule: rtrancl_induct) (auto intro: root_in closed_as)
  with r show "set ?po = reachable h root"
    unfolding eq [symmetric] reachable_def by auto
  from rt show "\<exists>rest. ?po = root # rest" by (simp add: preorder_visit)
qed

lemma count_list_distinct:
  "distinct xs \<Longrightarrow> x \<in> set xs \<Longrightarrow> count_list xs x = 1"
  by (induction xs) auto

lemma serialize_ids:
  assumes "closed h" "unique_ids h" "root < length h"
  shows "\<exists>objects. serialize_unbounded fmt h root = Some objects \<and>
           distinct (map d_id objects) \<and> set (map d_id objects) = id_at h ` reachable h root"
proof -
  let ?po = "preorder h [root] {}"
  have "inj_on (id_at h) {..<length h}"
    using assms(2) by (auto intro: inj_onI id_at_inj)
  moreover have "set ?po \<subseteq> {..<length h}" using preorder_bounded [of h "[root]" "{}"] by auto
  ultimately have "inj_on (id_at h) (set ?po)" by (rule inj_on_subset)
  with preorder_facts(1) [OF assms] have "distinct (map (id_at h) ?po)"
    by (simp add: distinct_map)
  moreover have "map d_id (map (\<lambda>a. to_dict fmt h (h ! a)) ?po) = map (id_at h) ?po"
    by (simp add: comp_def)
  moreover have "set (map (id_at h) ?po) = id_at h ` reachable h root"
    using preorder_facts(2) [OF assms] by simp
  ultimately have "distinct (map d_id (map (\<lambda>a. to_dict fmt h (h ! a)) ?po)) \<and>
      set (map d_id (map (\<lambda>a. to_dict fmt h (h ! a)) ?po)) = id_at h ` reachable h root"
    by metis
  with serialize_preorder [OF assms, of fmt] show ?thesis by blast
qed

section \<open>Graphs built with \<open>add_friend\<close>\<close>

lemma append_friend_length [simp]: "length (append_friend h a b) = length h"
  by (simp add: append_friend_def)

lemma append_friend_nth:
  "c < length h \<Longrightarrow> append_friend h a b ! c =
     (if c = a then (h ! a)\<lparr>p_friends := p_friends (h ! a) @ [b]\<rparr> else h ! c)"
  by (simp add: append_friend_def)

lemma add_friend_skip:
  "\<not> (self < length h \<and> friend < length h \<and> friend \<notin> set (p_friends (h ! self))) \<Longrightarrow>
     add_friend h self friend = h"
  by (subst add_friend.simps) (erule if_not_P)

lemma add_friend_step:
  "self < length h \<and> friend < length h \<and> friend \<notin> set (p_friends (h ! self)) \<Longrightarrow>
     add_friend h self friend =
       (if self \<notin> set (p_friends (append_friend h self friend ! friend))
        then add_friend (append_friend h self friend) friend self
        else append_friend h self friend)"
  by (subst add_friend.simps) (simp add: Let_def)

lemma add_friend_unfold:
  "add_friend h a b =
     (if a < length h \<and> b < length h \<and> b \<notin> set (p_friends (h ! a)) then
        if a = b \<or> a \<in> set (p_friends (h ! b)) then append_friend h a b
        else append_friend (append_friend h a b) b a
      else h)"
proof (cases "a < length h \<and> b < length h \<and> b \<notin> set (p_friends (h ! a))")
  case False
  show ?thesis by (simp only: add_friend_skip [OF False] False if_False)
next
  case True
  let ?h' = "append_friend h a b"
  show ?thesis
  proof (cases "a = b \<or> a \<in> set (p_friends (h ! b))")
    case yes: True
    with True have "a \<in> set (p_friends (?h' ! b))"
      by (auto simp: append_friend_nth)
    then have "add_friend h a b = ?h'" using add_friend_step [OF True] by simp
    with True yes show ?thesis by simp
  next
    case no: False
    with True have n: "a \<notin> set (p_friends (?h' ! b))"
      by (auto simp: append_friend_nth)
    let ?h'' = "append_friend ?h' b a"
    from True no have "b \<in> set (p_friends (?h'' ! a))"
      by (auto simp: append_friend_nth)
    moreover from True n
    have t: "b < length ?h' \<and> a < length ?h' \<and> a \<notin> set (p_friends (?h' ! b))"
      by simp
    ultimately have "add_friend ?h' b a = ?h''"
      using add_friend_step [OF t] add_friend_skip [of a ?h'' b] by simp
    with n have "add_friend h a b = ?h''" using add_friend_step [OF True] by simp
    with True no show ?thesis by simp
  qed
qed

definition friends_at :: "'d heap \<Rightarrow> addr \<Rightarrow> addr list" where
  "friends_at h a = p_friends (h ! a)"

lemma friends_at_append_friend:
  "c < length h \<Longrightarrow> friends_at (append_friend h a b) c =
     (if c = a then friends_at h a @ [b] else friends_at h c)"
  by (simp add: friends_at_def append_friend_nth)

lemma friends_at_add_friend:
  assumes "c < length h"
  shows "friends_at (add_friend h a b) c =
     (if a < length h \<and> b < length h \<and> b \<notin> set (friends_at h a) then
        if c = a then friends_at h a @ [b]
        else if c = b \<and> a \<notin> set (friends_at h b) then friends_at h b @ [a]
        else friends_at h c
      else friends_at h c)"
  using assms
  by (auto simp: add_friend_unfold friends_at_append_friend)
     (auto simp: friends_at_def)

lemma add_friend_length [simp]: "length (add_friend h a b) = length h"
  by (simp add: add_friend_unfold)

lemma add_friend_fields:
  "c < length h \<Longrightarrow> p_id (add_friend h a b ! c) = p_id (h ! c) \<and>
     p_name (add_friend h a b ! c) = p_name (h ! c) \<and>
     p_born_in (add_friend h a b ! c) = p_born_in (h ! c)"
  by (simp add: add_friend_unfold append_friend_nth)

text \<open>
  The heaps a program reaches with the constructor and \<open>add_friend\<close> alone. \<open>uuid4\<close>
  never repeats an identifier.
\<close>

inductive built :: "'d heap \<Rightarrow> bool" where
  built_empty: "built []"
| built_new: "built h \<Longrightarrow> uuid \<notin> set (map p_id h) \<Longrightarrow>
     built (fst (new_person h uuid name born_in))"
| built_friend: "built h \<Longrightarrow> a < length h \<Longrightarrow> b < length h \<Longrightarrow> built (add_friend h a b)"

definition symmetric :: "'d heap \<Rightarrow> bool" where
  "symmetric h = (\<forall>a<length h. \<forall>b\<in>set (p_friends (h ! a)). a \<in> set (p_friends (h ! b)))"

lemma closedI:
  "(\<And>a b. a < length h \<Longrightarrow> b \<in> set (friends_at h a) \<Longrightarrow> b < length h) \<Longrightarrow> closed h"
  unfolding closed_def friends_at_def by (metis in_set_conv_nth)

lemma closedD: "closed h \<Longrightarrow> a < length h \<Longrightarrow> b \<in> set (friends_at h a) \<Longrightarrow> b < length h"
  unfolding closed_def friends_at_def by auto

lemma symmetricD:
  "symmetric h \<Longrightarrow> a < length h \<Longrightarrow> b \<in> set (friends_at h a) \<Longrightarrow> a \<in> set (friends_at h b)"
  unfolding symmetric_def friends_at_def by auto

lemma closed_add_friend:
  assumes "closed h"
  shows "closed (add_friend h a b)"
proof (rule closedI)
  fix c d
  assume c: "c < length (add_friend h a b)" and d: "d \<in> set (friends_at (add_friend h a b) c)"
  from c have c': "c < length h" by simp
  from d closedD [OF assms c'] show "d < length (add_friend h a b)"
    by (auto simp: friends_at_add_friend [OF c'] split: if_splits)
qed

lemma unique_ids_add_friend:
  assumes "unique_ids h"
  shows "unique_ids (add_friend h a b)"
proof -
  have "map p_id (add_friend h a b) = map p_id h"
    by (rule nth_equalityI) (simp_all add: add_friend_fields)
  with assms show ?thesis by (simp add: unique_ids_def)
qed

lemma symmetric_add_friend:
  assumes s: "symmetric h" and cl: "closed h"
  shows "symmetric (add_friend h a b)"
  unfolding symmetric_def
proof (intro allI impI ballI)
  fix c d
  assume c: "c < length (add_friend h a b)" and d: "d \<in> set (p_friends (add_friend h a b ! c))"
  from c have c': "c < length h" by simp
  from d have d': "d \<in> set (friends_at (add_friend h a b) c)" by (simp add: friends_at_def)
  have dl: "d < length h"
    using closedD [OF closed_add_friend [OF cl] c d'] by simp
  have "c \<in> set (friends_at (add_friend h a b) d)"
    using d' symmetricD [OF s c'] symmetricD [OF s dl]
    by (auto simp: friends_at_add_friend [OF c'] friends_at_add_friend [OF dl] split: if_splits)
  then show "c \<in> set (p_friends (add_friend h a b ! d))" by (simp add: friends_at_def)
qed

lemma new_person_nth:
  "c < length h \<Longrightarrow> fst (new_person h uuid name born) ! c = h ! c"
  "fst (new_person h uuid name born) ! length h = Person uuid name born"
  "length (fst (new_person h uuid name born)) = Suc (length h)"
  by (simp_all add: new_person_def nth_append)

lemma closed_new_person: "closed h \<Longrightarrow> closed (fst (new_person h uuid name born))"
  unfolding closed_def new_person_def Person_def by (auto simp: less_Suc_eq)

lemma unique_ids_new_person:
  "unique_ids h \<Longrightarrow> uuid \<notin> set (map p_id h) \<Longrightarrow> unique_ids (fst (new_person h uuid name born))"
  unfolding unique_ids_def new_person_def Person_def by simp

lemma symmetric_new_person:
  assumes "symmetric h" "closed h"
  shows "symmetric (fst (new_person h uuid name born))"
  unfolding symmetric_def
proof (intro allI impI ballI)
  fix a b
  let ?h = "fst (new_person h uuid name born)"
  assume a: "a < length ?h" and b: "b \<in> set (p_friends (?h ! a))"
  show "a \<in> set (p_friends (?h ! b))"
  proof (cases "a < length h")
    case True
    with b have b': "b \<in> set (friends_at h a)" by (simp add: new_person_nth friends_at_def)
    with closedD [OF assms(2) True] have "b < length h" by simp
    with symmetricD [OF assms(1) True b'] show ?thesis
      by (simp add: new_person_nth friends_at_def)
  next
    case False
    with a have "a = length h" by (simp add: new_person_nth)
    with b show ?thesis by (simp add: new_person_nth Person_def)
  qed
qed

lemma built_invariants: "built h \<Longrightarrow> closed h \<and> unique_ids h \<and> symmetric h"
proof (induction rule: built.induct)
  case built_empty
  show ?case by (simp add: closed_def unique_ids_def symmetric_def)
next
  case (built_new h uuid name born_in)
  then show ?case
    by (simp add: closed_new_person unique_ids_new_person symmetric_new_person)
next
  case (built_friend h a b)
  then show ?case
    by (simp add: closed_add_friend unique_ids_add_friend symmetric_add_friend)
qed

lemma add_friend_symmetric_pair:
  assumes a: "a < length h" and b: "b < length h"
    and s: "b \<in> set (p_friends (h ! a)) \<Longrightarrow> a \<in> set (p_friends (h ! b))"
  shows "b \<in> set (p_friends (add_friend h a b ! a)) \<and>
         a \<in> set (p_friends (add_friend h a b ! b)) \<and>
         add_friend (add_friend h a b) a b = add_friend h a b"
proof -
  let ?h = "add_friend h a b"
  have 1: "b \<in> set (friends_at ?h a)"
    using a b by (simp add: friends_at_add_friend [OF a])
  have 2: "a \<in> set (friends_at ?h b)"
  proof (cases "b \<in> set (p_friends (h ! a))")
    case True
    with s have "a \<in> set (friends_at h b)" by (simp add: friends_at_def)
    moreover from True have "add_friend h a b = h"
      by (intro add_friend_skip) simp
    ultimately show ?thesis by simp
  next
    case False
    with a b show ?thesis
      by (simp add: friends_at_add_friend [OF b]) (simp add: friends_at_def)
  qed
  from 1 have "add_friend ?h a b = ?h"
    by (intro add_friend_skip) (simp add: friends_at_def)
  with 1 2 show ?thesis by (simp add: friends_at_def)
qed

lemma add_friend_to_self:
  assumes "a < length h"
  shows "p_friends (add_friend h a a ! a) =
           (if a \<in> set (p_friends (h ! a)) then p_friends (h ! a) else p_friends (h ! a) @ [a])"
  using friends_at_add_friend [OF assms, of a a] assms by (simp add: friends_at_def)

section \<open>Deserialisation of the two classes\<close>

text \<open>
  \<open>PersonSerializer.deserialize\<close> and \<open>DirectAccessSerializer.deserialize\<close> run the same two
  loops over the decoded list \<open>objects_data\<close>: the first creates one object for each
  dictionary and stores it in \<open>obj_cache\<close> under its identifier, the second replaces the
  friends of \<open>obj_cache[obj_data['id']]\<close> by the objects found for the identifiers of
  \<open>obj_data['friends']\<close>. A missing key raises \<open>KeyError\<close> with the key, and
  \<open>objects_data[0]\<close> raises \<open>IndexError\<close> on the empty list. The new objects are known
  to nothing else, so they form a heap of their own. The first loop stops with
  \<open>ValueError\<close> at the first dictionary whose \<open>born_in\<close> text \<open>fromisoformat\<close> refuses,
  before any identifier is looked up. The dictionaries are taken with their four keys
  present.
\<close>

definition lookup :: "(string \<rightharpoonup> addr) \<Rightarrow> string \<Rightarrow> error + addr" where
  "lookup obj_cache key = (case obj_cache key of None \<Rightarrow> Inl (KeyError key) | Some obj \<Rightarrow> Inr obj)"

fun lookup_all :: "(string \<rightharpoonup> addr) \<Rightarrow> string list \<Rightarrow> error + addr list" where
  "lookup_all obj_cache [] = Inr []"
| "lookup_all obj_cache (friend_id # rest) =
     (case lookup obj_cache friend_id of
        Inl e \<Rightarrow> Inl e
      | Inr obj \<Rightarrow>
          (case lookup_all obj_cache rest of Inl e \<Rightarrow> Inl e | Inr objs \<Rightarrow> Inr (obj # objs)))"

fun create_objects ::
  "(string \<Rightarrow> 'd option) \<Rightarrow> flat list \<Rightarrow> 'd heap \<Rightarrow> (string \<rightharpoonup> addr) \<Rightarrow>
     error + 'd heap \<times> (string \<rightharpoonup> addr)" where
  "create_objects fromisoformat [] h obj_cache = Inr (h, obj_cache)"
| "create_objects fromisoformat (obj_data # rest) h obj_cache =
     (case from_dict fromisoformat obj_data of
        Inl e \<Rightarrow> Inl e
      | Inr obj \<Rightarrow>
          create_objects fromisoformat rest (h @ [obj]) (obj_cache(d_id obj_data \<mapsto> length h)))"

definition set_friends :: "'d heap \<Rightarrow> addr \<Rightarrow> addr list \<Rightarrow> 'd heap" where
  "set_friends h person friends = h[person := (h ! person)\<lparr>p_friends := friends\<rparr>]"

fun link_objects :: "flat list \<Rightarrow> (string \<rightharpoonup> addr) \<Rightarrow> 'd heap \<Rightarrow> error + 'd heap" where
  "link_objects [] obj_cache h = Inr h"
| "link_objects (obj_data # rest) obj_cache h =
     (case lookup obj_cache (d_id obj_data) of
        Inl e \<Rightarrow> Inl e
      | Inr person \<Rightarrow>
          (case lookup_all obj_cache (d_friends obj_data) of
             Inl e \<Rightarrow> Inl e
           | Inr friends \<Rightarrow> link_objects rest obj_cache (set_friends h person friends)))"

definition rebuild ::
  "(string \<Rightarrow> 'd option) \<Rightarrow> flat list \<Rightarrow> error + 'd heap \<times> (string \<rightharpoonup> addr)" where
  "rebuild fromisoformat objects_data =
     (case create_objects fromisoformat objects_data [] Map.empty of
        Inl e \<Rightarrow> Inl e
      | Inr (h, obj_cache) \<Rightarrow>
          (case link_objects objects_data obj_cache h of
             Inl e \<Rightarrow> Inl e
           | Inr h' \<Rightarrow> Inr (h', obj_cache)))"

definition deserialize :: "(string \<Rightarrow> 'd option) \<Rightarrow> flat list \<Rightarrow> error + 'd heap \<times> addr" where
  "deserialize fromisoformat objects_data =
     (case rebuild fromisoformat objects_data of
        Inl e \<Rightarrow> Inl e
      | Inr (h, obj_cache) \<Rightarrow>
          (case objects_data of
             [] \<Rightarrow> Inl IndexError
           | obj_data # _ \<Rightarrow>
               (case lookup obj_cache (d_id obj_data) of
                  Inl e \<Rightarrow> Inl e
                | Inr root \<Rightarrow> Inr (h, root))))"


subsection \<open>Lookups\<close>

lemma lookup_all_ok:
  "set ks \<subseteq> dom c \<Longrightarrow> lookup_all c ks = Inr (map (\<lambda>k. the (c k)) ks)"
  by (induction ks) (auto simp: lookup_def)

lemma lookup_all_Inr_dom:
  "lookup_all c ks = Inr objs \<Longrightarrow> set ks \<subseteq> dom c"
  by (induction ks arbitrary: objs) (auto simp: lookup_def split: option.splits sum.splits)

lemma lookup_all_Inr:
  "lookup_all c ks = Inr objs \<longleftrightarrow> set ks \<subseteq> dom c \<and> objs = map (\<lambda>k. the (c k)) ks"
  using lookup_all_ok [of ks c] lookup_all_Inr_dom [of c ks objs] by auto

lemma lookup_all_Inl:
  "lookup_all c ks = Inl e \<Longrightarrow> \<exists>k\<in>set ks. k \<notin> dom c \<and> e = KeyError k"
  by (induction ks) (auto simp: lookup_def split: option.splits sum.splits)

lemma lookup_all_fails:
  "\<not> set ks \<subseteq> dom c \<Longrightarrow> \<exists>k\<in>set ks. k \<notin> dom c \<and> lookup_all c ks = Inl (KeyError k)"
proof -
  assume a: "\<not> set ks \<subseteq> dom c"
  obtain r where r: "lookup_all c ks = r" by simp
  show ?thesis
  proof (cases r)
    case (Inl e)
    with r lookup_all_Inl [of c ks e] show ?thesis by auto
  next
    case (Inr objs)
    with r a lookup_all_Inr [of c ks objs] show ?thesis by simp
  qed
qed

subsection \<open>The first loop\<close>

lemma from_dict_Inr:
  "from_dict parse r = Inr obj \<longleftrightarrow>
     (\<exists>d. parse (d_born_in r) = Some d \<and>
          obj = \<lparr>p_id = d_id r, p_name = d_name r, p_born_in = d, p_friends = []\<rparr>)"
  by (auto simp: from_dict_def split: option.splits)

lemma from_dict_projr:
  "parse (d_born_in r) \<noteq> None \<Longrightarrow>
     projr (from_dict parse r) =
       \<lparr>p_id = d_id r, p_name = d_name r, p_born_in = the (parse (d_born_in r)), p_friends = []\<rparr>"
  by (auto simp: from_dict_def)

lemma create_objects_Cons_Inr:
  "create_objects parse (r # rs) h c = Inr (h', c') \<longleftrightarrow>
     (\<exists>obj. from_dict parse r = Inr obj \<and>
        create_objects parse rs (h @ [obj]) (c(d_id r \<mapsto> length h)) = Inr (h', c'))"
  by (auto split: sum.splits)

lemma create_objects_heap:
  "create_objects parse recs h c = Inr (h', c') \<Longrightarrow>
     h' = h @ map (\<lambda>r. projr (from_dict parse r)) recs \<and>
     (\<forall>r\<in>set recs. parse (d_born_in r) \<noteq> None)"
proof (induction recs arbitrary: h c)
  case Nil
  then show ?case by simp
next
  case (Cons r rs)
  from Cons.prems obtain obj where o: "from_dict parse r = Inr obj"
    and c: "create_objects parse rs (h @ [obj]) (c(d_id r \<mapsto> length h)) = Inr (h', c')"
    unfolding create_objects_Cons_Inr by blast
  from o have "parse (d_born_in r) \<noteq> None" by (auto simp: from_dict_Inr)
  with Cons.IH [OF c] o show ?case by simp
qed

lemma create_objects_ok:
  "\<forall>r\<in>set recs. parse (d_born_in r) \<noteq> None \<Longrightarrow>
     \<exists>h' c'. create_objects parse recs h c = Inr (h', c')"
proof (induction recs arbitrary: h c)
  case Nil
  show ?case by simp
next
  case (Cons r rs)
  from Cons.prems obtain d where "parse (d_born_in r) = Some d" by auto
  then obtain obj where "from_dict parse r = Inr obj" by (auto simp: from_dict_Inr)
  moreover from Cons.prems have "\<forall>r\<in>set rs. parse (d_born_in r) \<noteq> None" by simp
  from Cons.IH [OF this, of "h @ [obj]" "c(d_id r \<mapsto> length h)"]
  obtain h' c' where "create_objects parse rs (h @ [obj]) (c(d_id r \<mapsto> length h)) = Inr (h', c')"
    by blast
  ultimately show ?case unfolding create_objects_Cons_Inr by blast
qed

lemma create_objects_fails:
  "find (\<lambda>r. parse (d_born_in r) = None) recs = Some r \<Longrightarrow>
     create_objects parse recs h c = Inl (ValueError (d_born_in r))"
proof (induction recs arbitrary: h c)
  case Nil
  then show ?case by simp
next
  case (Cons a rs)
  show ?case
  proof (cases "parse (d_born_in a)")
    case None
    with Cons.prems show ?thesis by (simp add: from_dict_def)
  next
    case (Some d)
    with Cons.prems have "find (\<lambda>r. parse (d_born_in r) = None) rs = Some r" by simp
    from Cons.IH [OF this] Some show ?thesis by (simp add: from_dict_def)
  qed
qed

lemma create_objects_other:
  "create_objects parse recs h c = Inr (h', c') \<Longrightarrow> k \<notin> d_id ` set recs \<Longrightarrow> c' k = c k"
proof (induction recs arbitrary: h c)
  case Nil
  then show ?case by simp
next
  case (Cons r rs)
  from Cons.prems(1) obtain obj where
    "create_objects parse rs (h @ [obj]) (c(d_id r \<mapsto> length h)) = Inr (h', c')"
    unfolding create_objects_Cons_Inr by blast
  from Cons.IH [OF this] Cons.prems(2) show ?case by simp
qed

lemma create_objects_last:
  "create_objects parse recs h c = Inr (h', c') \<Longrightarrow> i < length recs \<Longrightarrow>
     \<forall>j. i < j \<and> j < length recs \<longrightarrow> d_id (recs ! j) \<noteq> d_id (recs ! i) \<Longrightarrow>
     c' (d_id (recs ! i)) = Some (length h + i)"
proof (induction recs arbitrary: h c i)
  case Nil
  then show ?case by simp
next
  case (Cons r rs)
  from Cons.prems(1) obtain obj where
    c: "create_objects parse rs (h @ [obj]) (c(d_id r \<mapsto> length h)) = Inr (h', c')"
    unfolding create_objects_Cons_Inr by blast
  show ?case
  proof (cases i)
    case 0
    with Cons.prems(3) have "\<forall>j<length rs. d_id (rs ! j) \<noteq> d_id r"
      by (metis Suc_less_eq length_Cons nth_Cons_0 nth_Cons_Suc zero_less_Suc)
    then have "d_id r \<notin> d_id ` set rs" by (auto simp: in_set_conv_nth)
    with 0 create_objects_other [OF c] show ?thesis by simp
  next
    case (Suc i')
    with Cons.prems(2) have 1: "i' < length rs" by simp
    have 2: "\<forall>j. i' < j \<and> j < length rs \<longrightarrow> d_id (rs ! j) \<noteq> d_id (rs ! i')"
    proof (intro allI impI)
      fix j assume "i' < j \<and> j < length rs"
      with Suc have "i < Suc j \<and> Suc j < length (r # rs)" by simp
      with Cons.prems(3) have "d_id ((r # rs) ! Suc j) \<noteq> d_id ((r # rs) ! i)" by blast
      with Suc show "d_id (rs ! j) \<noteq> d_id (rs ! i')" by simp
    qed
    from Cons.IH [OF c 1 2] Suc show ?thesis by simp
  qed
qed

lemma create_objects_dom:
  "create_objects parse recs h c = Inr (h', c') \<Longrightarrow> dom c' = dom c \<union> d_id ` set recs"
proof (induction recs arbitrary: h c)
  case Nil
  then show ?case by simp
next
  case (Cons r rs)
  from Cons.prems obtain obj where
    "create_objects parse rs (h @ [obj]) (c(d_id r \<mapsto> length h)) = Inr (h', c')"
    unfolding create_objects_Cons_Inr by blast
  from Cons.IH [OF this] show ?case by auto
qed

lemma create_objects_range:
  "create_objects parse recs h c = Inr (h', c') \<Longrightarrow> c' k = Some a \<Longrightarrow>
     c k = Some a \<or> (\<exists>i<length recs. a = length h + i \<and> d_id (recs ! i) = k)"
proof (induction recs arbitrary: h c)
  case Nil
  then show ?case by simp
next
  case (Cons r rs)
  from Cons.prems(1) obtain obj where
    "create_objects parse rs (h @ [obj]) (c(d_id r \<mapsto> length h)) = Inr (h', c')"
    unfolding create_objects_Cons_Inr by blast
  from Cons.IH [OF this Cons.prems(2)]
  consider "(c(d_id r \<mapsto> length h)) k = Some a"
    | i where "i < length rs" "a = length (h @ [obj]) + i" "d_id (rs ! i) = k"
    by blast
  then show ?case
  proof cases
    case 1
    then show ?thesis by (cases "k = d_id r") auto
  next
    case 2
    then have "Suc i < length (r # rs) \<and> a = length h + Suc i \<and> d_id ((r # rs) ! Suc i) = k"
      by simp
    then show ?thesis by blast
  qed
qed

subsection \<open>The second loop\<close>

lemma set_friends_length [simp]: "length (set_friends h a fs) = length h"
  by (simp add: set_friends_def)

lemma set_friends_nth:
  "b < length h \<Longrightarrow> set_friends h a fs ! b = (if b = a then (h ! a)\<lparr>p_friends := fs\<rparr> else h ! b)"
  by (simp add: set_friends_def)

lemma link_objects_Cons_Inr:
  "link_objects (r # rs) c h = Inr h' \<longleftrightarrow>
     (\<exists>a. c (d_id r) = Some a \<and> set (d_friends r) \<subseteq> dom c \<and>
        link_objects rs c (set_friends h a (map (\<lambda>k. the (c k)) (d_friends r))) = Inr h')"
proof (cases "set (d_friends r) \<subseteq> dom c")
  case True
  then show ?thesis
    by (auto simp: lookup_def lookup_all_ok split: option.splits)
next
  case False
  from lookup_all_fails [OF this] obtain k where "lookup_all c (d_friends r) = Inl (KeyError k)"
    by blast
  with False show ?thesis
    by (auto simp: lookup_def split: option.splits)
qed

lemma link_objects_length:
  "link_objects recs c h = Inr h' \<Longrightarrow> length h' = length h"
proof (induction recs arbitrary: h)
  case Nil
  then show ?case by simp
next
  case (Cons r rs)
  from Cons.prems obtain a where
    "link_objects rs c (set_friends h a (map (\<lambda>k. the (c k)) (d_friends r))) = Inr h'"
    unfolding link_objects_Cons_Inr by blast
  from Cons.IH [OF this] show ?case by simp
qed

lemma link_objects_fields:
  "link_objects recs c h = Inr h' \<Longrightarrow> b < length h \<Longrightarrow>
     p_id (h' ! b) = p_id (h ! b) \<and> p_name (h' ! b) = p_name (h ! b) \<and>
     p_born_in (h' ! b) = p_born_in (h ! b)"
proof (induction recs arbitrary: h)
  case Nil
  then show ?case by simp
next
  case (Cons r rs)
  from Cons.prems(1) obtain a where
    "link_objects rs c (set_friends h a (map (\<lambda>k. the (c k)) (d_friends r))) = Inr h'"
    unfolding link_objects_Cons_Inr by blast
  from Cons.IH [OF this] Cons.prems(2) show ?case by (simp add: set_friends_nth)
qed

lemma link_objects_ok:
  "\<forall>r\<in>set recs. d_id r \<in> dom c \<and> set (d_friends r) \<subseteq> dom c \<Longrightarrow>
     \<exists>h'. link_objects recs c h = Inr h'"
proof (induction recs arbitrary: h)
  case Nil
  then show ?case by simp
next
  case (Cons r rs)
  from Cons.prems obtain a where a: "c (d_id r) = Some a" and f: "set (d_friends r) \<subseteq> dom c"
    by auto
  from Cons.prems have "\<forall>r\<in>set rs. d_id r \<in> dom c \<and> set (d_friends r) \<subseteq> dom c" by simp
  from Cons.IH [OF this, of "set_friends h a (map (\<lambda>k. the (c k)) (d_friends r))"] a f
  show ?case unfolding link_objects_Cons_Inr by blast
qed

lemma link_objects_fails:
  "\<forall>r\<in>set recs. d_id r \<in> dom c \<Longrightarrow> \<exists>r\<in>set recs. \<not> set (d_friends r) \<subseteq> dom c \<Longrightarrow>
     \<exists>k. link_objects recs c h = Inl (KeyError k) \<and> k \<notin> dom c \<and>
         (\<exists>r\<in>set recs. k \<in> set (d_friends r))"
proof (induction recs arbitrary: h)
  case Nil
  then show ?case by simp
next
  case (Cons r rs)
  from Cons.prems(1) obtain a where a: "c (d_id r) = Some a" by auto
  show ?case
  proof (cases "set (d_friends r) \<subseteq> dom c")
    case True
    with Cons.prems have 1: "\<forall>r\<in>set rs. d_id r \<in> dom c"
      and 2: "\<exists>r\<in>set rs. \<not> set (d_friends r) \<subseteq> dom c" by auto
    from Cons.IH [OF 1 2, of "set_friends h a (map (\<lambda>k. the (c k)) (d_friends r))"]
    obtain k where "link_objects rs c (set_friends h a (map (\<lambda>k. the (c k)) (d_friends r))) = Inl (KeyError k)"
      and "k \<notin> dom c" and "\<exists>r\<in>set rs. k \<in> set (d_friends r)" by blast
    with a True show ?thesis by (auto simp: lookup_def lookup_all_ok)
  next
    case False
    from lookup_all_fails [OF False]
    obtain k where "k \<in> set (d_friends r)" "k \<notin> dom c"
      "lookup_all c (d_friends r) = Inl (KeyError k)" by blast
    with a show ?thesis by (auto simp: lookup_def)
  qed
qed

lemma link_objects_untouched:
  "link_objects recs c h = Inr h' \<Longrightarrow> \<forall>r\<in>set recs. c (d_id r) \<noteq> Some b \<Longrightarrow> h' ! b = h ! b"
proof (induction recs arbitrary: h)
  case Nil
  then show ?case by simp
next
  case (Cons r rs)
  from Cons.prems(1) obtain a where a: "c (d_id r) = Some a"
    and l: "link_objects rs c (set_friends h a (map (\<lambda>k. the (c k)) (d_friends r))) = Inr h'"
    unfolding link_objects_Cons_Inr by blast
  from Cons.prems(2) a have "a \<noteq> b" by auto
  moreover from Cons.prems(2) have "\<forall>r\<in>set rs. c (d_id r) \<noteq> Some b" by simp
  ultimately show ?case using Cons.IH [OF l] by (simp add: set_friends_def)
qed

lemma link_objects_last:
  "link_objects recs c h = Inr h' \<Longrightarrow> i < length recs \<Longrightarrow> c (d_id (recs ! i)) = Some b \<Longrightarrow>
     b < length h \<Longrightarrow> \<forall>j. i < j \<and> j < length recs \<longrightarrow> c (d_id (recs ! j)) \<noteq> Some b \<Longrightarrow>
     p_friends (h' ! b) = map (\<lambda>k. the (c k)) (d_friends (recs ! i))"
proof (induction recs arbitrary: h i)
  case Nil
  then show ?case by simp
next
  case (Cons r rs)
  from Cons.prems(1) obtain a where a: "c (d_id r) = Some a"
    and l: "link_objects rs c (set_friends h a (map (\<lambda>k. the (c k)) (d_friends r))) = Inr h'"
    unfolding link_objects_Cons_Inr by blast
  show ?case
  proof (cases i)
    case 0
    with Cons.prems(3) a have ab: "a = b" by simp
    have "\<forall>r\<in>set rs. c (d_id r) \<noteq> Some b"
    proof
      fix r' assume "r' \<in> set rs"
      then obtain j where "j < length rs" "rs ! j = r'" by (auto simp: in_set_conv_nth)
      with 0 Cons.prems(5) [rule_format, of "Suc j"] show "c (d_id r') \<noteq> Some b" by auto
    qed
    from link_objects_untouched [OF l this] ab Cons.prems(4) 0 show ?thesis
      by (simp add: set_friends_nth)
  next
    case (Suc i')
    with Cons.prems(2,3) have 1: "i' < length rs" and 2: "c (d_id (rs ! i')) = Some b" by simp_all
    have 3: "\<forall>j. i' < j \<and> j < length rs \<longrightarrow> c (d_id (rs ! j)) \<noteq> Some b"
    proof (intro allI impI)
      fix j assume "i' < j \<and> j < length rs"
      with Suc Cons.prems(5) [rule_format, of "Suc j"] show "c (d_id (rs ! j)) \<noteq> Some b" by simp
    qed
    from Cons.IH [OF l 1 2 _ 3] Cons.prems(4) Suc show ?thesis by simp
  qed
qed

subsection \<open>Both loops\<close>

text \<open>With repeated identifiers the last dictionary of each identifier is the one that counts.\<close>

definition is_last :: "flat list \<Rightarrow> nat \<Rightarrow> bool" where
  "is_last recs i \<longleftrightarrow> i < length recs \<and> d_id (recs ! i) \<notin> set (map d_id (drop (Suc i) recs))"

lemma is_last_iff:
  "is_last recs i \<longleftrightarrow>
     i < length recs \<and> (\<forall>j. i < j \<and> j < length recs \<longrightarrow> d_id (recs ! j) \<noteq> d_id (recs ! i))"
proof -
  have "d_id (recs ! i) \<in> set (map d_id (drop (Suc i) recs)) \<longleftrightarrow>
      (\<exists>j. i < j \<and> j < length recs \<and> d_id (recs ! j) = d_id (recs ! i))" (is "?L \<longleftrightarrow> ?R")
  proof
    assume ?L
    then obtain n where n: "n < length (drop (Suc i) recs)" "d_id (drop (Suc i) recs ! n) = d_id (recs ! i)"
      by (auto simp: in_set_conv_nth)
    then have "i < Suc i + n \<and> Suc i + n < length recs \<and> d_id (recs ! (Suc i + n)) = d_id (recs ! i)"
      by auto
    then show ?R by blast
  next
    assume ?R
    then obtain j where j: "i < j" "j < length recs" "d_id (recs ! j) = d_id (recs ! i)" by blast
    then have "j - Suc i < length (drop (Suc i) recs)" "drop (Suc i) recs ! (j - Suc i) = recs ! j"
      by auto
    with j(3) show ?L by (metis (no_types, lifting) imageI list.set_map nth_mem)
  qed
  then show ?thesis unfolding is_last_def by blast
qed

lemma is_last_distinct: "distinct (map d_id recs) \<Longrightarrow> i < length recs \<Longrightarrow> is_last recs i"
  unfolding is_last_iff by (auto simp: distinct_conv_nth)

lemma exists_last:
  "k \<in> d_id ` set recs \<Longrightarrow> \<exists>m. is_last recs m \<and> d_id (recs ! m) = k"
proof (induction recs rule: rev_induct)
  case Nil
  then show ?case by simp
next
  case (snoc r rs)
  show ?case
  proof (cases "d_id r = k")
    case True
    then have "is_last (rs @ [r]) (length rs) \<and> d_id ((rs @ [r]) ! length rs) = k"
      by (simp add: is_last_def)
    then show ?thesis by blast
  next
    case False
    with snoc.prems have "k \<in> d_id ` set rs" by auto
    from snoc.IH [OF this] obtain m where m: "is_last rs m" "d_id (rs ! m) = k" by blast
    with False have "is_last (rs @ [r]) m \<and> d_id ((rs @ [r]) ! m) = k"
      by (auto simp: is_last_def nth_append)
    then show ?thesis by blast
  qed
qed

lemma cache_last:
  "create_objects parse recs [] Map.empty = Inr (h, c) \<Longrightarrow> is_last recs i \<Longrightarrow>
     c (d_id (recs ! i)) = Some i"
  using create_objects_last [of parse recs "[]" Map.empty h c i] by (simp add: is_last_iff)

lemma cache_dom:
  "create_objects parse recs [] Map.empty = Inr (h, c) \<Longrightarrow> dom c = d_id ` set recs"
  by (simp add: create_objects_dom)

lemma cache_Some:
  assumes hc: "create_objects parse recs [] Map.empty = Inr (h, c)" and "c k = Some a"
  shows "is_last recs a \<and> d_id (recs ! a) = k"
proof -
  from create_objects_range [OF assms] have a: "a < length recs" "d_id (recs ! a) = k" by auto
  then have "k \<in> d_id ` set recs" by auto
  from exists_last [OF this] obtain m where m: "is_last recs m" "d_id (recs ! m) = k" by blast
  from cache_last [OF hc m(1)] m(2) assms(2) have "m = a" by simp
  with m a show ?thesis by simp
qed

lemma rebuild_result:
  assumes ap: "\<forall>r\<in>set recs. parse (d_born_in r) \<noteq> None"
    and ok: "\<forall>r\<in>set recs. set (d_friends r) \<subseteq> d_id ` set recs"
  shows "\<exists>h' c. rebuild parse recs = Inr (h', c) \<and> length h' = length recs \<and>
           dom c = d_id ` set recs \<and>
           (\<forall>k a. c k = Some a \<longrightarrow> is_last recs a \<and> d_id (recs ! a) = k) \<and>
           (\<forall>i<length recs. p_id (h' ! i) = d_id (recs ! i) \<and> p_name (h' ! i) = d_name (recs ! i) \<and>
               p_born_in (h' ! i) = the (parse (d_born_in (recs ! i)))) \<and>
           (\<forall>i. is_last recs i \<longrightarrow> c (d_id (recs ! i)) = Some i \<and>
               p_friends (h' ! i) = map (\<lambda>k. the (c k)) (d_friends (recs ! i))) \<and>
           (\<forall>i<length recs. \<not> is_last recs i \<longrightarrow> p_friends (h' ! i) = [])"
proof -
  from create_objects_ok [OF ap, of "[]" Map.empty]
  obtain h c where hc: "create_objects parse recs [] Map.empty = Inr (h, c)" by blast
  have h: "h = map (\<lambda>r. projr (from_dict parse r)) recs"
    using create_objects_heap [OF hc] by simp
  have hi: "h ! i = \<lparr>p_id = d_id (recs ! i), p_name = d_name (recs ! i),
      p_born_in = the (parse (d_born_in (recs ! i))), p_friends = []\<rparr>" if "i < length recs" for i
    using that ap by (simp add: h from_dict_projr)
  have dom: "dom c = d_id ` set recs" using hc by (rule cache_dom)
  have some: "is_last recs a \<and> d_id (recs ! a) = k" if "c k = Some a" for k a
    using hc that by (rule cache_Some)
  have last: "c (d_id (recs ! i)) = Some i" if "is_last recs i" for i
    using hc that by (rule cache_last)
  from ok dom have "\<forall>r\<in>set recs. d_id r \<in> dom c \<and> set (d_friends r) \<subseteq> dom c" by auto
  from link_objects_ok [OF this, of h] obtain h' where l: "link_objects recs c h = Inr h'" by blast
  then have r: "rebuild parse recs = Inr (h', c)" by (simp add: rebuild_def hc)
  have len: "length h' = length recs" using link_objects_length [OF l] h by simp
  have fields: "p_id (h' ! i) = d_id (recs ! i) \<and> p_name (h' ! i) = d_name (recs ! i) \<and>
      p_born_in (h' ! i) = the (parse (d_born_in (recs ! i)))" if "i < length recs" for i
    using link_objects_fields [OF l, of i] that hi [OF that] h by simp
  have fr: "p_friends (h' ! i) = map (\<lambda>k. the (c k)) (d_friends (recs ! i))" if "is_last recs i" for i
  proof -
    from that have i: "i < length recs" by (simp add: is_last_def)
    have "\<forall>j. i < j \<and> j < length recs \<longrightarrow> c (d_id (recs ! j)) \<noteq> Some i"
    proof (intro allI impI notI)
      fix j assume j: "i < j \<and> j < length recs" and "c (d_id (recs ! j)) = Some i"
      from some [OF this(2)] have "d_id (recs ! i) = d_id (recs ! j)" by simp
      with that j show False by (auto simp: is_last_iff)
    qed
    from link_objects_last [OF l i last [OF that] _ this] i h show ?thesis by simp
  qed
  have nofr: "p_friends (h' ! i) = []" if "i < length recs" "\<not> is_last recs i" for i
  proof -
    have "\<forall>r\<in>set recs. c (d_id r) \<noteq> Some i" using some that(2) by blast
    from link_objects_untouched [OF l this] hi [OF that(1)] show ?thesis by simp
  qed
  from r len dom some fields last fr nofr show ?thesis by blast
qed

lemma deserialize_parse_error:
  assumes "find (\<lambda>r. parse (d_born_in r) = None) recs = Some r"
  shows "rebuild parse recs = Inl (ValueError (d_born_in r))"
    and "deserialize parse recs = Inl (ValueError (d_born_in r))"
  using create_objects_fails [OF assms, of "[]" Map.empty]
  by (simp_all add: rebuild_def deserialize_def)

lemma unparsed_first:
  "\<not> (\<forall>r\<in>set recs. parse (d_born_in r) \<noteq> None) \<Longrightarrow>
     \<exists>r\<in>set recs. find (\<lambda>r. parse (d_born_in r) = None) recs = Some r"
proof -
  assume "\<not> (\<forall>r\<in>set recs. parse (d_born_in r) \<noteq> None)"
  then have "find (\<lambda>r. parse (d_born_in r) = None) recs \<noteq> None"
    by (auto simp: find_None_iff)
  then obtain r where r: "find (\<lambda>r. parse (d_born_in r) = None) recs = Some r" by blast
  then have "r \<in> set recs" by (auto simp: find_Some_iff)
  with r show ?thesis by blast
qed

subsection \<open>Serialise, then deserialise\<close>

lemma to_dict_sel [simp]:
  "d_id (to_dict fmt h p) = p_id p"
  "d_name (to_dict fmt h p) = p_name p"
  "d_born_in (to_dict fmt h p) = fmt (p_born_in p)"
  "d_friends (to_dict fmt h p) = map (id_at h) (p_friends p)"
  by (simp_all add: to_dict_def id_at_def)

lemma reachable_closed_friends:
  "a \<in> reachable h root \<Longrightarrow> a < length h \<Longrightarrow> b \<in> set (p_friends (h ! a)) \<Longrightarrow> b \<in> reachable h root"
  by (rule reachable_step) (simp_all add: edges_def)

lemma serialize_records:
  fixes fmt :: "'d \<Rightarrow> string" and h :: "'d heap"
  assumes "closed h" "unique_ids h" "root < length h"
  defines "po \<equiv> preorder h [root] {}"
  defines "recs \<equiv> map (\<lambda>a. to_dict fmt h (h ! a)) po"
  shows "serialize_unbounded fmt h root = Some recs"
    and "distinct (map d_id recs)"
    and "\<forall>r\<in>set recs. set (d_friends r) \<subseteq> d_id ` set recs"
    and "recs \<noteq> []" and "hd recs = to_dict fmt h (h ! root)"
    and "d_id ` set recs = id_at h ` reachable h root"
proof -
  note pf = preorder_facts [OF assms(1-3), folded po_def]
  have bound: "\<forall>a\<in>set po. a < length h"
    unfolding po_def by (rule preorder_bounded)
  show s: "serialize_unbounded fmt h root = Some recs"
    unfolding recs_def po_def by (rule serialize_preorder [OF assms(1-3)])
  have ids: "map d_id recs = map (id_at h) po"
    by (simp add: recs_def comp_def id_at_def)
  have "inj_on (id_at h) (set po)"
    using bound by (auto intro!: inj_onI id_at_inj [OF assms(2)])
  with pf(1) show "distinct (map d_id recs)" by (simp add: ids distinct_map)
  have set_ids: "d_id ` set recs = id_at h ` set po"
    using ids by (metis list.set_map)
  with pf(2) show "d_id ` set recs = id_at h ` reachable h root" by simp
  show "\<forall>r\<in>set recs. set (d_friends r) \<subseteq> d_id ` set recs"
  proof
    fix r assume "r \<in> set recs"
    then obtain a where a: "a \<in> set po" "r = to_dict fmt h (h ! a)" by (auto simp: recs_def)
    from a(1) pf(2) bound have ar: "a \<in> reachable h root" and al: "a < length h" by auto
    have "set (p_friends (h ! a)) \<subseteq> set po"
      using reachable_closed_friends [OF ar al] pf(2) by auto
    then show "set (d_friends r) \<subseteq> d_id ` set recs"
      unfolding set_ids a(2) by auto
  qed
  from pf(3) obtain rest where "po = root # rest" by blast
  then show "recs \<noteq> []" "hd recs = to_dict fmt h (h ! root)" by (simp_all add: recs_def)
qed

lemma deserialize_distinct:
  assumes ap: "\<forall>r\<in>set recs. parse (d_born_in r) \<noteq> None"
    and d: "distinct (map d_id recs)"
    and ok: "\<forall>r\<in>set recs. set (d_friends r) \<subseteq> d_id ` set recs"
    and ne: "recs \<noteq> []"
  shows "\<exists>h'. deserialize parse recs = Inr (h', 0) \<and> length h' = length recs \<and>
           closed h' \<and> unique_ids h' \<and>
           (\<forall>i<length recs. p_id (h' ! i) = d_id (recs ! i) \<and> p_name (h' ! i) = d_name (recs ! i) \<and>
               p_born_in (h' ! i) = the (parse (d_born_in (recs ! i))) \<and>
               map (id_at h') (p_friends (h' ! i)) = d_friends (recs ! i))"
proof -
  from rebuild_result [OF ap ok]
  obtain h' c where r: "rebuild parse recs = Inr (h', c)" and len: "length h' = length recs"
    and dom: "dom c = d_id ` set recs"
    and some: "\<And>k a. c k = Some a \<Longrightarrow> is_last recs a \<and> d_id (recs ! a) = k"
    and fields: "\<And>i. i < length recs \<Longrightarrow> p_id (h' ! i) = d_id (recs ! i) \<and>
        p_name (h' ! i) = d_name (recs ! i) \<and> p_born_in (h' ! i) = the (parse (d_born_in (recs ! i)))"
    and last: "\<And>i. is_last recs i \<Longrightarrow> c (d_id (recs ! i)) = Some i \<and>
        p_friends (h' ! i) = map (\<lambda>k. the (c k)) (d_friends (recs ! i))"
    by blast
  have il: "is_last recs i" if "i < length recs" for i
    using is_last_distinct [OF d that] .
  have res: "the (c k) < length recs \<and> id_at h' (the (c k)) = k" if "k \<in> d_id ` set recs" for k
  proof -
    from that dom obtain a where a: "c k = Some a" by blast
    from some [OF a] have "a < length recs" "d_id (recs ! a) = k" by (simp_all add: is_last_def)
    with fields [of a] a show ?thesis by (simp add: id_at_def)
  qed
  have friends: "map (id_at h') (p_friends (h' ! i)) = d_friends (recs ! i)"
    and friends_bound: "\<forall>b\<in>set (p_friends (h' ! i)). b < length h'" if "i < length recs" for i
  proof -
    from ok that have sub: "set (d_friends (recs ! i)) \<subseteq> d_id ` set recs" by auto
    have p: "p_friends (h' ! i) = map (\<lambda>k. the (c k)) (d_friends (recs ! i))"
      using last [OF il [OF that]] by simp
    show "map (id_at h') (p_friends (h' ! i)) = d_friends (recs ! i)"
      unfolding p using sub res by (simp add: map_idI subset_iff)
    show "\<forall>b\<in>set (p_friends (h' ! i)). b < length h'"
      unfolding p len using sub res by auto
  qed
  from ne have 0: "0 < length recs" by simp
  from ne obtain r0 rs where rr: "recs = r0 # rs" by (cases recs) auto
  from last [OF il [OF 0]] rr have "c (d_id r0) = Some 0" by simp
  with r rr have "deserialize parse recs = Inr (h', 0)"
    by (simp add: deserialize_def lookup_def)
  moreover have "closed h'"
    unfolding closed_def using friends_bound len by (metis in_set_conv_nth)
  moreover have "unique_ids h'"
  proof -
    have "map p_id h' = map d_id recs"
      by (rule nth_equalityI) (simp_all add: len fields)
    with d show ?thesis by (simp add: unique_ids_def)
  qed
  ultimately show ?thesis using len fields friends by blast
qed

lemma roundtrip:
  assumes "closed h" "unique_ids h" "root < length h" and inv: "\<forall>d. parse (fmt d) = Some d"
  shows "\<exists>recs h' root'. serialize_unbounded fmt h root = Some recs \<and>
           deserialize parse recs = Inr (h', root') \<and> root' < length h' \<and>
           closed h' \<and> unique_ids h' \<and>
           p_id (h' ! root') = p_id (h ! root) \<and> p_name (h' ! root') = p_name (h ! root) \<and>
           p_born_in (h' ! root') = p_born_in (h ! root) \<and>
           (\<forall>a\<in>reachable h root. \<exists>a'<length h'.
              p_id (h' ! a') = p_id (h ! a) \<and> p_name (h' ! a') = p_name (h ! a) \<and>
              p_born_in (h' ! a') = p_born_in (h ! a) \<and>
              map (id_at h') (p_friends (h' ! a')) = map (id_at h) (p_friends (h ! a)))"
proof -
  define po where "po = preorder h [root] {}"
  define recs where "recs = map (\<lambda>a. to_dict fmt h (h ! a)) po"
  have sr: "serialize_unbounded fmt h root = Some recs" "distinct (map d_id recs)"
    "\<forall>r\<in>set recs. set (d_friends r) \<subseteq> d_id ` set recs" "recs \<noteq> []"
    using serialize_records [OF assms(1-3), of fmt] unfolding recs_def po_def by blast+
  note pf = preorder_facts [OF assms(1-3), folded po_def]
  have ap: "\<forall>r\<in>set recs. parse (d_born_in r) \<noteq> None"
    using inv by (simp add: recs_def)
  from deserialize_distinct [OF ap sr(2,3,4)]
  obtain h' where de: "deserialize parse recs = Inr (h', 0)" and len: "length h' = length recs"
    and cl: "closed h'" and un: "unique_ids h'"
    and f: "\<And>i. i < length recs \<Longrightarrow> p_id (h' ! i) = d_id (recs ! i) \<and>
        p_name (h' ! i) = d_name (recs ! i) \<and> p_born_in (h' ! i) = the (parse (d_born_in (recs ! i))) \<and>
        map (id_at h') (p_friends (h' ! i)) = d_friends (recs ! i)"
    by blast
  have node: "p_id (h' ! i) = p_id (h ! (po ! i)) \<and> p_name (h' ! i) = p_name (h ! (po ! i)) \<and>
      p_born_in (h' ! i) = p_born_in (h ! (po ! i)) \<and>
      map (id_at h') (p_friends (h' ! i)) = map (id_at h) (p_friends (h ! (po ! i)))"
    if "i < length po" for i
    using f [of i] that inv by (simp add: recs_def)
  from pf(3) obtain rest where po: "po = root # rest" by blast
  then have 0: "0 < length po" "po ! 0 = root" by simp_all
  have all: "\<exists>a'<length h'. p_id (h' ! a') = p_id (h ! a) \<and> p_name (h' ! a') = p_name (h ! a) \<and>
      p_born_in (h' ! a') = p_born_in (h ! a) \<and>
      map (id_at h') (p_friends (h' ! a')) = map (id_at h) (p_friends (h ! a))"
    if "a \<in> reachable h root" for a
  proof -
    from that pf(2) have "a \<in> set po" by simp
    then obtain i where i: "i < length po" "po ! i = a" by (auto simp: in_set_conv_nth)
    with node [OF i(1)] len show ?thesis by (auto simp: recs_def)
  qed
  from 0 len have "0 < length h'" by (simp add: recs_def)
  with sr(1) de cl un node [OF 0(1)] 0(2) all show ?thesis by auto
qed

section \<open>The functional module\<close>

text \<open>
  \<open>PersonData\<close> is a dictionary with the keys \<open>id\<close>, \<open>name\<close>, \<open>born_in\<close>, \<open>friends\<close>.
  Its \<open>friends\<close> list holds identifiers until \<open>deserialize_functional\<close> replaces them
  by the dictionaries themselves, so an entry is either of the two. The dictionaries are
  objects on a heap of their own. \<open>add_friend\<close> of this module never reads its third
  argument \<open>persons_dict\<close>, which the model leaves out.
\<close>

datatype fref = IdRef string | ObjRef addr

record 'd person_data =
  f_id :: string
  f_name :: string
  f_born_in :: 'd
  f_friends :: "fref list"

definition create_person_data :: "string \<Rightarrow> string \<Rightarrow> 'd \<Rightarrow> 'd person_data" where
  "create_person_data uuid name born_in =
     \<lparr>f_id = uuid, f_name = name, f_born_in = born_in, f_friends = []\<rparr>"

definition create_person_with_friends :: "string \<Rightarrow> string \<Rightarrow> 'd \<Rightarrow> 'd person_data" where
  "create_person_with_friends uuid name born_in = create_person_data uuid name born_in"

definition friends_append :: "'d person_data list \<Rightarrow> addr \<Rightarrow> fref \<Rightarrow> 'd person_data list" where
  "friends_append h person x = h[person := (h ! person)\<lparr>f_friends := f_friends (h ! person) @ [x]\<rparr>]"

definition add_friend_functional ::
  "'d person_data list \<Rightarrow> addr \<Rightarrow> addr \<Rightarrow> 'd person_data list" where
  "add_friend_functional h person1 person2 =
     (if person1 < length h \<and> person2 < length h \<and>
         IdRef (f_id (h ! person2)) \<notin> set (f_friends (h ! person1)) then
        (let h1 = friends_append h person1 (IdRef (f_id (h ! person2)))
         in friends_append h1 person2 (IdRef (f_id (h1 ! person1))))
      else h)"

inductive built_functional :: "'d person_data list \<Rightarrow> bool" where
  built_functional_empty: "built_functional []"
| built_functional_new: "built_functional h \<Longrightarrow> uuid \<notin> set (map f_id h) \<Longrightarrow>
     built_functional (h @ [create_person_with_friends uuid name born_in])"
| built_functional_friend: "built_functional h \<Longrightarrow> a < length h \<Longrightarrow> b < length h \<Longrightarrow>
     built_functional (add_friend_functional h a b)"

definition wf_functional :: "'d person_data list \<Rightarrow> bool" where
  "wf_functional h \<longleftrightarrow>
     distinct (map f_id h) \<and>
     (\<forall>p\<in>set h. \<forall>x\<in>set (f_friends p). \<exists>q\<in>set h. x = IdRef (f_id q)) \<and>
     (\<forall>p\<in>set h. \<forall>q\<in>set h. IdRef (f_id q) \<in> set (f_friends p) \<longrightarrow> IdRef (f_id p) \<in> set (f_friends q))"

lemma friends_append_length [simp]: "length (friends_append h a x) = length h"
  by (simp add: friends_append_def)

lemma friends_append_nth:
  "c < length h \<Longrightarrow> friends_append h a x ! c =
     (if c = a then (h ! a)\<lparr>f_friends := f_friends (h ! a) @ [x]\<rparr> else h ! c)"
  by (simp add: friends_append_def)

lemma add_friend_functional_length [simp]: "length (add_friend_functional h a b) = length h"
  by (simp add: add_friend_functional_def Let_def)

lemma add_friend_functional_id:
  "c < length h \<Longrightarrow> f_id (add_friend_functional h a b ! c) = f_id (h ! c)"
  by (simp add: add_friend_functional_def Let_def friends_append_nth)

lemma add_friend_functional_friends:
  "c < length h \<Longrightarrow> f_friends (add_friend_functional h a b ! c) =
     (if a < length h \<and> b < length h \<and> IdRef (f_id (h ! b)) \<notin> set (f_friends (h ! a)) then
        f_friends (h ! c) @ (if c = a then [IdRef (f_id (h ! b))] else []) @
          (if c = b then [IdRef (f_id (h ! a))] else [])
      else f_friends (h ! c))"
  by (simp add: add_friend_functional_def Let_def friends_append_nth)

lemma wf_functionalI:
  assumes "distinct (map f_id h)"
    and "\<And>a x. a < length h \<Longrightarrow> x \<in> set (f_friends (h ! a)) \<Longrightarrow> \<exists>b<length h. x = IdRef (f_id (h ! b))"
    and "\<And>a b. a < length h \<Longrightarrow> b < length h \<Longrightarrow> IdRef (f_id (h ! b)) \<in> set (f_friends (h ! a)) \<Longrightarrow>
           IdRef (f_id (h ! a)) \<in> set (f_friends (h ! b))"
  shows "wf_functional h"
  unfolding wf_functional_def
proof (intro conjI ballI impI)
  show "distinct (map f_id h)" by fact
next
  fix p x assume "p \<in> set h" "x \<in> set (f_friends p)"
  then obtain a where "a < length h" "h ! a = p" by (auto simp: in_set_conv_nth)
  with assms(2) [of a x] \<open>x \<in> set (f_friends p)\<close> show "\<exists>q\<in>set h. x = IdRef (f_id q)"
    by auto
next
  fix p q assume "p \<in> set h" "q \<in> set h" "IdRef (f_id q) \<in> set (f_friends p)"
  then obtain a b where "a < length h" "h ! a = p" "b < length h" "h ! b = q"
    by (auto simp: in_set_conv_nth)
  with assms(3) [of a b] \<open>IdRef (f_id q) \<in> set (f_friends p)\<close>
  show "IdRef (f_id p) \<in> set (f_friends q)" by auto
qed

lemma wf_functionalD:
  assumes "wf_functional h"
  shows "distinct (map f_id h)"
    and "\<And>a x. a < length h \<Longrightarrow> x \<in> set (f_friends (h ! a)) \<Longrightarrow> \<exists>b<length h. x = IdRef (f_id (h ! b))"
    and "\<And>a b. a < length h \<Longrightarrow> b < length h \<Longrightarrow> IdRef (f_id (h ! b)) \<in> set (f_friends (h ! a)) \<Longrightarrow>
           IdRef (f_id (h ! a)) \<in> set (f_friends (h ! b))"
proof -
  from assms show "distinct (map f_id h)" by (simp add: wf_functional_def)
next
  fix a x assume "a < length h" "x \<in> set (f_friends (h ! a))"
  with assms obtain q where "q \<in> set h" "x = IdRef (f_id q)"
    unfolding wf_functional_def by (meson nth_mem)
  then show "\<exists>b<length h. x = IdRef (f_id (h ! b))" by (auto simp: in_set_conv_nth)
next
  fix a b assume "a < length h" "b < length h" "IdRef (f_id (h ! b)) \<in> set (f_friends (h ! a))"
  with assms show "IdRef (f_id (h ! a)) \<in> set (f_friends (h ! b))"
    unfolding wf_functional_def by (meson nth_mem)
qed

lemma f_id_inj:
  assumes "distinct (map f_id h)" "a < length h" "b < length h" "f_id (h ! a) = f_id (h ! b)"
  shows "a = b"
proof -
  from assms(2-4) have "map f_id h ! a = map f_id h ! b" by simp
  with assms(1-3) show ?thesis using nth_eq_iff_index_eq [of "map f_id h" a b] by simp
qed

lemma wf_functional_add_friend:
  assumes w: "wf_functional h"
  shows "wf_functional (add_friend_functional h a b)"
proof (rule wf_functionalI)
  let ?h = "add_friend_functional h a b"
  have "map f_id ?h = map f_id h"
    by (rule nth_equalityI) (simp_all add: add_friend_functional_id)
  with wf_functionalD(1) [OF w] show "distinct (map f_id ?h)" by simp
next
  let ?h = "add_friend_functional h a b"
  fix c x assume c: "c < length ?h" and x: "x \<in> set (f_friends (?h ! c))"
  from c have c': "c < length h" by simp
  from x wf_functionalD(2) [OF w c', of x]
  have "\<exists>d<length h. x = IdRef (f_id (h ! d))"
    by (auto simp: add_friend_functional_friends [OF c'] split: if_splits)
  then show "\<exists>d<length ?h. x = IdRef (f_id (?h ! d))"
    by (auto simp: add_friend_functional_id)
next
  let ?h = "add_friend_functional h a b"
  fix c d assume c: "c < length ?h" and d: "d < length ?h"
    and x: "IdRef (f_id (?h ! d)) \<in> set (f_friends (?h ! c))"
  from c d have c': "c < length h" and d': "d < length h" by simp_all
  note inj = f_id_inj [OF wf_functionalD(1) [OF w]]
  from x c' d' wf_functionalD(3) [OF w c' d'] inj [of d b] inj [of d a] inj [of c a] inj [of c b]
  show "IdRef (f_id (?h ! c)) \<in> set (f_friends (?h ! d))"
    by (auto simp: add_friend_functional_friends [OF c'] add_friend_functional_friends [OF d']
        add_friend_functional_id split: if_splits)
qed

lemma wf_functional_new:
  assumes w: "wf_functional h" and f: "uuid \<notin> set (map f_id h)"
  shows "wf_functional (h @ [create_person_with_friends uuid name born])"
proof -
  have no: "IdRef uuid \<notin> set (f_friends p)" if "p \<in> set h" for p
  proof
    assume "IdRef uuid \<in> set (f_friends p)"
    with w that obtain q where "q \<in> set h" "IdRef uuid = IdRef (f_id q)"
      unfolding wf_functional_def by blast
    with f show False by auto
  qed
  from w have "\<forall>p\<in>set h. \<forall>x\<in>set (f_friends p). \<exists>q\<in>set h. x = IdRef (f_id q)"
    and "\<forall>p\<in>set h. \<forall>q\<in>set h. IdRef (f_id q) \<in> set (f_friends p) \<longrightarrow> IdRef (f_id p) \<in> set (f_friends q)"
    and "distinct (map f_id h)"
    unfolding wf_functional_def by blast+
  with no f show ?thesis
    unfolding wf_functional_def create_person_with_friends_def create_person_data_def
    by auto
qed

lemma built_functional_wf: "built_functional h \<Longrightarrow> wf_functional h"
proof (induction rule: built_functional.induct)
  case built_functional_empty
  show ?case by (simp add: wf_functional_def)
next
  case (built_functional_new h uuid name born_in)
  then show ?case by (simp add: wf_functional_new)
next
  case (built_functional_friend h a b)
  then show ?case by (simp add: wf_functional_add_friend)
qed

lemma add_friend_functional_pair:
  assumes w: "wf_functional h" and a: "a < length h" and b: "b < length h" and ne: "a \<noteq> b"
  shows "IdRef (f_id (h ! b)) \<in> set (f_friends (add_friend_functional h a b ! a)) \<and>
         IdRef (f_id (h ! a)) \<in> set (f_friends (add_friend_functional h a b ! b)) \<and>
         add_friend_functional (add_friend_functional h a b) a b = add_friend_functional h a b"
proof -
  let ?h = "add_friend_functional h a b"
  have 1: "IdRef (f_id (h ! b)) \<in> set (f_friends (?h ! a))"
    using a b by (simp add: add_friend_functional_friends [OF a])
  have 2: "IdRef (f_id (h ! a)) \<in> set (f_friends (?h ! b))"
    using a b wf_functionalD(3) [OF w a b] by (auto simp: add_friend_functional_friends [OF b])
  from 1 b have "IdRef (f_id (?h ! b)) \<in> set (f_friends (?h ! a))"
    by (simp add: add_friend_functional_id)
  then have "add_friend_functional ?h a b = ?h"
    by (subst add_friend_functional_def) simp
  with 1 2 show ?thesis by simp
qed

lemma add_friend_functional_self:
  assumes "a < length h"
  shows "f_friends (add_friend_functional h a a ! a) =
           (if IdRef (f_id (h ! a)) \<in> set (f_friends (h ! a)) then f_friends (h ! a)
            else f_friends (h ! a) @ [IdRef (f_id (h ! a)), IdRef (f_id (h ! a))])"
  using assms by (simp add: add_friend_functional_friends)

subsection \<open>\<open>serialize_functional\<close>\<close>

text \<open>
  \<open>persons_dict\<close> is a dictionary from identifiers to person dictionaries: an association
  list, read with \<open>map_of\<close>. The traversal only reads it. A friends entry that is a
  dictionary, not an identifier, cannot be looked up in the set \<open>visited_ids\<close>: Python
  raises \<open>TypeError\<close> (unhashable type).
\<close>

fun friend_ids :: "fref list \<Rightarrow> string list" where
  "friend_ids [] = []"
| "friend_ids (IdRef friend_id # rest) = friend_id # friend_ids rest"
| "friend_ids (ObjRef obj # rest) = friend_ids rest"

definition obj_copy :: "('d \<Rightarrow> string) \<Rightarrow> 'd person_data \<Rightarrow> flat" where
  "obj_copy isoformat person =
     \<lparr>d_id = f_id person, d_name = f_name person, d_born_in = isoformat (f_born_in person),
      d_friends = friend_ids (f_friends person)\<rparr>"

definition visit_functional ::
  "('d \<Rightarrow> string) \<Rightarrow> string \<Rightarrow> 'd person_data \<Rightarrow> cstate \<Rightarrow> cstate" where
  "visit_functional isoformat person_id person st =
     \<lparr>objects_to_save = objects_to_save st @ [obj_copy isoformat person],
      visited_ids = insert person_id (visited_ids st)\<rparr>"

record container =
  root_id :: string
  objects :: "flat list"

text \<open>
  \<open>collect_objects\<close> of \<open>serialize_functional\<close> and its loop, with the frames that the
  interpreter still allows as for the classes. The call on a friends entry that is a
  dictionary needs its frame before the test \<open>person_id in visited_ids\<close> raises
  \<open>TypeError\<close>.
\<close>

fun collect_objects_functional ::
    "nat \<Rightarrow> ('d \<Rightarrow> string) \<Rightarrow> (string \<times> 'd person_data) list \<Rightarrow> string \<Rightarrow> cstate \<Rightarrow> error + cstate" and
  collect_friends_functional ::
    "nat \<Rightarrow> ('d \<Rightarrow> string) \<Rightarrow> (string \<times> 'd person_data) list \<Rightarrow> fref list \<Rightarrow> cstate \<Rightarrow> error + cstate"
where
  "collect_objects_functional 0 isoformat persons_dict person_id st = Inl RecursionError"
| "collect_objects_functional (Suc frames) isoformat persons_dict person_id st =
     (if person_id \<in> visited_ids st then Inr st
      else case map_of persons_dict person_id of
             None \<Rightarrow> Inl (KeyError person_id)
           | Some person \<Rightarrow>
               collect_friends_functional frames isoformat persons_dict (f_friends person)
                 (visit_functional isoformat person_id person st))"
| "collect_friends_functional frames isoformat persons_dict [] st = Inr st"
| "collect_friends_functional frames isoformat persons_dict (ObjRef obj # rest) st =
     (if frames = 0 then Inl RecursionError else Inl TypeError)"
| "collect_friends_functional frames isoformat persons_dict (IdRef friend_id # rest) st =
     (case collect_objects_functional frames isoformat persons_dict friend_id st of
        Inl e \<Rightarrow> Inl e
      | Inr st' \<Rightarrow> collect_friends_functional frames isoformat persons_dict rest st')"

definition serialize_functional ::
  "nat \<Rightarrow> ('d \<Rightarrow> string) \<Rightarrow> 'd person_data \<Rightarrow> (string \<times> 'd person_data) list \<Rightarrow> error + container" where
  "serialize_functional frames isoformat root_person persons_dict =
     (case collect_objects_functional frames isoformat persons_dict (f_id root_person)
             \<lparr>objects_to_save = [], visited_ids = {}\<rparr> of
        Inl e \<Rightarrow> Inl e
      | Inr st \<Rightarrow> Inr \<lparr>root_id = f_id root_person, objects = objects_to_save st\<rparr>)"

text \<open>The same recursion with no bound on the depth, as for the classes.\<close>

function (domintros)
  collect_objects_functional_unbounded ::
    "('d \<Rightarrow> string) \<Rightarrow> (string \<times> 'd person_data) list \<Rightarrow> string \<Rightarrow> cstate \<Rightarrow> error + cstate" and
  collect_friends_functional_unbounded ::
    "('d \<Rightarrow> string) \<Rightarrow> (string \<times> 'd person_data) list \<Rightarrow> fref list \<Rightarrow> cstate \<Rightarrow> error + cstate"
where
  "collect_objects_functional_unbounded isoformat persons_dict person_id st =
     (if person_id \<in> visited_ids st then Inr st
      else case map_of persons_dict person_id of
             None \<Rightarrow> Inl (KeyError person_id)
           | Some person \<Rightarrow>
               collect_friends_functional_unbounded isoformat persons_dict (f_friends person)
                 (visit_functional isoformat person_id person st))"
| "collect_friends_functional_unbounded isoformat persons_dict [] st = Inr st"
| "collect_friends_functional_unbounded isoformat persons_dict (ObjRef obj # rest) st = Inl TypeError"
| "collect_friends_functional_unbounded isoformat persons_dict (IdRef friend_id # rest) st =
     (case collect_objects_functional_unbounded isoformat persons_dict friend_id st of
        Inl e \<Rightarrow> Inl e
      | Inr st' \<Rightarrow> collect_friends_functional_unbounded isoformat persons_dict rest st')"
  by pat_completeness auto

lemma collect_functional_mono_partial:
  "collect_objects_functional_unbounded_collect_friends_functional_unbounded_dom (Inl (fmt, pd, k, st)) \<Longrightarrow>
     collect_objects_functional_unbounded fmt pd k st = Inr st' \<Longrightarrow> visited_ids st \<subseteq> visited_ids st'"
  "collect_objects_functional_unbounded_collect_friends_functional_unbounded_dom (Inr (fmt, pd, fs, st)) \<Longrightarrow>
     collect_friends_functional_unbounded fmt pd fs st = Inr st' \<Longrightarrow> visited_ids st \<subseteq> visited_ids st'"
proof (induction fmt pd k st and fmt pd fs st arbitrary: st' and st'
    rule: collect_objects_functional_unbounded_collect_friends_functional_unbounded.pinduct)
  case (1 fmt pd k st)
  then show ?case
    by (auto simp: collect_objects_functional_unbounded.psimps visit_functional_def
        split: if_splits option.splits)
next
  case (2 fmt pd st)
  then show ?case by (simp add: collect_friends_functional_unbounded.psimps)
next
  case (3 fmt pd obj rest st)
  then show ?case by (simp add: collect_friends_functional_unbounded.psimps)
next
  case (4 fmt pd friend_id rest st)
  then show ?case
    by (fastforce simp: collect_friends_functional_unbounded.psimps split: sum.splits)
qed

definition unvisited_functional :: "(string \<times> 'd person_data) list \<Rightarrow> cstate \<Rightarrow> nat" where
  "unvisited_functional pd st = card (fst ` set pd - visited_ids st)"

lemma unvisited_functional_visit:
  "map_of pd k = Some p \<Longrightarrow> k \<notin> visited_ids st \<Longrightarrow>
     unvisited_functional pd (visit_functional fmt k p st) < unvisited_functional pd st"
proof -
  assume a: "map_of pd k = Some p" "k \<notin> visited_ids st"
  then have "k \<in> fst ` set pd - visited_ids st"
    by (auto dest: map_of_SomeD intro: rev_image_eqI)
  then have "card (fst ` set pd - visited_ids st - {k}) < card (fst ` set pd - visited_ids st)"
    by (intro card_Diff1_less) simp_all
  moreover have "fst ` set pd - insert k (visited_ids st) = fst ` set pd - visited_ids st - {k}"
    by blast
  ultimately show ?thesis by (simp add: unvisited_functional_def visit_functional_def)
qed

lemma unvisited_functional_mono:
  "visited_ids st \<subseteq> visited_ids st' \<Longrightarrow> unvisited_functional pd st' \<le> unvisited_functional pd st"
  unfolding unvisited_functional_def by (intro card_mono) auto

definition collect_functional_rank ::
  "('d \<Rightarrow> string) \<times> (string \<times> 'd person_data) list \<times> string \<times> cstate +
   ('d \<Rightarrow> string) \<times> (string \<times> 'd person_data) list \<times> fref list \<times> cstate \<Rightarrow> nat \<times> nat" where
  "collect_functional_rank x =
     (case x of
        Inl (fmt, pd, k, st) \<Rightarrow> (unvisited_functional pd st, 0)
      | Inr (fmt, pd, fs, st) \<Rightarrow> (unvisited_functional pd st, Suc (length fs)))"

termination collect_objects_functional_unbounded
proof (relation "inv_image (less_than <*lex*> less_than) collect_functional_rank")
  show "wf (inv_image (less_than <*lex*> less_than)
     (collect_functional_rank :: ('d \<Rightarrow> string) \<times> (string \<times> 'd person_data) list \<times> string \<times> cstate +
   ('d \<Rightarrow> string) \<times> (string \<times> 'd person_data) list \<times> fref list \<times> cstate \<Rightarrow> nat \<times> nat))"
    by (intro wf_inv_image wf_lex_prod wf_less_than)
next
  fix fmt :: "'d \<Rightarrow> string" and pd :: "(string \<times> 'd person_data) list"
    and k and st :: cstate and p
  assume "k \<notin> visited_ids st" "map_of pd k = Some p"
  then show "(Inr (fmt, pd, f_friends p, visit_functional fmt k p st), Inl (fmt, pd, k, st))
      \<in> inv_image (less_than <*lex*> less_than) collect_functional_rank"
    by (simp add: collect_functional_rank_def unvisited_functional_visit)
next
  fix fmt :: "'d \<Rightarrow> string" and pd :: "(string \<times> 'd person_data) list"
    and k rest and st :: cstate
  show "(Inl (fmt, pd, k, st), Inr (fmt, pd, IdRef k # rest, st))
      \<in> inv_image (less_than <*lex*> less_than) collect_functional_rank"
    by (simp add: collect_functional_rank_def)
next
  fix fmt :: "'d \<Rightarrow> string" and pd :: "(string \<times> 'd person_data) list"
    and k rest and st st' :: cstate
  assume "collect_objects_functional_unbounded fmt pd k st = Inr st'"
    and "collect_objects_functional_unbounded_collect_friends_functional_unbounded_dom (Inl (fmt, pd, k, st))"
  then have "visited_ids st \<subseteq> visited_ids st'"
    by (rule collect_functional_mono_partial(1) [rotated])
  then have "unvisited_functional pd st' \<le> unvisited_functional pd st"
    by (rule unvisited_functional_mono)
  then show "(Inr (fmt, pd, rest, st'), Inr (fmt, pd, IdRef k # rest, st))
      \<in> inv_image (less_than <*lex*> less_than) collect_functional_rank"
    by (auto simp: collect_functional_rank_def)
qed

declare collect_objects_functional_unbounded.simps [simp del]

definition serialize_functional_unbounded ::
  "('d \<Rightarrow> string) \<Rightarrow> 'd person_data \<Rightarrow> (string \<times> 'd person_data) list \<Rightarrow> error + container" where
  "serialize_functional_unbounded isoformat root_person persons_dict =
     (case collect_objects_functional_unbounded isoformat persons_dict (f_id root_person)
             \<lparr>objects_to_save = [], visited_ids = {}\<rparr> of
        Inl e \<Rightarrow> Inl e
      | Inr st \<Rightarrow> Inr \<lparr>root_id = f_id root_person, objects = objects_to_save st\<rparr>)"

subsection \<open>\<open>deserialize_functional\<close>\<close>

text \<open>
  The first loop calls the factory for each dictionary, then sets \<open>id\<close> and \<open>friends\<close>
  (a copy of the list of identifiers) and stores the new person in \<open>persons_dict\<close>; the
  argument \<open>fromisoformat(obj_data['born_in'])\<close> is evaluated before the factory is called,
  and its \<open>ValueError\<close> ends \<open>deserialize_functional\<close>. The
  second loop runs over \<open>persons_dict.values()\<close>, the persons still stored, not over the
  dictionaries of the input. The factory is a function that returns a new dictionary on
  each call; \<open>person_factory\<close> is the one of the tests, whose identifier is overwritten.
\<close>

definition person_factory :: "string \<Rightarrow> string \<Rightarrow> 'd \<Rightarrow> 'd person_data" where
  "person_factory uuid name birth_date = create_person_with_friends uuid name birth_date"

definition new_person_data ::
  "(string \<Rightarrow> 'd option) \<Rightarrow> (string \<Rightarrow> 'd \<Rightarrow> 'd person_data) \<Rightarrow> flat \<Rightarrow>
     error + 'd person_data" where
  "new_person_data fromisoformat factory obj_data =
     (case fromisoformat (d_born_in obj_data) of
        None \<Rightarrow> Inl (ValueError (d_born_in obj_data))
      | Some born_in \<Rightarrow>
          Inr ((factory (d_name obj_data) born_in)
                \<lparr>f_id := d_id obj_data, f_friends := map IdRef (d_friends obj_data)\<rparr>))"

fun create_persons ::
  "(string \<Rightarrow> 'd option) \<Rightarrow> (string \<Rightarrow> 'd \<Rightarrow> 'd person_data) \<Rightarrow> flat list \<Rightarrow>
     'd person_data list \<Rightarrow> (string \<times> addr) list \<Rightarrow>
     error + 'd person_data list \<times> (string \<times> addr) list" where
  "create_persons fromisoformat factory [] h persons_dict = Inr (h, persons_dict)"
| "create_persons fromisoformat factory (obj_data # rest) h persons_dict =
     (case new_person_data fromisoformat factory obj_data of
        Inl e \<Rightarrow> Inl e
      | Inr person \<Rightarrow>
          create_persons fromisoformat factory rest (h @ [person])
            (AList.update (d_id obj_data) (length h) persons_dict))"

fun friend_objects :: "(string \<times> addr) list \<Rightarrow> fref list \<Rightarrow> error + fref list" where
  "friend_objects persons_dict [] = Inr []"
| "friend_objects persons_dict (ObjRef obj # rest) = Inl TypeError"
| "friend_objects persons_dict (IdRef friend_id # rest) =
     (case map_of persons_dict friend_id of
        None \<Rightarrow> Inl (KeyError friend_id)
      | Some obj \<Rightarrow>
          (case friend_objects persons_dict rest of
             Inl e \<Rightarrow> Inl e
           | Inr objs \<Rightarrow> Inr (ObjRef obj # objs)))"

fun link_persons ::
  "(string \<times> addr) list \<Rightarrow> addr list \<Rightarrow> 'd person_data list \<Rightarrow> error + 'd person_data list" where
  "link_persons persons_dict [] h = Inr h"
| "link_persons persons_dict (person # rest) h =
     (case friend_objects persons_dict (f_friends (h ! person)) of
        Inl e \<Rightarrow> Inl e
      | Inr objs \<Rightarrow>
          link_persons persons_dict rest (h[person := (h ! person)\<lparr>f_friends := objs\<rparr>]))"

definition deserialize_functional ::
  "(string \<Rightarrow> 'd option) \<Rightarrow> (string \<Rightarrow> 'd \<Rightarrow> 'd person_data) \<Rightarrow> container \<Rightarrow>
     error + addr \<times> (string \<times> addr) list \<times> 'd person_data list" where
  "deserialize_functional fromisoformat factory parsed =
     (case create_persons fromisoformat factory (objects parsed) [] [] of
        Inl e \<Rightarrow> Inl e
      | Inr (h, persons_dict) \<Rightarrow>
          (case link_persons persons_dict (map snd persons_dict) h of
             Inl e \<Rightarrow> Inl e
           | Inr h' \<Rightarrow>
               (case map_of persons_dict (root_id parsed) of
                  None \<Rightarrow> Inl (KeyError (root_id parsed))
                | Some root \<Rightarrow> Inr (root, persons_dict, h'))))"

definition all_persons :: "'d person_data list \<Rightarrow> (string \<times> 'd person_data) list" where
  "all_persons h = map (\<lambda>p. (f_id p, p)) h"

subsection \<open>The traversal of \<open>serialize_functional\<close>\<close>

definition edges_functional :: "(string \<times> 'd person_data) list \<Rightarrow> (string \<times> string) set" where
  "edges_functional pd = {(k, k'). \<exists>p. map_of pd k = Some p \<and> IdRef k' \<in> set (f_friends p)}"

definition reachable_functional :: "(string \<times> 'd person_data) list \<Rightarrow> string \<Rightarrow> string set" where
  "reachable_functional pd k = (edges_functional pd)\<^sup>* `` {k}"

definition known_ref :: "(string \<times> 'd person_data) list \<Rightarrow> fref \<Rightarrow> bool" where
  "known_ref pd x = (case x of IdRef k \<Rightarrow> k \<in> fst ` set pd | ObjRef obj \<Rightarrow> False)"

definition closed_functional :: "(string \<times> 'd person_data) list \<Rightarrow> bool" where
  "closed_functional pd = (\<forall>(k, p)\<in>set pd. \<forall>x\<in>set (f_friends p). known_ref pd x)"

definition indexed :: "(string \<times> 'd person_data) list \<Rightarrow> bool" where
  "indexed pd = (\<forall>(k, p)\<in>set pd. f_id p = k)"

definition person_at :: "(string \<times> 'd person_data) list \<Rightarrow> string \<Rightarrow> 'd person_data" where
  "person_at pd k = the (map_of pd k)"

definition collected_functional ::
  "('d \<Rightarrow> string) \<Rightarrow> (string \<times> 'd person_data) list \<Rightarrow> string set \<Rightarrow> cstate \<Rightarrow> cstate \<Rightarrow>
     string list \<Rightarrow> bool" where
  "collected_functional fmt pd S st st' ks \<longleftrightarrow>
     objects_to_save st' = objects_to_save st @ map (\<lambda>k. obj_copy fmt (person_at pd k)) ks \<and>
     visited_ids st' = visited_ids st \<union> set ks \<and>
     distinct ks \<and>
     set ks \<inter> visited_ids st = {} \<and>
     (\<forall>k\<in>set ks. k \<in> fst ` set pd \<and> (\<exists>s\<in>S. (s, k) \<in> (edges_functional pd)\<^sup>*)) \<and>
     (\<forall>k\<in>set ks. \<forall>k'. IdRef k' \<in> set (f_friends (person_at pd k)) \<longrightarrow> k' \<in> visited_ids st')"

lemma collected_functional_refl: "collected_functional fmt pd S st st []"
  by (simp add: collected_functional_def)

lemma collected_functional_visit:
  assumes p: "map_of pd k = Some p" and nv: "k \<notin> visited_ids st"
    and c: "collected_functional fmt pd {k'. IdRef k' \<in> set (f_friends p)}
              (visit_functional fmt k p st) st' ks"
    and fr: "{k'. IdRef k' \<in> set (f_friends p)} \<subseteq> visited_ids st'"
  shows "collected_functional fmt pd {k} st st' (k # ks)"
proof -
  have pa: "person_at pd k = p" using p by (simp add: person_at_def)
  have kd: "k \<in> fst ` set pd" using p by (auto dest: map_of_SomeD intro: rev_image_eqI)
  have reach: "(k, b) \<in> (edges_functional pd)\<^sup>*"
    if "s \<in> {k'. IdRef k' \<in> set (f_friends p)}" "(s, b) \<in> (edges_functional pd)\<^sup>*" for b s
  proof -
    from p that(1) have "(k, s) \<in> edges_functional pd" by (auto simp: edges_functional_def)
    then show ?thesis using that(2) by (rule converse_rtrancl_into_rtrancl)
  qed
  have v: "visited_ids (visit_functional fmt k p st) = insert k (visited_ids st)"
    and o: "objects_to_save (visit_functional fmt k p st) = objects_to_save st @ [obj_copy fmt p]"
    by (simp_all add: visit_functional_def)
  from c have c1: "objects_to_save st' = objects_to_save (visit_functional fmt k p st) @
        map (\<lambda>k. obj_copy fmt (person_at pd k)) ks"
    and c2: "visited_ids st' = visited_ids (visit_functional fmt k p st) \<union> set ks"
    and c3: "distinct ks"
    and c4: "set ks \<inter> visited_ids (visit_functional fmt k p st) = {}"
    and c5: "\<forall>k\<in>set ks. k \<in> fst ` set pd \<and>
        (\<exists>s\<in>{k'. IdRef k' \<in> set (f_friends p)}. (s, k) \<in> (edges_functional pd)\<^sup>*)"
    and c6: "\<forall>k\<in>set ks. \<forall>k'. IdRef k' \<in> set (f_friends (person_at pd k)) \<longrightarrow> k' \<in> visited_ids st'"
    unfolding collected_functional_def by blast+
  have g1: "objects_to_save st' = objects_to_save st @ map (\<lambda>k. obj_copy fmt (person_at pd k)) (k # ks)"
    using c1 o pa by simp
  have g2: "visited_ids st' = visited_ids st \<union> set (k # ks)"
    using c2 v by auto
  have g3: "distinct (k # ks)"
    using c3 c4 v by auto
  have g4: "set (k # ks) \<inter> visited_ids st = {}"
    using c4 v nv by auto
  have g5: "\<forall>b\<in>set (k # ks). b \<in> fst ` set pd \<and> (\<exists>s\<in>{k}. (s, b) \<in> (edges_functional pd)\<^sup>*)"
    using c5 kd reach by auto
  have g6: "\<forall>b\<in>set (k # ks). \<forall>k'. IdRef k' \<in> set (f_friends (person_at pd b)) \<longrightarrow> k' \<in> visited_ids st'"
    using c6 fr pa by auto
  show ?thesis unfolding collected_functional_def using g1 g2 g3 g4 g5 g6 by blast
qed

lemma collected_functional_trans:
  assumes a: "collected_functional fmt pd {f} st st1 ks1"
    and b: "collected_functional fmt pd S st1 st' ks2"
  shows "collected_functional fmt pd (insert f S) st st' (ks1 @ ks2)"
proof -
  from a have a1: "objects_to_save st1 = objects_to_save st @ map (\<lambda>k. obj_copy fmt (person_at pd k)) ks1"
    and a2: "visited_ids st1 = visited_ids st \<union> set ks1"
    and a3: "distinct ks1"
    and a4: "set ks1 \<inter> visited_ids st = {}"
    and a5: "\<forall>k\<in>set ks1. k \<in> fst ` set pd \<and> (\<exists>s\<in>{f}. (s, k) \<in> (edges_functional pd)\<^sup>*)"
    and a6: "\<forall>k\<in>set ks1. \<forall>k'. IdRef k' \<in> set (f_friends (person_at pd k)) \<longrightarrow> k' \<in> visited_ids st1"
    unfolding collected_functional_def by blast+
  from b have b1: "objects_to_save st' = objects_to_save st1 @ map (\<lambda>k. obj_copy fmt (person_at pd k)) ks2"
    and b2: "visited_ids st' = visited_ids st1 \<union> set ks2"
    and b3: "distinct ks2"
    and b4: "set ks2 \<inter> visited_ids st1 = {}"
    and b5: "\<forall>k\<in>set ks2. k \<in> fst ` set pd \<and> (\<exists>s\<in>S. (s, k) \<in> (edges_functional pd)\<^sup>*)"
    and b6: "\<forall>k\<in>set ks2. \<forall>k'. IdRef k' \<in> set (f_friends (person_at pd k)) \<longrightarrow> k' \<in> visited_ids st'"
    unfolding collected_functional_def by blast+
  have g1: "objects_to_save st' = objects_to_save st @ map (\<lambda>k. obj_copy fmt (person_at pd k)) (ks1 @ ks2)"
    using a1 b1 by simp
  have g2: "visited_ids st' = visited_ids st \<union> set (ks1 @ ks2)"
    using a2 b2 by auto
  have g3: "distinct (ks1 @ ks2)"
    using a3 b3 b4 a2 by auto
  have g4: "set (ks1 @ ks2) \<inter> visited_ids st = {}"
    using a4 b4 a2 by auto
  have g5: "\<forall>k\<in>set (ks1 @ ks2). k \<in> fst ` set pd \<and> (\<exists>s\<in>insert f S. (s, k) \<in> (edges_functional pd)\<^sup>*)"
    using a5 b5 by auto
  have g6: "\<forall>k\<in>set (ks1 @ ks2). \<forall>k'. IdRef k' \<in> set (f_friends (person_at pd k)) \<longrightarrow> k' \<in> visited_ids st'"
    using a6 b6 b2 by auto
  show ?thesis unfolding collected_functional_def using g1 g2 g3 g4 g5 g6 by blast
qed

lemma closed_functional_friends:
  "closed_functional pd \<Longrightarrow> map_of pd k = Some p \<Longrightarrow> \<forall>x\<in>set (f_friends p). known_ref pd x"
  unfolding closed_functional_def by (auto dest: map_of_SomeD)

lemma in_dom_map_of: "k \<in> fst ` set pd \<Longrightarrow> \<exists>p. map_of pd k = Some p"
  by (metis domD dom_map_of_conv_image_fst)

lemma collect_functional_post:
  "closed_functional pd \<Longrightarrow> k \<in> fst ` set pd \<Longrightarrow>
     \<exists>st' ks. collect_objects_functional_unbounded fmt pd k st = Inr st' \<and>
        collected_functional fmt pd {k} st st' ks \<and> k \<in> visited_ids st'"
  "closed_functional pd \<Longrightarrow> \<forall>x\<in>set fs. known_ref pd x \<Longrightarrow>
     \<exists>st' ks. collect_friends_functional_unbounded fmt pd fs st = Inr st' \<and>
        collected_functional fmt pd {k'. IdRef k' \<in> set fs} st st' ks \<and>
        {k'. IdRef k' \<in> set fs} \<subseteq> visited_ids st'"
proof (induction fmt pd k st and fmt pd fs st
    rule: collect_objects_functional_unbounded_collect_friends_functional_unbounded.induct)
  case (1 fmt pd k st)
  show ?case
  proof (cases "k \<in> visited_ids st")
    case True
    then have "collect_objects_functional_unbounded fmt pd k st = Inr st"
      by (simp add: collect_objects_functional_unbounded.simps)
    with True collected_functional_refl show ?thesis by blast
  next
    case False
    from in_dom_map_of [OF 1(3)] obtain p where p: "map_of pd k = Some p" by blast
    have fs: "\<forall>x\<in>set (f_friends p). known_ref pd x"
      using closed_functional_friends [OF 1(2) p] .
    from 1(1) [OF False p 1(2) fs]
    obtain st' ks where r: "collect_friends_functional_unbounded fmt pd (f_friends p) (visit_functional fmt k p st) = Inr st'"
      and c: "collected_functional fmt pd {k'. IdRef k' \<in> set (f_friends p)} (visit_functional fmt k p st) st' ks"
      and f: "{k'. IdRef k' \<in> set (f_friends p)} \<subseteq> visited_ids st'"
      by blast
    from False p r have "collect_objects_functional_unbounded fmt pd k st = Inr st'"
      by (simp add: collect_objects_functional_unbounded.simps)
    moreover have "collected_functional fmt pd {k} st st' (k # ks)"
      using collected_functional_visit [OF p False c f] .
    moreover from this have "k \<in> visited_ids st'"
      by (simp add: collected_functional_def)
    ultimately show ?thesis by blast
  qed
next
  case (2 fmt pd st)
  show ?case using collected_functional_refl [of fmt pd "{}" st] by auto
next
  case (3 fmt pd obj rest st)
  from 3(2) show ?case by (simp add: known_ref_def)
next
  case (4 fmt pd friend_id rest st)
  from 4(4) have fl: "friend_id \<in> fst ` set pd" and rl: "\<forall>x\<in>set rest. known_ref pd x"
    by (simp_all add: known_ref_def)
  from 4(1) [OF 4(3) fl]
  obtain st1 ks1 where r1: "collect_objects_functional_unbounded fmt pd friend_id st = Inr st1"
    and c1: "collected_functional fmt pd {friend_id} st st1 ks1" and v1: "friend_id \<in> visited_ids st1"
    by blast
  from 4(2) [OF r1 4(3) rl]
  obtain st' ks2 where r2: "collect_friends_functional_unbounded fmt pd rest st1 = Inr st'"
    and c2: "collected_functional fmt pd {k'. IdRef k' \<in> set rest} st1 st' ks2"
    and v2: "{k'. IdRef k' \<in> set rest} \<subseteq> visited_ids st'"
    by blast
  have S: "{k'. IdRef k' \<in> set (IdRef friend_id # rest)} = insert friend_id {k'. IdRef k' \<in> set rest}"
    by auto
  from r1 r2 have "collect_friends_functional_unbounded fmt pd (IdRef friend_id # rest) st = Inr st'" by simp
  moreover have "collected_functional fmt pd {k'. IdRef k' \<in> set (IdRef friend_id # rest)} st st' (ks1 @ ks2)"
    unfolding S using c1 c2 by (rule collected_functional_trans)
  moreover have "{k'. IdRef k' \<in> set (IdRef friend_id # rest)} \<subseteq> visited_ids st'"
    unfolding S using v1 v2 c2 by (auto simp: collected_functional_def)
  ultimately show ?case by blast
qed

lemma serialize_functional_keys:
  assumes cl: "closed_functional pd" and rt: "f_id root_person \<in> fst ` set pd"
  shows "\<exists>ks. serialize_functional_unbounded fmt root_person pd =
             Inr \<lparr>root_id = f_id root_person,
                  objects = map (\<lambda>k. obj_copy fmt (person_at pd k)) ks\<rparr> \<and>
           distinct ks \<and> set ks = reachable_functional pd (f_id root_person)"
proof -
  let ?r = "f_id root_person"
  from collect_functional_post(1) [OF cl rt, of fmt "\<lparr>objects_to_save = [], visited_ids = {}\<rparr>"]
  obtain st' ks where r: "collect_objects_functional_unbounded fmt pd ?r \<lparr>objects_to_save = [], visited_ids = {}\<rparr> = Inr st'"
    and c: "collected_functional fmt pd {?r} \<lparr>objects_to_save = [], visited_ids = {}\<rparr> st' ks"
    and v: "?r \<in> visited_ids st'"
    by blast
  from c have c1: "objects_to_save st' = map (\<lambda>k. obj_copy fmt (person_at pd k)) ks"
    and c2: "visited_ids st' = set ks"
    and c3: "distinct ks"
    and c5: "\<forall>k\<in>set ks. k \<in> fst ` set pd \<and> (?r, k) \<in> (edges_functional pd)\<^sup>*"
    and c6: "\<forall>k\<in>set ks. \<forall>k'. IdRef k' \<in> set (f_friends (person_at pd k)) \<longrightarrow> k' \<in> visited_ids st'"
    unfolding collected_functional_def by auto
  have s: "serialize_functional_unbounded fmt root_person pd =
      Inr \<lparr>root_id = ?r, objects = map (\<lambda>k. obj_copy fmt (person_at pd k)) ks\<rparr>"
    using r c1 by (simp add: serialize_functional_unbounded_def)
  have step: "b \<in> set ks" if "a \<in> set ks" "(a, b) \<in> edges_functional pd" for a b
    using that c6 c2 by (auto simp: edges_functional_def person_at_def)
  have "b \<in> set ks" if "(?r, b) \<in> (edges_functional pd)\<^sup>*" for b
    using that
  proof (induction rule: rtrancl_induct)
    case base
    from v c2 show ?case by simp
  next
    case (step y z)
    then show ?case using \<open>\<And>b a. a \<in> set ks \<Longrightarrow> (a, b) \<in> edges_functional pd \<Longrightarrow> b \<in> set ks\<close>
      by blast
  qed
  with c5 have "set ks = reachable_functional pd ?r"
    unfolding reachable_functional_def by auto
  with s c3 show ?thesis by blast
qed

subsection \<open>The two loops of \<open>deserialize_functional\<close>\<close>

lemma new_person_data_Inr:
  "new_person_data parse factory r = Inr person \<longleftrightarrow>
     (\<exists>d. parse (d_born_in r) = Some d \<and>
          person = (factory (d_name r) d)\<lparr>f_id := d_id r, f_friends := map IdRef (d_friends r)\<rparr>)"
  by (auto simp: new_person_data_def split: option.splits)

lemma create_persons_Cons_Inr:
  "create_persons parse factory (r # rs) h pd = Inr (h', pd') \<longleftrightarrow>
     (\<exists>person. new_person_data parse factory r = Inr person \<and>
        create_persons parse factory rs (h @ [person]) (AList.update (d_id r) (length h) pd) =
          Inr (h', pd'))"
  by (auto split: sum.splits)

lemma create_persons_heap:
  "create_persons parse factory recs h pd = Inr (h', pd') \<Longrightarrow>
     h' = h @ map (\<lambda>r. projr (new_person_data parse factory r)) recs \<and>
     (\<forall>r\<in>set recs. parse (d_born_in r) \<noteq> None)"
proof (induction recs arbitrary: h pd)
  case Nil
  then show ?case by simp
next
  case (Cons r rs)
  from Cons.prems obtain person where o: "new_person_data parse factory r = Inr person"
    and c: "create_persons parse factory rs (h @ [person]) (AList.update (d_id r) (length h) pd) =
          Inr (h', pd')"
    unfolding create_persons_Cons_Inr by blast
  from o have "parse (d_born_in r) \<noteq> None" by (auto simp: new_person_data_Inr)
  with Cons.IH [OF c] o show ?case by simp
qed

lemma create_persons_ok:
  "\<forall>r\<in>set recs. parse (d_born_in r) \<noteq> None \<Longrightarrow>
     \<exists>h' pd'. create_persons parse factory recs h pd = Inr (h', pd')"
proof (induction recs arbitrary: h pd)
  case Nil
  show ?case by simp
next
  case (Cons r rs)
  from Cons.prems obtain d where "parse (d_born_in r) = Some d" by auto
  then obtain person where "new_person_data parse factory r = Inr person"
    by (auto simp: new_person_data_Inr)
  moreover from Cons.prems have "\<forall>r\<in>set rs. parse (d_born_in r) \<noteq> None" by simp
  from Cons.IH [OF this, of "h @ [person]" "AList.update (d_id r) (length h) pd"]
  obtain h' pd' where "create_persons parse factory rs (h @ [person])
      (AList.update (d_id r) (length h) pd) = Inr (h', pd')"
    by blast
  ultimately show ?case unfolding create_persons_Cons_Inr by blast
qed

lemma create_persons_fails:
  "find (\<lambda>r. parse (d_born_in r) = None) recs = Some r \<Longrightarrow>
     create_persons parse factory recs h pd = Inl (ValueError (d_born_in r))"
proof (induction recs arbitrary: h pd)
  case Nil
  then show ?case by simp
next
  case (Cons a rs)
  show ?case
  proof (cases "parse (d_born_in a)")
    case None
    with Cons.prems show ?thesis by (simp add: new_person_data_def)
  next
    case (Some d)
    with Cons.prems have "find (\<lambda>r. parse (d_born_in r) = None) rs = Some r" by simp
    from Cons.IH [OF this] Some show ?thesis by (simp add: new_person_data_def)
  qed
qed

lemma deserialize_functional_parse_error:
  assumes "find (\<lambda>r. parse (d_born_in r) = None) recs = Some r"
  shows "deserialize_functional parse factory \<lparr>root_id = rid, objects = recs\<rparr> =
           Inl (ValueError (d_born_in r))"
  using create_persons_fails [OF assms, of factory "[]" "[]"]
  by (simp add: deserialize_functional_def)

lemma create_persons_cache:
  "create_persons parse factory recs h pd = Inr (h', pd') \<Longrightarrow>
     create_objects parse recs g (map_of pd) = Inr (g', c') \<Longrightarrow> length h = length g \<Longrightarrow>
     map_of pd' = c'"
proof (induction recs arbitrary: h g pd)
  case Nil
  then show ?case by simp
next
  case (Cons r rs)
  from Cons.prems(1) obtain person where
    1: "create_persons parse factory rs (h @ [person]) (AList.update (d_id r) (length h) pd) =
          Inr (h', pd')"
    unfolding create_persons_Cons_Inr by blast
  from Cons.prems(2) obtain obj where
    "create_objects parse rs (g @ [obj]) ((map_of pd)(d_id r \<mapsto> length g)) = Inr (g', c')"
    unfolding create_objects_Cons_Inr by blast
  with Cons.prems(3)
  have 2: "create_objects parse rs (g @ [obj]) (map_of (AList.update (d_id r) (length h) pd)) =
      Inr (g', c')"
    by (simp add: update_conv')
  from Cons.IH [OF 1 2] Cons.prems(3) show ?case by simp
qed

lemma create_persons_distinct:
  "create_persons parse factory recs h pd = Inr (h', pd') \<Longrightarrow> distinct (map fst pd) \<Longrightarrow>
     distinct (map fst pd')"
proof (induction recs arbitrary: h pd)
  case Nil
  then show ?case by simp
next
  case (Cons r rs)
  from Cons.prems(1) obtain person where
    "create_persons parse factory rs (h @ [person]) (AList.update (d_id r) (length h) pd) =
          Inr (h', pd')"
    unfolding create_persons_Cons_Inr by blast
  from Cons.IH [OF this] Cons.prems(2) show ?case by (simp add: distinct_update)
qed

lemma friend_objects_ok:
  "set ks \<subseteq> dom (map_of pd) \<Longrightarrow>
     friend_objects pd (map IdRef ks) = Inr (map (\<lambda>k. ObjRef (the (map_of pd k))) ks)"
  by (induction ks) auto

lemma friend_objects_fails:
  "\<not> set ks \<subseteq> dom (map_of pd) \<Longrightarrow>
     \<exists>k\<in>set ks. k \<notin> dom (map_of pd) \<and> friend_objects pd (map IdRef ks) = Inl (KeyError k)"
proof (induction ks)
  case Nil
  then show ?case by simp
next
  case (Cons k ks)
  show ?case
  proof (cases "map_of pd k")
    case None
    then show ?thesis by auto
  next
    case (Some a)
    with Cons.prems have "\<not> set ks \<subseteq> dom (map_of pd)" by auto
    from Cons.IH [OF this] Some show ?thesis by auto
  qed
qed

lemma link_persons_result:
  assumes "distinct as" "\<forall>a\<in>set as. a < length h"
    and "\<forall>a\<in>set as. \<exists>ks. f_friends (h ! a) = map IdRef ks \<and> set ks \<subseteq> dom (map_of pd)"
  shows "\<exists>h'. link_persons pd as h = Inr h' \<and> length h' = length h \<and>
           (\<forall>a\<in>set as. h' ! a = (h ! a)\<lparr>f_friends :=
               map (\<lambda>k. ObjRef (the (map_of pd k))) (friend_ids (f_friends (h ! a)))\<rparr>) \<and>
           (\<forall>b. b \<notin> set as \<longrightarrow> h' ! b = h ! b)"
  using assms
proof (induction as arbitrary: h)
  case Nil
  then show ?case by simp
next
  case (Cons a as)
  from Cons.prems(3) obtain ks where ks: "f_friends (h ! a) = map IdRef ks"
    "set ks \<subseteq> dom (map_of pd)" by auto
  have fi: "friend_ids (map IdRef ks) = ks" for ks by (induction ks) simp_all
  let ?objs = "map (\<lambda>k. ObjRef (the (map_of pd k))) ks"
  let ?h = "h[a := (h ! a)\<lparr>f_friends := ?objs\<rparr>]"
  from Cons.prems(1) have na: "a \<notin> set as" and d: "distinct as" by simp_all
  have same: "?h ! b = h ! b" if "b \<in> set as" for b
  proof -
    from that na have "a \<noteq> b" by auto
    then show ?thesis by simp
  qed
  have 2: "\<forall>b\<in>set as. b < length ?h" using Cons.prems(2) by simp
  have 3: "\<forall>b\<in>set as. \<exists>ks. f_friends (?h ! b) = map IdRef ks \<and> set ks \<subseteq> dom (map_of pd)"
    using Cons.prems(3) same by simp
  from Cons.IH [OF d 2 3]
  obtain h' where l: "link_persons pd as ?h = Inr h'" and len: "length h' = length ?h"
    and ch: "\<forall>b\<in>set as. h' ! b = (?h ! b)\<lparr>f_friends :=
               map (\<lambda>k. ObjRef (the (map_of pd k))) (friend_ids (f_friends (?h ! b)))\<rparr>"
    and un: "\<forall>b. b \<notin> set as \<longrightarrow> h' ! b = ?h ! b"
    by blast
  have "link_persons pd (a # as) h = Inr h'"
    using l ks by (simp add: friend_objects_ok)
  moreover have "length h' = length h" using len by simp
  moreover have "\<forall>b\<in>set (a # as). h' ! b = (h ! b)\<lparr>f_friends :=
               map (\<lambda>k. ObjRef (the (map_of pd k))) (friend_ids (f_friends (h ! b)))\<rparr>"
  proof
    fix b assume b: "b \<in> set (a # as)"
    show "h' ! b = (h ! b)\<lparr>f_friends :=
               map (\<lambda>k. ObjRef (the (map_of pd k))) (friend_ids (f_friends (h ! b)))\<rparr>"
    proof (cases "b = a")
      case True
      with un na Cons.prems(2) have "h' ! b = (h ! a)\<lparr>f_friends := ?objs\<rparr>" by simp
      with True ks(1) fi show ?thesis by simp
    next
      case False
      with b have "b \<in> set as" by simp
      with ch same show ?thesis by simp
    qed
  qed
  moreover have "\<forall>b. b \<notin> set (a # as) \<longrightarrow> h' ! b = h ! b"
    using un by auto
  ultimately show ?case by blast
qed

lemma pd_facts:
  assumes hp: "create_persons parse factory recs [] [] = Inr (h, pd)"
  shows "distinct (map fst pd)" and "distinct (map snd pd)"
    and "dom (map_of pd) = d_id ` set recs"
    and "\<And>k a. map_of pd k = Some a \<Longrightarrow> is_last recs a \<and> d_id (recs ! a) = k"
    and "\<And>i. is_last recs i \<Longrightarrow> map_of pd (d_id (recs ! i)) = Some i"
    and "set (map snd pd) = {i. is_last recs i}"
proof -
  from create_persons_heap [OF hp] have ap: "\<forall>r\<in>set recs. parse (d_born_in r) \<noteq> None"
    by simp
  from create_objects_ok [OF ap, of "[]" Map.empty]
  obtain g c where gc: "create_objects parse recs [] Map.empty = Inr (g, c)" by blast
  have c: "map_of pd = c"
    using create_persons_cache [OF hp, of "[]" g c] gc by simp
  show d: "distinct (map fst pd)"
    using create_persons_distinct [OF hp] by simp
  show "dom (map_of pd) = d_id ` set recs" unfolding c using gc by (rule cache_dom)
  show some: "\<And>k a. map_of pd k = Some a \<Longrightarrow> is_last recs a \<and> d_id (recs ! a) = k"
    unfolding c using gc by (rule cache_Some)
  show last: "\<And>i. is_last recs i \<Longrightarrow> map_of pd (d_id (recs ! i)) = Some i"
    unfolding c using gc by (rule cache_last)
  have mem: "(k, a) \<in> set pd \<longleftrightarrow> map_of pd k = Some a" for k a
    using d by simp
  have "inj_on snd (set pd)"
  proof (rule inj_onI)
    fix x y assume "x \<in> set pd" "y \<in> set pd" "snd x = snd y"
    then have "(fst x, snd x) \<in> set pd" "(fst y, snd x) \<in> set pd"
      by (metis prod.collapse)+
    then have "map_of pd (fst x) = Some (snd x)" "map_of pd (fst y) = Some (snd x)"
      using mem by blast+
    from some [OF this(1)] some [OF this(2)] have "fst x = fst y" by simp
    with \<open>snd x = snd y\<close> show "x = y" by (simp add: prod_eq_iff)
  qed
  moreover from d have "distinct pd" by (simp add: distinct_map)
  ultimately show "distinct (map snd pd)" by (simp add: distinct_map)
  show "set (map snd pd) = {i. is_last recs i}"
  proof (intro set_eqI iffI)
    fix a assume "a \<in> set (map snd pd)"
    then obtain k where "(k, a) \<in> set pd" by auto
    with mem some show "a \<in> {i. is_last recs i}" by blast
  next
    fix a assume "a \<in> {i. is_last recs i}"
    with last mem have "(d_id (recs ! a), a) \<in> set pd" by simp
    then show "a \<in> set (map snd pd)" by force
  qed
qed

lemma link_persons_fails:
  assumes "distinct as"
    and "\<forall>a\<in>set as. f_friends (h ! a) = map IdRef (ks a)"
    and "\<exists>a\<in>set as. \<not> set (ks a) \<subseteq> dom (map_of pd)"
  shows "\<exists>k. link_persons pd as h = Inl (KeyError k) \<and> k \<notin> dom (map_of pd) \<and>
           (\<exists>a\<in>set as. k \<in> set (ks a))"
  using assms
proof (induction as arbitrary: h)
  case Nil
  then show ?case by simp
next
  case (Cons a as)
  from Cons.prems(2) have fa: "f_friends (h ! a) = map IdRef (ks a)" by simp
  show ?case
  proof (cases "set (ks a) \<subseteq> dom (map_of pd)")
    case False
    from friend_objects_fails [OF False] fa show ?thesis by auto
  next
    case True
    let ?h = "h[a := (h ! a)\<lparr>f_friends := map (\<lambda>k. ObjRef (the (map_of pd k))) (ks a)\<rparr>]"
    from Cons.prems(1) have na: "a \<notin> set as" and d: "distinct as" by simp_all
    have 2: "\<forall>b\<in>set as. f_friends (?h ! b) = map IdRef (ks b)"
    proof
      fix b assume "b \<in> set as"
      with na have "a \<noteq> b" by auto
      then have "?h ! b = h ! b" by simp
      with Cons.prems(2) \<open>b \<in> set as\<close> show "f_friends (?h ! b) = map IdRef (ks b)" by simp
    qed
    from Cons.prems(3) True have 3: "\<exists>a\<in>set as. \<not> set (ks a) \<subseteq> dom (map_of pd)" by auto
    from Cons.IH [OF d 2 3] obtain k where "link_persons pd as ?h = Inl (KeyError k)"
      "k \<notin> dom (map_of pd)" "\<exists>a\<in>set as. k \<in> set (ks a)" by blast
    with fa True show ?thesis by (auto simp: friend_objects_ok)
  qed
qed

lemma new_person_data_sel:
  assumes "parse (d_born_in r) \<noteq> None"
  shows "f_id (projr (new_person_data parse factory r)) = d_id r"
    and "f_friends (projr (new_person_data parse factory r)) = map IdRef (d_friends r)"
    and "f_name (projr (new_person_data parse factory r)) =
           f_name (factory (d_name r) (the (parse (d_born_in r))))"
    and "f_born_in (projr (new_person_data parse factory r)) =
           f_born_in (factory (d_name r) (the (parse (d_born_in r))))"
  using assms by (auto simp: new_person_data_def)

lemma friend_ids_IdRef [simp]: "friend_ids (map IdRef ks) = ks"
  by (induction ks) simp_all

lemma deserialize_functional_result:
  fixes parse :: "string \<Rightarrow> 'd option" and factory :: "string \<Rightarrow> 'd \<Rightarrow> 'd person_data"
  assumes ap: "\<forall>r\<in>set recs. parse (d_born_in r) \<noteq> None"
    and ok: "\<forall>i. is_last recs i \<longrightarrow> set (d_friends (recs ! i)) \<subseteq> d_id ` set recs"
    and rt: "rid \<in> d_id ` set recs"
  shows "\<exists>root pd h'.
           deserialize_functional parse factory \<lparr>root_id = rid, objects = recs\<rparr> = Inr (root, pd, h') \<and>
           length h' = length recs \<and> map_of pd rid = Some root \<and>
           dom (map_of pd) = d_id ` set recs \<and>
           (\<forall>k a. map_of pd k = Some a \<longrightarrow> is_last recs a \<and> d_id (recs ! a) = k) \<and>
           (\<forall>i. is_last recs i \<longrightarrow> map_of pd (d_id (recs ! i)) = Some i \<and>
               h' ! i = (projr (new_person_data parse factory (recs ! i)))\<lparr>f_friends :=
                  map (\<lambda>k. ObjRef (the (map_of pd k))) (d_friends (recs ! i))\<rparr>) \<and>
           (\<forall>i<length recs. \<not> is_last recs i \<longrightarrow> h' ! i = projr (new_person_data parse factory (recs ! i)))"
proof -
  from create_persons_ok [OF ap, of factory "[]" "[]"]
  obtain h pd where hp: "create_persons parse factory recs [] [] = Inr (h, pd)" by blast
  have h: "h = map (\<lambda>r. projr (new_person_data parse factory r)) recs"
    using create_persons_heap [OF hp] by simp
  have sel: "f_id (h ! i) = d_id (recs ! i)" "f_friends (h ! i) = map IdRef (d_friends (recs ! i))"
    if "i < length recs" for i
    using that ap by (simp_all add: h new_person_data_sel)
  note pf = pd_facts [OF hp]
  have 1: "distinct (map snd pd)" by (rule pf(2))
  have 2: "\<forall>a\<in>set (map snd pd). a < length h"
    using pf(6) h by (auto simp: is_last_def)
  have 3: "\<forall>a\<in>set (map snd pd). \<exists>ks. f_friends (h ! a) = map IdRef ks \<and> set ks \<subseteq> dom (map_of pd)"
  proof
    fix a assume "a \<in> set (map snd pd)"
    with pf(6) have l: "is_last recs a" by simp
    then have "a < length recs" by (simp add: is_last_def)
    with sel(2) have "f_friends (h ! a) = map IdRef (d_friends (recs ! a))" by simp
    moreover from ok l pf(3) have "set (d_friends (recs ! a)) \<subseteq> dom (map_of pd)" by simp
    ultimately show "\<exists>ks. f_friends (h ! a) = map IdRef ks \<and> set ks \<subseteq> dom (map_of pd)" by blast
  qed
  from link_persons_result [OF 1 2 3]
  obtain h' where l: "link_persons pd (map snd pd) h = Inr h'" and len: "length h' = length h"
    and ch: "\<forall>a\<in>set (map snd pd). h' ! a = (h ! a)\<lparr>f_friends :=
               map (\<lambda>k. ObjRef (the (map_of pd k))) (friend_ids (f_friends (h ! a)))\<rparr>"
    and un: "\<forall>b. b \<notin> set (map snd pd) \<longrightarrow> h' ! b = h ! b"
    by blast
  from rt pf(3) obtain root where root: "map_of pd rid = Some root" by blast
  have "deserialize_functional parse factory \<lparr>root_id = rid, objects = recs\<rparr> = Inr (root, pd, h')"
    using hp l root by (simp add: deserialize_functional_def)
  moreover have "length h' = length recs" using len h by simp
  moreover have "\<forall>i. is_last recs i \<longrightarrow> map_of pd (d_id (recs ! i)) = Some i \<and>
               h' ! i = (projr (new_person_data parse factory (recs ! i)))\<lparr>f_friends :=
                  map (\<lambda>k. ObjRef (the (map_of pd k))) (d_friends (recs ! i))\<rparr>"
  proof (intro allI impI)
    fix i assume i: "is_last recs i"
    then have il: "i < length recs" by (simp add: is_last_def)
    from i pf(6) have "i \<in> set (map snd pd)" by simp
    with ch have "h' ! i = (h ! i)\<lparr>f_friends :=
               map (\<lambda>k. ObjRef (the (map_of pd k))) (friend_ids (f_friends (h ! i)))\<rparr>"
      by blast
    with il h sel(2) [OF il] have "h' ! i = (projr (new_person_data parse factory (recs ! i)))\<lparr>f_friends :=
                  map (\<lambda>k. ObjRef (the (map_of pd k))) (d_friends (recs ! i))\<rparr>" by simp
    with pf(5) [OF i] show "map_of pd (d_id (recs ! i)) = Some i \<and>
               h' ! i = (projr (new_person_data parse factory (recs ! i)))\<lparr>f_friends :=
                  map (\<lambda>k. ObjRef (the (map_of pd k))) (d_friends (recs ! i))\<rparr>" by simp
  qed
  moreover have "\<forall>i<length recs. \<not> is_last recs i \<longrightarrow> h' ! i = projr (new_person_data parse factory (recs ! i))"
    using un pf(6) h by simp
  ultimately show ?thesis using root pf(3) pf(4) by blast
qed

lemma deserialize_functional_dangling:
  fixes parse :: "string \<Rightarrow> 'd option" and factory :: "string \<Rightarrow> 'd \<Rightarrow> 'd person_data"
  assumes ap: "\<forall>r\<in>set recs. parse (d_born_in r) \<noteq> None"
    and dg: "\<exists>i. is_last recs i \<and> \<not> set (d_friends (recs ! i)) \<subseteq> d_id ` set recs"
  shows "\<exists>k. deserialize_functional parse factory \<lparr>root_id = rid, objects = recs\<rparr> = Inl (KeyError k) \<and>
           k \<notin> d_id ` set recs \<and> (\<exists>r\<in>set recs. k \<in> set (d_friends r))"
proof -
  from create_persons_ok [OF ap, of factory "[]" "[]"]
  obtain h pd where hp: "create_persons parse factory recs [] [] = Inr (h, pd)" by blast
  have h: "h = map (\<lambda>r. projr (new_person_data parse factory r)) recs"
    using create_persons_heap [OF hp] by simp
  have sel: "f_id (h ! i) = d_id (recs ! i)" "f_friends (h ! i) = map IdRef (d_friends (recs ! i))"
    if "i < length recs" for i
    using that ap by (simp_all add: h new_person_data_sel)
  note pf = pd_facts [OF hp]
  have 2: "\<forall>a\<in>set (map snd pd). f_friends (h ! a) = map IdRef (d_friends (recs ! a))"
    using pf(6) sel(2) by (auto simp: is_last_def)
  from dg pf(3,6) have 3: "\<exists>a\<in>set (map snd pd). \<not> set (d_friends (recs ! a)) \<subseteq> dom (map_of pd)"
    by auto
  from link_persons_fails [OF pf(2) 2 3]
  obtain k where "link_persons pd (map snd pd) h = Inl (KeyError k)" "k \<notin> dom (map_of pd)"
    "\<exists>a\<in>set (map snd pd). k \<in> set (d_friends (recs ! a))" by blast
  moreover from this(3) obtain a where a: "a \<in> set (map snd pd)" "k \<in> set (d_friends (recs ! a))"
    by blast
  moreover from a(1) pf(6) have "a < length recs" by (simp add: is_last_def)
  with a(2) have "\<exists>r\<in>set recs. k \<in> set (d_friends r)"
    using nth_mem by blast
  ultimately show ?thesis using hp pf(3) by (auto simp: deserialize_functional_def)
qed

lemma deserialize_functional_no_root:
  fixes parse :: "string \<Rightarrow> 'd option" and factory :: "string \<Rightarrow> 'd \<Rightarrow> 'd person_data"
  assumes ap: "\<forall>r\<in>set recs. parse (d_born_in r) \<noteq> None"
    and ok: "\<forall>i. is_last recs i \<longrightarrow> set (d_friends (recs ! i)) \<subseteq> d_id ` set recs"
    and rt: "rid \<notin> d_id ` set recs"
  shows "deserialize_functional parse factory \<lparr>root_id = rid, objects = recs\<rparr> = Inl (KeyError rid)"
proof -
  from create_persons_ok [OF ap, of factory "[]" "[]"]
  obtain h pd where hp: "create_persons parse factory recs [] [] = Inr (h, pd)" by blast
  have h: "h = map (\<lambda>r. projr (new_person_data parse factory r)) recs"
    using create_persons_heap [OF hp] by simp
  have sel: "f_id (h ! i) = d_id (recs ! i)" "f_friends (h ! i) = map IdRef (d_friends (recs ! i))"
    if "i < length recs" for i
    using that ap by (simp_all add: h new_person_data_sel)
  note pf = pd_facts [OF hp]
  have 2: "\<forall>a\<in>set (map snd pd). a < length h"
    using pf(6) h by (auto simp: is_last_def)
  have 3: "\<forall>a\<in>set (map snd pd). \<exists>ks. f_friends (h ! a) = map IdRef ks \<and> set ks \<subseteq> dom (map_of pd)"
  proof
    fix a assume "a \<in> set (map snd pd)"
    with pf(6) have l: "is_last recs a" by simp
    then have "a < length recs" by (simp add: is_last_def)
    with sel(2) have "f_friends (h ! a) = map IdRef (d_friends (recs ! a))" by simp
    moreover from ok l pf(3) have "set (d_friends (recs ! a)) \<subseteq> dom (map_of pd)" by simp
    ultimately show "\<exists>ks. f_friends (h ! a) = map IdRef ks \<and> set ks \<subseteq> dom (map_of pd)" by blast
  qed
  from link_persons_result [OF pf(2) 2 3]
  obtain h' where l: "link_persons pd (map snd pd) h = Inr h'" by blast
  from rt pf(3) have "map_of pd rid = None" by blast
  with hp l show ?thesis by (simp add: deserialize_functional_def)
qed

subsection \<open>\<open>serialize_functional\<close>, then \<open>deserialize_functional\<close>\<close>

definition ref_id :: "'d person_data list \<Rightarrow> fref \<Rightarrow> string" where
  "ref_id h x = (case x of IdRef k \<Rightarrow> k | ObjRef obj \<Rightarrow> f_id (h ! obj))"

lemma obj_copy_sel [simp]:
  "d_id (obj_copy fmt p) = f_id p"
  "d_name (obj_copy fmt p) = f_name p"
  "d_born_in (obj_copy fmt p) = fmt (f_born_in p)"
  "d_friends (obj_copy fmt p) = friend_ids (f_friends p)"
  by (simp_all add: obj_copy_def)

lemma all_persons_facts:
  assumes w: "wf_functional h"
  shows "closed_functional (all_persons h)" and "indexed (all_persons h)"
    and "fst ` set (all_persons h) = f_id ` set h"
    and "\<And>a. a < length h \<Longrightarrow> map_of (all_persons h) (f_id (h ! a)) = Some (h ! a)"
    and "\<And>k p. map_of (all_persons h) k = Some p \<Longrightarrow> p \<in> set h \<and> f_id p = k"
proof -
  show i: "fst ` set (all_persons h) = f_id ` set h" by (force simp: all_persons_def)
  show "indexed (all_persons h)" by (auto simp: indexed_def all_persons_def)
  from w have "\<forall>p\<in>set h. \<forall>x\<in>set (f_friends p). \<exists>q\<in>set h. x = IdRef (f_id q)"
    by (simp add: wf_functional_def)
  then show "closed_functional (all_persons h)"
    unfolding closed_functional_def known_ref_def i by (fastforce simp: all_persons_def)
  have d: "distinct (map fst (all_persons h))"
    using w by (simp add: wf_functional_def all_persons_def comp_def)
  show "map_of (all_persons h) (f_id (h ! a)) = Some (h ! a)" if "a < length h" for a
  proof -
    from that have "(f_id (h ! a), h ! a) \<in> set (all_persons h)" by (simp add: all_persons_def)
    with d show ?thesis by simp
  qed
  show "p \<in> set h \<and> f_id p = k" if "map_of (all_persons h) k = Some p" for k p
    using map_of_SomeD [OF that] by (auto simp: all_persons_def)
qed

lemma friend_ids_known:
  "\<forall>x\<in>set xs. known_ref pd x \<Longrightarrow> map IdRef (friend_ids xs) = xs"
proof (induction xs)
  case Nil
  then show ?case by simp
next
  case (Cons x xs)
  then show ?case by (cases x) (simp_all add: known_ref_def)
qed

lemma roundtrip_functional:
  fixes parse :: "string \<Rightarrow> 'd option" and factory :: "string \<Rightarrow> 'd \<Rightarrow> 'd person_data"
  assumes w: "wf_functional h" and rt: "root < length h" and inv: "\<forall>d. parse (fmt d) = Some d"
    and fac: "\<forall>n b. f_name (factory n b) = n \<and> f_born_in (factory n b) = b"
  shows "\<exists>c root' pd' h'.
           serialize_functional_unbounded fmt (h ! root) (all_persons h) = Inr c \<and>
           deserialize_functional parse factory c = Inr (root', pd', h') \<and>
           root' < length h' \<and> map_of pd' (f_id (h ! root)) = Some root' \<and>
           f_id (h' ! root') = f_id (h ! root) \<and> f_name (h' ! root') = f_name (h ! root) \<and>
           f_born_in (h' ! root') = f_born_in (h ! root) \<and>
           (\<forall>a<length h. f_id (h ! a) \<in> reachable_functional (all_persons h) (f_id (h ! root)) \<longrightarrow>
              (\<exists>a'<length h'. map_of pd' (f_id (h ! a)) = Some a' \<and>
                 f_id (h' ! a') = f_id (h ! a) \<and> f_name (h' ! a') = f_name (h ! a) \<and>
                 f_born_in (h' ! a') = f_born_in (h ! a) \<and>
                 map (ref_id h') (f_friends (h' ! a')) = map (ref_id h) (f_friends (h ! a))))"
proof -
  let ?pd = "all_persons h"
  let ?rid = "f_id (h ! root)"
  note ap = all_persons_facts [OF w]
  from rt ap(3) have rin: "?rid \<in> fst ` set ?pd" by simp
  from serialize_functional_keys [OF ap(1) rin, of fmt]
  obtain ks where s: "serialize_functional_unbounded fmt (h ! root) ?pd =
        Inr \<lparr>root_id = ?rid, objects = map (\<lambda>k. obj_copy fmt (person_at ?pd k)) ks\<rparr>"
    and dk: "distinct ks" and sk: "set ks = reachable_functional ?pd ?rid"
    by blast
  define recs where "recs = map (\<lambda>k. obj_copy fmt (person_at ?pd k)) ks"
  have key: "\<exists>a<length h. f_id (h ! a) = k \<and> person_at ?pd k = h ! a" if "k \<in> set ks" for k
  proof -
    have "(?rid, k) \<in> (edges_functional ?pd)\<^sup>*"
      using that sk by (simp add: reachable_functional_def)
    then have "k \<in> fst ` set ?pd"
    proof (cases rule: rtranclE)
      case base
      with rin show ?thesis by simp
    next
      case (step y)
      then obtain p where p: "map_of ?pd y = Some p" "IdRef k \<in> set (f_friends p)"
        by (auto simp: edges_functional_def)
      from closed_functional_friends [OF ap(1) p(1)] p(2) show ?thesis
        by (auto simp: known_ref_def)
    qed
    with ap(3) obtain a where "a < length h" "f_id (h ! a) = k" by (auto simp: in_set_conv_nth)
    with ap(4) [OF this(1)] show ?thesis by (auto simp: person_at_def)
  qed
  have ids: "map d_id recs = ks"
  proof (rule nth_equalityI)
    show "length (map d_id recs) = length ks" by (simp add: recs_def)
  next
    fix i assume "i < length (map d_id recs)"
    then have i: "i < length ks" by (simp add: recs_def)
    with key [of "ks ! i"] show "map d_id recs ! i = ks ! i" by (auto simp: recs_def)
  qed
  have set_ids: "d_id ` set recs = set ks" using ids by (metis list.set_map)
  have friends_closed: "set (d_friends r) \<subseteq> d_id ` set recs" if "r \<in> set recs" for r
  proof
    fix k' assume k': "k' \<in> set (d_friends r)"
    from that obtain k where k: "k \<in> set ks" "r = obj_copy fmt (person_at ?pd k)"
      by (auto simp: recs_def)
    from key [OF k(1)] obtain a where a: "a < length h" "f_id (h ! a) = k" "person_at ?pd k = h ! a"
      by blast
    have kn: "\<forall>x\<in>set (f_friends (h ! a)). known_ref ?pd x"
      using closed_functional_friends [OF ap(1) ap(4) [OF a(1)]] .
    from k' k(2) a(3) have "k' \<in> set (friend_ids (f_friends (h ! a)))" by simp
    then have "IdRef k' \<in> set (map IdRef (friend_ids (f_friends (h ! a))))" by simp
    then have "IdRef k' \<in> set (f_friends (h ! a))" using friend_ids_known [OF kn] by simp
    with ap(4) [OF a(1)] a(2) have "(k, k') \<in> edges_functional ?pd"
      by (auto simp: edges_functional_def)
    with k(1) sk have "k' \<in> set ks"
      unfolding reachable_functional_def by (auto intro: rtrancl_into_rtrancl)
    with set_ids show "k' \<in> d_id ` set recs" by simp
  qed
  have dist: "distinct (map d_id recs)" using ids dk by simp
  have il: "is_last recs i" if "i < length recs" for i
    using is_last_distinct [OF dist that] .
  have ok: "\<forall>i. is_last recs i \<longrightarrow> set (d_friends (recs ! i)) \<subseteq> d_id ` set recs"
    using friends_closed by (auto simp: is_last_def)
  have "?rid \<in> set ks" using sk by (simp add: reachable_functional_def)
  with set_ids have rr: "?rid \<in> d_id ` set recs" by simp
  have ap': "\<forall>r\<in>set recs. parse (d_born_in r) \<noteq> None"
    using inv by (auto simp: recs_def)
  have pn: "parse (d_born_in (recs ! i)) \<noteq> None" if "i < length recs" for i
    using that ap' by simp
  from deserialize_functional_result [OF ap' ok rr, of factory]
  obtain root' pd' h' where
    de: "deserialize_functional parse factory \<lparr>root_id = ?rid, objects = recs\<rparr> = Inr (root', pd', h')"
    and len: "length h' = length recs" and mr: "map_of pd' ?rid = Some root'"
    and dom: "dom (map_of pd') = d_id ` set recs"
    and some: "\<And>k a. map_of pd' k = Some a \<Longrightarrow> is_last recs a \<and> d_id (recs ! a) = k"
    and last: "\<And>i. is_last recs i \<Longrightarrow> map_of pd' (d_id (recs ! i)) = Some i \<and>
               h' ! i = (projr (new_person_data parse factory (recs ! i)))\<lparr>f_friends :=
                  map (\<lambda>k. ObjRef (the (map_of pd' k))) (d_friends (recs ! i))\<rparr>"
    by blast
  have node: "\<exists>a'<length h'. map_of pd' (f_id (h ! a)) = Some a' \<and>
      f_id (h' ! a') = f_id (h ! a) \<and> f_name (h' ! a') = f_name (h ! a) \<and>
      f_born_in (h' ! a') = f_born_in (h ! a) \<and>
      map (ref_id h') (f_friends (h' ! a')) = map (ref_id h) (f_friends (h ! a))"
    if a: "a < length h" and ain: "f_id (h ! a) \<in> set ks" for a
  proof -
    from ain obtain i where i: "i < length ks" "ks ! i = f_id (h ! a)"
      by (auto simp: in_set_conv_nth)
    then have ir: "i < length recs" by (simp add: recs_def)
    from key [OF ain] a w have pa: "person_at ?pd (f_id (h ! a)) = h ! a"
      using ap(4) [OF a] by (simp add: person_at_def)
    have ri: "recs ! i = obj_copy fmt (h ! a)" using i pa by (simp add: recs_def)
    from last [OF il [OF ir]] ri
    have m: "map_of pd' (f_id (h ! a)) = Some i"
      and hi: "h' ! i = (projr (new_person_data parse factory (obj_copy fmt (h ! a))))\<lparr>f_friends :=
         map (\<lambda>k. ObjRef (the (map_of pd' k))) (friend_ids (f_friends (h ! a)))\<rparr>"
      by simp_all
    have kn: "\<forall>x\<in>set (f_friends (h ! a)). known_ref ?pd x"
      using closed_functional_friends [OF ap(1) ap(4) [OF a]] .
    have res: "ref_id h' (ObjRef (the (map_of pd' k))) = k" if "k \<in> d_id ` set recs" for k
    proof -
      from that dom obtain b where b: "map_of pd' k = Some b" by blast
      from some [OF b] have bl: "is_last recs b" and bk: "d_id (recs ! b) = k" by simp_all
      from bl have "b < length recs" by (simp add: is_last_def)
      with last [OF bl] pn [of b] have "f_id (h' ! b) = d_id (recs ! b)"
        by (simp add: new_person_data_sel)
      with b bk show ?thesis by (simp add: ref_id_def)
    qed
    from ir have "recs ! i \<in> set recs" by simp
    from friends_closed [OF this]
    have sub: "set (friend_ids (f_friends (h ! a))) \<subseteq> d_id ` set recs"
      using ri by simp
    have "map (ref_id h') (f_friends (h' ! i)) = friend_ids (f_friends (h ! a))"
      unfolding hi using sub res by (simp add: comp_def map_idI subset_iff)
    moreover have "map (ref_id h) (f_friends (h ! a)) = friend_ids (f_friends (h ! a))"
    proof -
      have "map (ref_id h) (map IdRef (friend_ids (f_friends (h ! a)))) = friend_ids (f_friends (h ! a))"
        by (simp add: comp_def ref_id_def)
      then show ?thesis using friend_ids_known [OF kn] by simp
    qed
    ultimately have "map (ref_id h') (f_friends (h' ! i)) = map (ref_id h) (f_friends (h ! a))"
      by simp
    moreover from hi fac inv have "f_id (h' ! i) = f_id (h ! a)" "f_name (h' ! i) = f_name (h ! a)"
      "f_born_in (h' ! i) = f_born_in (h ! a)" by (simp_all add: new_person_data_sel)
    ultimately show ?thesis using m ir len by auto
  qed
  from node [OF rt \<open>?rid \<in> set ks\<close>] mr
  have "root' < length h' \<and> f_id (h' ! root') = ?rid \<and> f_name (h' ! root') = f_name (h ! root) \<and>
      f_born_in (h' ! root') = f_born_in (h ! root)" by auto
  with s de mr node sk show ?thesis unfolding recs_def by auto
qed

section \<open>What a rebuilt graph holds\<close>

text \<open>
  The result of deserialisation, read by identifier: for each identifier in the mapping, the
  identifier, name and birth date of its node and the identifiers of its friends, in
  order. Two results with the same view are the same graph up to the identity of the
  objects.
\<close>

definition node_content :: "'d heap \<Rightarrow> addr \<Rightarrow> string \<times> string \<times> 'd \<times> string list" where
  "node_content h a = (p_id (h ! a), p_name (h ! a), p_born_in (h ! a), map (id_at h) (p_friends (h ! a)))"

definition graph_view ::
  "'d heap \<Rightarrow> (string \<rightharpoonup> addr) \<Rightarrow> string \<rightharpoonup> string \<times> string \<times> 'd \<times> string list" where
  "graph_view h obj_cache = (\<lambda>k. map_option (node_content h) (obj_cache k))"

definition node_content_functional ::
  "'d person_data list \<Rightarrow> addr \<Rightarrow> string \<times> string \<times> 'd \<times> string list" where
  "node_content_functional g a =
     (f_id (g ! a), f_name (g ! a), f_born_in (g ! a), map (ref_id g) (f_friends (g ! a)))"

definition graph_view_functional ::
  "'d person_data list \<Rightarrow> (string \<times> addr) list \<Rightarrow> string \<rightharpoonup> string \<times> string \<times> 'd \<times> string list" where
  "graph_view_functional g persons_dict =
     (\<lambda>k. map_option (node_content_functional g) (map_of persons_dict k))"

lemma map_of_records:
  assumes "distinct (map d_id recs)" "i < length recs"
  shows "map_of (map (\<lambda>r. (d_id r, f r)) recs) (d_id (recs ! i)) = Some (f (recs ! i))"
proof -
  have "distinct (map fst (map (\<lambda>r. (d_id r, f r)) recs))"
    using assms(1) by (simp add: comp_def)
  moreover have "(d_id (recs ! i), f (recs ! i)) \<in> set (map (\<lambda>r. (d_id r, f r)) recs)"
    using assms(2) by auto
  ultimately show ?thesis by simp
qed

lemma map_of_records_None:
  "k \<notin> d_id ` set recs \<Longrightarrow> map_of (map (\<lambda>r. (d_id r, f r)) recs) k = None"
  by (simp add: map_of_eq_None_iff image_image)

lemma map_of_records_perm:
  assumes "distinct (map d_id recs)" "mset recs' = mset recs"
  shows "map_of (map (\<lambda>r. (d_id r, f r)) recs') = map_of (map (\<lambda>r. (d_id r, f r)) recs)"
proof -
  from assms(2) have "mset (map d_id recs') = mset (map d_id recs)" by simp
  with assms(1) have "distinct (map d_id recs')" by (metis mset_eq_imp_distinct_iff)
  moreover from assms(2) have "set recs' = set recs" by (rule mset_eq_setD)
  ultimately show ?thesis using assms(1)
    by (intro map_of_inject_set [THEN iffD2]) (simp_all add: comp_def)
qed

lemma deserialize_dangling:
  assumes ap: "\<forall>r\<in>set recs. parse (d_born_in r) \<noteq> None"
    and dg: "\<exists>r\<in>set recs. \<not> set (d_friends r) \<subseteq> d_id ` set recs"
  shows "\<exists>k. deserialize parse recs = Inl (KeyError k) \<and> rebuild parse recs = Inl (KeyError k) \<and>
           k \<notin> d_id ` set recs \<and> (\<exists>r\<in>set recs. k \<in> set (d_friends r))"
proof -
  from create_objects_ok [OF ap, of "[]" Map.empty]
  obtain h c where hc: "create_objects parse recs [] Map.empty = Inr (h, c)" by blast
  have dom: "dom c = d_id ` set recs" using hc by (rule cache_dom)
  then have 1: "\<forall>r\<in>set recs. d_id r \<in> dom c" by simp
  from dg dom have 2: "\<exists>r\<in>set recs. \<not> set (d_friends r) \<subseteq> dom c" by simp
  from link_objects_fails [OF 1 2, of h]
  obtain k where "link_objects recs c h = Inl (KeyError k)" "k \<notin> dom c"
    "\<exists>r\<in>set recs. k \<in> set (d_friends r)" by blast
  with hc dom show ?thesis by (auto simp: deserialize_def rebuild_def)
qed

lemma deserialize_result:
  assumes ap: "\<forall>r\<in>set recs. parse (d_born_in r) \<noteq> None"
    and ne: "recs \<noteq> []" and ok: "\<forall>r\<in>set recs. set (d_friends r) \<subseteq> d_id ` set recs"
  shows "\<exists>h' c root. rebuild parse recs = Inr (h', c) \<and> deserialize parse recs = Inr (h', root) \<and>
           c (d_id (hd recs)) = Some root \<and> length h' = length recs \<and>
           (\<forall>i. is_last recs i \<longrightarrow> c (d_id (recs ! i)) = Some i \<and>
               p_id (h' ! i) = d_id (recs ! i) \<and> p_name (h' ! i) = d_name (recs ! i) \<and>
               p_born_in (h' ! i) = the (parse (d_born_in (recs ! i))) \<and>
               map (id_at h') (p_friends (h' ! i)) = d_friends (recs ! i)) \<and>
           (\<forall>i<length recs. \<not> is_last recs i \<longrightarrow>
               c (d_id (recs ! i)) \<noteq> Some i \<and> p_friends (h' ! i) = [])"
proof -
  from rebuild_result [OF ap ok]
  obtain h' c where r: "rebuild parse recs = Inr (h', c)" and len: "length h' = length recs"
    and dom: "dom c = d_id ` set recs"
    and some: "\<And>k a. c k = Some a \<Longrightarrow> is_last recs a \<and> d_id (recs ! a) = k"
    and fields: "\<And>i. i < length recs \<Longrightarrow> p_id (h' ! i) = d_id (recs ! i) \<and>
        p_name (h' ! i) = d_name (recs ! i) \<and> p_born_in (h' ! i) = the (parse (d_born_in (recs ! i)))"
    and last: "\<And>i. is_last recs i \<Longrightarrow> c (d_id (recs ! i)) = Some i \<and>
        p_friends (h' ! i) = map (\<lambda>k. the (c k)) (d_friends (recs ! i))"
    and nolast: "\<And>i. i < length recs \<Longrightarrow> \<not> is_last recs i \<Longrightarrow> p_friends (h' ! i) = []"
    by blast
  have res: "id_at h' (the (c k)) = k" if "k \<in> d_id ` set recs" for k
  proof -
    from that dom obtain a where a: "c k = Some a" by blast
    from some [OF a] have "a < length recs" "d_id (recs ! a) = k" by (simp_all add: is_last_def)
    with fields [of a] a show ?thesis by (simp add: id_at_def)
  qed
  have good: "c (d_id (recs ! i)) = Some i \<and>
      p_id (h' ! i) = d_id (recs ! i) \<and> p_name (h' ! i) = d_name (recs ! i) \<and>
      p_born_in (h' ! i) = the (parse (d_born_in (recs ! i))) \<and>
      map (id_at h') (p_friends (h' ! i)) = d_friends (recs ! i)" if "is_last recs i" for i
  proof -
    from that have il: "i < length recs" by (simp add: is_last_def)
    with ok have sub: "set (d_friends (recs ! i)) \<subseteq> d_id ` set recs" by auto
    have "map (id_at h') (p_friends (h' ! i)) = d_friends (recs ! i)"
      using last [OF that] sub res by (simp add: map_idI subset_iff)
    with last [OF that] fields [OF il] show ?thesis by simp
  qed
  have bad: "c (d_id (recs ! i)) \<noteq> Some i \<and> p_friends (h' ! i) = []"
    if "i < length recs" "\<not> is_last recs i" for i
    using that some nolast by blast
  from ne obtain r0 rs where rr: "recs = r0 # rs" by (cases recs) auto
  then have "d_id r0 \<in> dom c" using dom by simp
  then obtain root where root: "c (d_id r0) = Some root" by blast
  with r rr have "deserialize parse recs = Inr (h', root)"
    by (simp add: deserialize_def lookup_def)
  with r root rr len good bad show ?thesis by auto
qed

lemma graph_view_records:
  assumes ap: "\<forall>r\<in>set recs. parse (d_born_in r) \<noteq> None"
    and d: "distinct (map d_id recs)"
    and ok: "\<forall>r\<in>set recs. set (d_friends r) \<subseteq> d_id ` set recs"
    and r: "rebuild parse recs = Inr (h', c)"
  shows "graph_view h' c =
           map_of (map (\<lambda>r. (d_id r, (d_id r, d_name r, the (parse (d_born_in r)), d_friends r))) recs)"
proof (rule ext)
  fix k
  let ?f = "\<lambda>r. (d_id r, d_name r, the (parse (d_born_in r)), d_friends r)"
  show "graph_view h' c k = map_of (map (\<lambda>r. (d_id r, ?f r)) recs) k"
  proof (cases "recs = []")
    case True
    with r show ?thesis by (auto simp: rebuild_def graph_view_def)
  next
    case False
    from deserialize_result [OF ap False ok] r
    have last: "\<And>i. is_last recs i \<Longrightarrow> c (d_id (recs ! i)) = Some i \<and>
               p_id (h' ! i) = d_id (recs ! i) \<and> p_name (h' ! i) = d_name (recs ! i) \<and>
               p_born_in (h' ! i) = the (parse (d_born_in (recs ! i))) \<and>
               map (id_at h') (p_friends (h' ! i)) = d_friends (recs ! i)"
      by auto
    from rebuild_result [OF ap ok] r have dom: "dom c = d_id ` set recs" by auto
    show ?thesis
    proof (cases "k \<in> d_id ` set recs")
      case True
      then obtain i where i: "i < length recs" "d_id (recs ! i) = k" by (auto simp: in_set_conv_nth)
      from last [OF is_last_distinct [OF d i(1)]] i(2)
      have "graph_view h' c k = Some (?f (recs ! i))" by (simp add: graph_view_def node_content_def)
      with map_of_records [OF d i(1), of ?f] i(2) show ?thesis by simp
    next
      case False
      with dom have "c k = None" by blast
      with map_of_records_None [OF False, of ?f] show ?thesis by (simp add: graph_view_def)
    qed
  qed
qed

lemma graph_view_functional_records:
  fixes parse :: "string \<Rightarrow> 'd option" and factory :: "string \<Rightarrow> 'd \<Rightarrow> 'd person_data"
  assumes ap: "\<forall>r\<in>set recs. parse (d_born_in r) \<noteq> None"
    and d: "distinct (map d_id recs)"
    and ok: "\<forall>r\<in>set recs. set (d_friends r) \<subseteq> d_id ` set recs"
    and rt: "rid \<in> d_id ` set recs"
  shows "\<exists>root pd g. deserialize_functional parse factory \<lparr>root_id = rid, objects = recs\<rparr> =
             Inr (root, pd, g) \<and> root < length g \<and> f_id (g ! root) = rid \<and>
           graph_view_functional g pd =
             map_of (map (\<lambda>r. (d_id r, (d_id r, f_name (factory (d_name r) (the (parse (d_born_in r)))),
                f_born_in (factory (d_name r) (the (parse (d_born_in r)))), d_friends r))) recs)"
proof -
  let ?f = "\<lambda>r. (d_id r, f_name (factory (d_name r) (the (parse (d_born_in r)))),
                f_born_in (factory (d_name r) (the (parse (d_born_in r)))), d_friends r)"
  have ok': "\<forall>i. is_last recs i \<longrightarrow> set (d_friends (recs ! i)) \<subseteq> d_id ` set recs"
    using ok by (auto simp: is_last_def)
  from deserialize_functional_result [OF ap ok' rt, of factory]
  obtain root pd g where
    de: "deserialize_functional parse factory \<lparr>root_id = rid, objects = recs\<rparr> = Inr (root, pd, g)"
    and len: "length g = length recs" and mr: "map_of pd rid = Some root"
    and dom: "dom (map_of pd) = d_id ` set recs"
    and some: "\<And>k a. map_of pd k = Some a \<Longrightarrow> is_last recs a \<and> d_id (recs ! a) = k"
    and last: "\<And>i. is_last recs i \<Longrightarrow> map_of pd (d_id (recs ! i)) = Some i \<and>
               g ! i = (projr (new_person_data parse factory (recs ! i)))\<lparr>f_friends :=
                  map (\<lambda>k. ObjRef (the (map_of pd k))) (d_friends (recs ! i))\<rparr>"
    by blast
  have res: "ref_id g (ObjRef (the (map_of pd k))) = k" if "k \<in> d_id ` set recs" for k
  proof -
    from that dom obtain b where b: "map_of pd k = Some b" by blast
    from some [OF b] have bl: "is_last recs b" and bk: "d_id (recs ! b) = k" by simp_all
    from bl have "b < length recs" by (simp add: is_last_def)
    with ap have "parse (d_born_in (recs ! b)) \<noteq> None" by simp
    with last [OF bl] have "f_id (g ! b) = d_id (recs ! b)"
      by (simp add: new_person_data_sel)
    with b bk show ?thesis by (simp add: ref_id_def)
  qed
  have nc: "node_content_functional g i = ?f (recs ! i)" if "i < length recs" for i
  proof -
    from ok that have sub: "set (d_friends (recs ! i)) \<subseteq> d_id ` set recs" by auto
    from last [OF is_last_distinct [OF d that]]
    have gi: "g ! i = (projr (new_person_data parse factory (recs ! i)))\<lparr>f_friends :=
                  map (\<lambda>k. ObjRef (the (map_of pd k))) (d_friends (recs ! i))\<rparr>" by simp
    have "map (ref_id g) (f_friends (g ! i)) = d_friends (recs ! i)"
      unfolding gi using sub res by (simp add: comp_def map_idI subset_iff)
    moreover from ap that have "parse (d_born_in (recs ! i)) \<noteq> None" by simp
    ultimately show ?thesis unfolding node_content_functional_def using gi
      by (simp add: new_person_data_sel)
  qed
  have "graph_view_functional g pd k = map_of (map (\<lambda>r. (d_id r, ?f r)) recs) k" for k
  proof (cases "k \<in> d_id ` set recs")
    case True
    then obtain i where i: "i < length recs" "d_id (recs ! i) = k" by (auto simp: in_set_conv_nth)
    from last [OF is_last_distinct [OF d i(1)]] i(2) nc [OF i(1)]
    have "graph_view_functional g pd k = Some (?f (recs ! i))"
      by (simp add: graph_view_functional_def)
    with map_of_records [OF d i(1), of ?f] i(2) show ?thesis by simp
  next
    case False
    with dom have "map_of pd k = None" by blast
    with map_of_records_None [OF False, of ?f] show ?thesis by (simp add: graph_view_functional_def)
  qed
  then have gv: "graph_view_functional g pd = map_of (map (\<lambda>r. (d_id r, ?f r)) recs)" by (rule ext)
  from some [OF mr] have "root < length recs" "d_id (recs ! root) = rid" by (simp_all add: is_last_def)
  with nc [of root] have "f_id (g ! root) = rid" by (simp add: node_content_functional_def)
  with de gv \<open>root < length recs\<close> len show ?thesis by auto
qed

lemma rebuild_Inr:
  assumes "rebuild parse recs = Inr (h', c)"
  shows "\<forall>r\<in>set recs. parse (d_born_in r) \<noteq> None"
    and "\<forall>r\<in>set recs. set (d_friends r) \<subseteq> d_id ` set recs"
proof -
  show ap: "\<forall>r\<in>set recs. parse (d_born_in r) \<noteq> None"
  proof (rule ccontr)
    assume "\<not> (\<forall>r\<in>set recs. parse (d_born_in r) \<noteq> None)"
    from unparsed_first [OF this] deserialize_parse_error(1) [of parse recs] assms
    show False by auto
  qed
  show "\<forall>r\<in>set recs. set (d_friends r) \<subseteq> d_id ` set recs"
  proof (rule ccontr)
    assume "\<not> (\<forall>r\<in>set recs. set (d_friends r) \<subseteq> d_id ` set recs)"
    then have "\<exists>r\<in>set recs. \<not> set (d_friends r) \<subseteq> d_id ` set recs" by simp
    from deserialize_dangling [OF ap this] assms show False by auto
  qed
qed

lemma deserialize_Inr:
  assumes "deserialize parse recs = Inr (h', root)"
  shows "\<exists>c. rebuild parse recs = Inr (h', c)" and "recs \<noteq> []"
  using assms by (auto simp: deserialize_def split: sum.splits list.splits)

lemma deserialize_functional_Inr:
  assumes "deserialize_functional parse factory \<lparr>root_id = rid, objects = recs\<rparr> = Inr (root, pd, g)"
  shows "\<forall>r\<in>set recs. parse (d_born_in r) \<noteq> None"
    and "\<forall>i. is_last recs i \<longrightarrow> set (d_friends (recs ! i)) \<subseteq> d_id ` set recs"
    and "rid \<in> d_id ` set recs"
proof -
  show ap: "\<forall>r\<in>set recs. parse (d_born_in r) \<noteq> None"
  proof (rule ccontr)
    assume "\<not> (\<forall>r\<in>set recs. parse (d_born_in r) \<noteq> None)"
    from unparsed_first [OF this] deserialize_functional_parse_error [of parse recs _ factory rid]
      assms
    show False by auto
  qed
  show ok: "\<forall>i. is_last recs i \<longrightarrow> set (d_friends (recs ! i)) \<subseteq> d_id ` set recs"
  proof (rule ccontr)
    assume "\<not> (\<forall>i. is_last recs i \<longrightarrow> set (d_friends (recs ! i)) \<subseteq> d_id ` set recs)"
    then have "\<exists>i. is_last recs i \<and> \<not> set (d_friends (recs ! i)) \<subseteq> d_id ` set recs" by simp
    from deserialize_functional_dangling [OF ap this, of factory rid] assms show False by auto
  qed
  show "rid \<in> d_id ` set recs"
  proof (rule ccontr)
    assume "rid \<notin> d_id ` set recs"
    from deserialize_functional_no_root [OF ap ok this, of factory] assms show False by simp
  qed
qed

lemma reachable_functional_known:
  assumes cl: "closed_functional pd" and rt: "r \<in> fst ` set pd"
    and k: "k \<in> reachable_functional pd r"
  shows "k \<in> fst ` set pd"
proof -
  from k have "(r, k) \<in> (edges_functional pd)\<^sup>*" by (simp add: reachable_functional_def)
  then show ?thesis
  proof (cases rule: rtranclE)
    case base
    with rt show ?thesis by simp
  next
    case (step y)
    then obtain p where p: "map_of pd y = Some p" "IdRef k \<in> set (f_friends p)"
      by (auto simp: edges_functional_def)
    from closed_functional_friends [OF cl p(1)] p(2) show ?thesis
      by (auto simp: known_ref_def)
  qed
qed

lemma serialize_functional_records:
  fixes fmt :: "'d \<Rightarrow> string"
  assumes cl: "closed_functional pd" and ix: "indexed pd" and rt: "f_id root_person \<in> fst ` set pd"
  shows "\<exists>recs. serialize_functional_unbounded fmt root_person pd =
             Inr \<lparr>root_id = f_id root_person, objects = recs\<rparr> \<and>
           distinct (map d_id recs) \<and>
           (\<forall>r\<in>set recs. set (d_friends r) \<subseteq> d_id ` set recs) \<and>
           f_id root_person \<in> d_id ` set recs \<and>
           d_id ` set recs = reachable_functional pd (f_id root_person)"
proof -
  let ?rid = "f_id root_person"
  from serialize_functional_keys [OF cl rt, of fmt]
  obtain ks where s: "serialize_functional_unbounded fmt root_person pd =
        Inr \<lparr>root_id = ?rid, objects = map (\<lambda>k. obj_copy fmt (person_at pd k)) ks\<rparr>"
    and dk: "distinct ks" and sk: "set ks = reachable_functional pd ?rid"
    by blast
  define recs where "recs = map (\<lambda>k. obj_copy fmt (person_at pd k)) ks"
  have key: "map_of pd k = Some (person_at pd k) \<and> f_id (person_at pd k) = k" if "k \<in> set ks" for k
  proof -
    from that sk have "k \<in> fst ` set pd" using reachable_functional_known [OF cl rt] by simp
    from in_dom_map_of [OF this] obtain p where p: "map_of pd k = Some p" by blast
    from map_of_SomeD [OF p] ix have "f_id p = k" by (auto simp: indexed_def)
    with p show ?thesis by (simp add: person_at_def)
  qed
  have ids: "map d_id recs = ks"
  proof (rule nth_equalityI)
    show "length (map d_id recs) = length ks" by (simp add: recs_def)
  next
    fix i assume "i < length (map d_id recs)"
    then have i: "i < length ks" by (simp add: recs_def)
    with key [of "ks ! i"] show "map d_id recs ! i = ks ! i" by (simp add: recs_def)
  qed
  have set_ids: "d_id ` set recs = set ks" using ids by (metis list.set_map)
  have friends_closed: "set (d_friends r) \<subseteq> d_id ` set recs" if "r \<in> set recs" for r
  proof
    fix k' assume k': "k' \<in> set (d_friends r)"
    from that obtain k where k: "k \<in> set ks" "r = obj_copy fmt (person_at pd k)"
      by (auto simp: recs_def)
    from key [OF k(1)] have m: "map_of pd k = Some (person_at pd k)" by simp
    have kn: "\<forall>x\<in>set (f_friends (person_at pd k)). known_ref pd x"
      using closed_functional_friends [OF cl m] .
    from k' k(2) have "k' \<in> set (friend_ids (f_friends (person_at pd k)))" by simp
    then have "IdRef k' \<in> set (map IdRef (friend_ids (f_friends (person_at pd k))))" by simp
    then have "IdRef k' \<in> set (f_friends (person_at pd k))" using friend_ids_known [OF kn] by simp
    with m have "(k, k') \<in> edges_functional pd" by (auto simp: edges_functional_def)
    with k(1) sk have "k' \<in> set ks"
      unfolding reachable_functional_def by (auto intro: rtrancl_into_rtrancl)
    with set_ids show "k' \<in> d_id ` set recs" by simp
  qed
  have "?rid \<in> set ks" using sk by (simp add: reachable_functional_def)
  with s ids dk set_ids sk friends_closed show ?thesis unfolding recs_def [symmetric] by auto
qed


section \<open>The recursion limit\<close>

text \<open>
  With enough frames \<open>collect_objects\<close> returns what the recursion without the limit
  computes, and it never fails in another way than that recursion does, but for
  \<open>RecursionError\<close>. A call needs a frame even when it returns at once because the
  person is marked, so a traversal that marks \<open>n\<close> persons along one path needs \<open>n + 1\<close>
  frames; more frames than there are persons to reach are always enough.
\<close>

lemma collect_objects_pos:
  "0 < frames \<Longrightarrow> collect_objects frames fmt h p st =
     (if length h \<le> p then None
      else if get_id (h ! p) \<in> visited_ids st then Some (Inr st)
      else collect_friends (frames - 1) fmt h (get_friends (h ! p)) (visit fmt h p st))"
  by (cases frames) simp_all

lemma collect_objects_unbounded_eq:
  "collect_objects frames fmt h p st = Some (Inl RecursionError) \<or>
     collect_objects frames fmt h p st = map_option Inr (collect_objects_unbounded fmt h p st)"
  "collect_friends frames fmt h fs st = Some (Inl RecursionError) \<or>
     collect_friends frames fmt h fs st = map_option Inr (collect_friends_unbounded fmt h fs st)"
proof (induction frames fmt h p st and frames fmt h fs st rule: collect_objects_collect_friends.induct)
  case (1 fmt h p st)
  show ?case by simp
next
  case (2 frames fmt h p st)
  then show ?case by (auto simp: collect_objects_unbounded.simps)
next
  case (3 frames fmt h st)
  show ?case by simp
next
  case (4 frames fmt h friend rest st)
  show ?case
  proof (cases "collect_objects frames fmt h friend st = Some (Inl RecursionError)")
    case True
    then show ?thesis by simp
  next
    case False
    with 4(1) have e: "collect_objects frames fmt h friend st =
        map_option Inr (collect_objects_unbounded fmt h friend st)" by simp
    show ?thesis
    proof (cases "collect_objects_unbounded fmt h friend st")
      case None
      with e show ?thesis by simp
    next
      case (Some st1)
      with e have r: "collect_objects frames fmt h friend st = Some (Inr st1)" by simp
      from 4(2) [OF r refl] r Some show ?thesis by simp
    qed
  qed
qed

lemma reachable_bounded:
  assumes "closed h" "root < length h"
  shows "reachable h root \<subseteq> {..<length h}"
proof
  fix a assume "a \<in> reachable h root"
  then have "(root, a) \<in> (edges h)\<^sup>*" by (simp add: reachable_def)
  then show "a \<in> {..<length h}"
  proof (induction rule: rtrancl_induct)
    case base
    from assms(2) show ?case by simp
  next
    case (step y z)
    then have "y < length h" "z \<in> set (p_friends (h ! y))" by (simp_all add: edges_def)
    with assms(1) show ?case by (auto simp: closed_def)
  qed
qed

lemma reachable_friend:
  "p < length h \<Longrightarrow> f \<in> set (p_friends (h ! p)) \<Longrightarrow> reachable h f \<subseteq> reachable h p"
  unfolding reachable_def
  by (auto simp: edges_def intro: converse_rtrancl_into_rtrancl)

definition pending :: "'d heap \<Rightarrow> addr \<Rightarrow> cstate \<Rightarrow> nat" where
  "pending h p st = card (id_at h ` reachable h p - visited_ids st)"

lemma pending_mono:
  assumes "closed h" "p < length h" "visited_ids st \<subseteq> visited_ids st'"
  shows "pending h p st' \<le> pending h p st"
proof -
  have "finite (reachable h p)"
    using reachable_bounded [OF assms(1,2)] by (rule finite_subset) simp
  then show ?thesis unfolding pending_def using assms(3) by (intro card_mono) auto
qed

lemma pending_friend:
  assumes cl: "closed h" and p: "p < length h" and nv: "id_at h p \<notin> visited_ids st"
    and f: "f \<in> set (p_friends (h ! p))"
  shows "pending h f (visit fmt h p st) < pending h p st"
proof -
  have fin: "finite (id_at h ` reachable h p - visited_ids st)"
    using reachable_bounded [OF cl p] by (auto intro: finite_subset)
  have "id_at h ` reachable h f - visited_ids (visit fmt h p st) \<subseteq>
      id_at h ` reachable h p - visited_ids st - {id_at h p}"
    using reachable_friend [OF p f] by (auto simp: visit_def get_id_def id_at_def)
  moreover have "id_at h p \<in> id_at h ` reachable h p - visited_ids st"
    using nv reachable_root [of p h] by blast
  ultimately have "id_at h ` reachable h f - visited_ids (visit fmt h p st) \<subset>
      id_at h ` reachable h p - visited_ids st" by blast
  with fin show ?thesis unfolding pending_def by (rule psubset_card_mono)
qed

lemma collect_objects_frames:
  "closed h \<Longrightarrow> p < length h \<Longrightarrow> pending h p st < frames \<Longrightarrow>
     \<exists>st'. collect_objects frames fmt h p st = Some (Inr st')"
  "closed h \<Longrightarrow> \<forall>f\<in>set fs. f < length h \<and> pending h f st < frames \<Longrightarrow>
     \<exists>st'. collect_friends frames fmt h fs st = Some (Inr st')"
proof (induction frames fmt h p st and frames fmt h fs st rule: collect_objects_collect_friends.induct)
  case (1 fmt h p st)
  then show ?case by simp
next
  case (2 frames fmt h p st)
  show ?case
  proof (cases "get_id (h ! p) \<in> visited_ids st")
    case True
    with 2(3) show ?thesis by simp
  next
    case False
    then have nv: "id_at h p \<notin> visited_ids st" by (simp add: get_id_def id_at_def)
    have "\<forall>f\<in>set (get_friends (h ! p)). f < length h \<and> pending h f (visit fmt h p st) < frames"
    proof
      fix f assume f: "f \<in> set (get_friends (h ! p))"
      then have f': "f \<in> set (p_friends (h ! p))" by (simp add: get_friends_def)
      with 2(2,3) have "f < length h" by (auto simp: closed_def)
      moreover from pending_friend [OF 2(2,3) nv f', of fmt] 2(4)
      have "pending h f (visit fmt h p st) < frames" by simp
      ultimately show "f < length h \<and> pending h f (visit fmt h p st) < frames" by simp
    qed
    from 2(1) [OF _ False 2(2) this] 2(3) False show ?thesis by simp
  qed
next
  case (3 frames fmt h st)
  show ?case by simp
next
  case (4 frames fmt h friend rest st)
  from 4(4) have fl: "friend < length h" and fp: "pending h friend st < frames" by simp_all
  from 4(1) [OF 4(3) fl fp] obtain st1 where r: "collect_objects frames fmt h friend st = Some (Inr st1)"
    by blast
  with collect_objects_unbounded_eq(1) [of frames fmt h friend st]
  have u: "collect_objects_unbounded fmt h friend st = Some st1"
    by (cases "collect_objects_unbounded fmt h friend st") auto
  from collect_post(1) [OF 4(3) fl, of fmt st] u
  obtain as where "collected fmt h {friend} st st1 as" by auto
  then have m: "visited_ids st \<subseteq> visited_ids st1" by (auto simp: collected_def)
  have "\<forall>f\<in>set rest. f < length h \<and> pending h f st1 < frames"
  proof
    fix f assume f: "f \<in> set rest"
    with 4(4) have l: "f < length h" and "pending h f st < frames" by simp_all
    with pending_mono [OF 4(3) l m] show "f < length h \<and> pending h f st1 < frames" by simp
  qed
  from 4(2) [OF r refl 4(3) this] r show ?case by simp
qed

lemma serialize_unbounded_eq:
  "serialize frames fmt h root = Some (Inl RecursionError) \<or>
   serialize frames fmt h root = map_option Inr (serialize_unbounded fmt h root)"
  using collect_objects_unbounded_eq(1) [of frames fmt h root "\<lparr>objects_to_save = [], visited_ids = {}\<rparr>"]
  by (auto simp: serialize_def serialize_unbounded_def option.map_comp comp_def)

lemma serialize_frames:
  assumes "closed h" "root < length h" "card (reachable h root) < frames"
  shows "serialize frames fmt h root = map_option Inr (serialize_unbounded fmt h root)"
proof -
  have "finite (reachable h root)"
    using reachable_bounded [OF assms(1,2)] by (rule finite_subset) simp
  then have "card (id_at h ` reachable h root) \<le> card (reachable h root)" by (rule card_image_le)
  with assms(3) have "pending h root \<lparr>objects_to_save = [], visited_ids = {}\<rparr> < frames"
    by (simp add: pending_def)
  from collect_objects_frames(1) [OF assms(1,2) this, of fmt]
  have "serialize frames fmt h root \<noteq> Some (Inl RecursionError)"
    by (auto simp: serialize_def)
  with serialize_unbounded_eq [of frames fmt h root] show ?thesis by simp
qed

subsection \<open>The functional module\<close>

lemma collect_objects_functional_pos:
  "0 < frames \<Longrightarrow> collect_objects_functional frames fmt pd k st =
     (if k \<in> visited_ids st then Inr st
      else case map_of pd k of
             None \<Rightarrow> Inl (KeyError k)
           | Some person \<Rightarrow>
               collect_friends_functional (frames - 1) fmt pd (f_friends person)
                 (visit_functional fmt k person st))"
  by (cases frames) (auto split: option.splits)

lemma collect_objects_functional_unbounded_eq:
  "collect_objects_functional frames fmt pd k st = Inl RecursionError \<or>
     collect_objects_functional frames fmt pd k st = collect_objects_functional_unbounded fmt pd k st"
  "collect_friends_functional frames fmt pd fs st = Inl RecursionError \<or>
     collect_friends_functional frames fmt pd fs st = collect_friends_functional_unbounded fmt pd fs st"
proof (induction frames fmt pd k st and frames fmt pd fs st
    rule: collect_objects_functional_collect_friends_functional.induct)
  case (1 fmt pd k st)
  show ?case by simp
next
  case (2 frames fmt pd k st)
  then show ?case by (auto simp: collect_objects_functional_unbounded.simps split: option.splits)
next
  case (3 frames fmt pd st)
  show ?case by simp
next
  case (4 frames fmt pd obj rest st)
  show ?case by simp
next
  case (5 frames fmt pd friend_id rest st)
  show ?case
  proof (cases "collect_objects_functional frames fmt pd friend_id st")
    case (Inl e)
    show ?thesis
    proof (cases "e = RecursionError")
      case True
      with Inl show ?thesis by simp
    next
      case False
      with Inl 5(1) have "collect_objects_functional_unbounded fmt pd friend_id st = Inl e" by simp
      with Inl show ?thesis by simp
    qed
  next
    case (Inr st1)
    with 5(1) have "collect_objects_functional_unbounded fmt pd friend_id st = Inr st1" by simp
    with 5(2) [OF Inr] Inr show ?thesis by simp
  qed
qed

lemma reachable_functional_bounded:
  assumes "closed_functional pd" "k \<in> fst ` set pd"
  shows "reachable_functional pd k \<subseteq> fst ` set pd"
  using reachable_functional_known [OF assms] by blast

lemma reachable_functional_friend:
  "map_of pd k = Some p \<Longrightarrow> IdRef k' \<in> set (f_friends p) \<Longrightarrow>
     reachable_functional pd k' \<subseteq> reachable_functional pd k"
  unfolding reachable_functional_def
  by (auto simp: edges_functional_def intro: converse_rtrancl_into_rtrancl)

definition pending_functional :: "(string \<times> 'd person_data) list \<Rightarrow> string \<Rightarrow> cstate \<Rightarrow> nat" where
  "pending_functional pd k st = card (reachable_functional pd k - visited_ids st)"

lemma pending_functional_mono:
  assumes "closed_functional pd" "k \<in> fst ` set pd" "visited_ids st \<subseteq> visited_ids st'"
  shows "pending_functional pd k st' \<le> pending_functional pd k st"
proof -
  have "finite (reachable_functional pd k)"
    using reachable_functional_bounded [OF assms(1,2)] by (rule finite_subset) simp
  then show ?thesis unfolding pending_functional_def using assms(3) by (intro card_mono) auto
qed

lemma pending_functional_friend:
  assumes cl: "closed_functional pd" and p: "map_of pd k = Some p" and nv: "k \<notin> visited_ids st"
    and f: "IdRef k' \<in> set (f_friends p)"
  shows "pending_functional pd k' (visit_functional fmt k p st) < pending_functional pd k st"
proof -
  from p have kd: "k \<in> fst ` set pd" by (auto dest: map_of_SomeD intro: rev_image_eqI)
  have fin: "finite (reachable_functional pd k - visited_ids st)"
    using reachable_functional_bounded [OF cl kd] by (auto intro: finite_subset)
  have "reachable_functional pd k' - visited_ids (visit_functional fmt k p st) \<subseteq>
      reachable_functional pd k - visited_ids st - {k}"
    using reachable_functional_friend [OF p f] by (auto simp: visit_functional_def)
  moreover have "k \<in> reachable_functional pd k - visited_ids st"
    using nv by (simp add: reachable_functional_def)
  ultimately have "reachable_functional pd k' - visited_ids (visit_functional fmt k p st) \<subset>
      reachable_functional pd k - visited_ids st" by blast
  with fin show ?thesis unfolding pending_functional_def by (rule psubset_card_mono)
qed

lemma collect_objects_functional_frames:
  "closed_functional pd \<Longrightarrow> k \<in> fst ` set pd \<Longrightarrow> pending_functional pd k st < frames \<Longrightarrow>
     \<exists>st'. collect_objects_functional frames fmt pd k st = Inr st'"
  "closed_functional pd \<Longrightarrow>
     \<forall>x\<in>set fs. \<exists>k. x = IdRef k \<and> k \<in> fst ` set pd \<and> pending_functional pd k st < frames \<Longrightarrow>
     \<exists>st'. collect_friends_functional frames fmt pd fs st = Inr st'"
proof (induction frames fmt pd k st and frames fmt pd fs st
    rule: collect_objects_functional_collect_friends_functional.induct)
  case (1 fmt pd k st)
  then show ?case by simp
next
  case (2 frames fmt pd k st)
  show ?case
  proof (cases "k \<in> visited_ids st")
    case True
    then show ?thesis by simp
  next
    case False
    from in_dom_map_of [OF 2(3)] obtain p where p: "map_of pd k = Some p" by blast
    have "\<forall>x\<in>set (f_friends p). \<exists>k'. x = IdRef k' \<and> k' \<in> fst ` set pd \<and>
        pending_functional pd k' (visit_functional fmt k p st) < frames"
    proof
      fix x assume x: "x \<in> set (f_friends p)"
      with closed_functional_friends [OF 2(2) p] have "known_ref pd x" by blast
      then obtain k' where k': "x = IdRef k'" "k' \<in> fst ` set pd"
        by (cases x) (simp_all add: known_ref_def)
      from pending_functional_friend [OF 2(2) p False, of k' fmt] x k'(1) 2(4)
      have "pending_functional pd k' (visit_functional fmt k p st) < frames" by simp
      with k' show "\<exists>k'. x = IdRef k' \<and> k' \<in> fst ` set pd \<and>
        pending_functional pd k' (visit_functional fmt k p st) < frames" by blast
    qed
    from 2(1) [OF False p 2(2) this] False p show ?thesis by simp
  qed
next
  case (3 frames fmt pd st)
  show ?case by simp
next
  case (4 frames fmt pd obj rest st)
  then show ?case by simp
next
  case (5 frames fmt pd friend_id rest st)
  from 5(4) have fl: "friend_id \<in> fst ` set pd" and fp: "pending_functional pd friend_id st < frames"
    by simp_all
  from 5(1) [OF 5(3) fl fp] obtain st1
    where r: "collect_objects_functional frames fmt pd friend_id st = Inr st1" by blast
  with collect_objects_functional_unbounded_eq(1) [of frames fmt pd friend_id st]
  have u: "collect_objects_functional_unbounded fmt pd friend_id st = Inr st1" by auto
  from collect_functional_post(1) [OF 5(3) fl, of fmt st] u
  obtain ks where "collected_functional fmt pd {friend_id} st st1 ks" by auto
  then have m: "visited_ids st \<subseteq> visited_ids st1" by (auto simp: collected_functional_def)
  have "\<forall>x\<in>set rest. \<exists>k. x = IdRef k \<and> k \<in> fst ` set pd \<and> pending_functional pd k st1 < frames"
  proof
    fix x assume "x \<in> set rest"
    with 5(4) obtain k where k: "x = IdRef k" "k \<in> fst ` set pd" "pending_functional pd k st < frames"
      by auto
    with pending_functional_mono [OF 5(3) k(2) m]
    show "\<exists>k. x = IdRef k \<and> k \<in> fst ` set pd \<and> pending_functional pd k st1 < frames" by auto
  qed
  from 5(2) [OF r 5(3) this] r show ?case by simp
qed

lemma serialize_functional_unbounded_eq:
  "serialize_functional frames fmt root_person pd = Inl RecursionError \<or>
   serialize_functional frames fmt root_person pd = serialize_functional_unbounded fmt root_person pd"
  using collect_objects_functional_unbounded_eq(1)
    [of frames fmt pd "f_id root_person" "\<lparr>objects_to_save = [], visited_ids = {}\<rparr>"]
  by (auto simp: serialize_functional_def serialize_functional_unbounded_def)

lemma serialize_functional_frames:
  assumes "closed_functional pd" "f_id root_person \<in> fst ` set pd"
    and "card (reachable_functional pd (f_id root_person)) < frames"
  shows "serialize_functional frames fmt root_person pd =
           serialize_functional_unbounded fmt root_person pd"
proof -
  from assms(3)
  have "pending_functional pd (f_id root_person) \<lparr>objects_to_save = [], visited_ids = {}\<rparr> < frames"
    by (simp add: pending_functional_def)
  from collect_objects_functional_frames(1) [OF assms(1,2) this, of fmt]
  have "serialize_functional frames fmt root_person pd \<noteq> Inl RecursionError"
    by (auto simp: serialize_functional_def)
  with serialize_functional_unbounded_eq [of frames fmt root_person pd] show ?thesis by simp
qed

subsection \<open>What the serialisers return\<close>

lemma serialize_Inr:
  "serialize frames fmt h root = Some (Inr recs) \<Longrightarrow> serialize_unbounded fmt h root = Some recs"
  using serialize_unbounded_eq [of frames fmt h root]
  by (cases "serialize_unbounded fmt h root") auto

lemma serialize_returns:
  assumes "closed h" "root < length h"
  shows "serialize frames fmt h root = Some (Inl RecursionError) \<or>
         (\<exists>recs. serialize frames fmt h root = Some (Inr recs) \<and>
            serialize_unbounded fmt h root = Some recs)"
    and "card (reachable h root) < frames \<longrightarrow>
           serialize frames fmt h root \<noteq> Some (Inl RecursionError)"
proof -
  from preorder_root [OF assms, of fmt] obtain recs where u: "serialize_unbounded fmt h root = Some recs"
    by blast
  with serialize_unbounded_eq [of frames fmt h root]
  show "serialize frames fmt h root = Some (Inl RecursionError) \<or>
         (\<exists>recs. serialize frames fmt h root = Some (Inr recs) \<and>
            serialize_unbounded fmt h root = Some recs)" by auto
  show "card (reachable h root) < frames \<longrightarrow>
           serialize frames fmt h root \<noteq> Some (Inl RecursionError)"
    using serialize_frames [OF assms, of frames fmt] u by auto
qed

lemma serialize_functional_Inr:
  "serialize_functional frames fmt root_person pd = Inr c \<Longrightarrow>
     serialize_functional_unbounded fmt root_person pd = Inr c"
  using serialize_functional_unbounded_eq [of frames fmt root_person pd] by auto

lemma serialize_functional_returns:
  assumes "closed_functional pd" "f_id root_person \<in> fst ` set pd"
  shows "serialize_functional frames fmt root_person pd = Inl RecursionError \<or>
         (\<exists>c. serialize_functional frames fmt root_person pd = Inr c \<and>
            serialize_functional_unbounded fmt root_person pd = Inr c)"
    and "card (reachable_functional pd (f_id root_person)) < frames \<longrightarrow>
           serialize_functional frames fmt root_person pd \<noteq> Inl RecursionError"
proof -
  from serialize_functional_keys [OF assms, of fmt]
  obtain c where u: "serialize_functional_unbounded fmt root_person pd = Inr c" by blast
  with serialize_functional_unbounded_eq [of frames fmt root_person pd]
  show "serialize_functional frames fmt root_person pd = Inl RecursionError \<or>
         (\<exists>c. serialize_functional frames fmt root_person pd = Inr c \<and>
            serialize_functional_unbounded fmt root_person pd = Inr c)" by auto
  show "card (reachable_functional pd (f_id root_person)) < frames \<longrightarrow>
           serialize_functional frames fmt root_person pd \<noteq> Inl RecursionError"
    using serialize_functional_frames [OF assms, of frames fmt] u by auto
qed

lemma reachable_card:
  assumes "closed h" "root < length h"
  shows "card (reachable h root) \<le> length h"
  using card_mono [OF _ reachable_bounded [OF assms]] by simp

lemma reachable_functional_card:
  assumes "closed_functional pd" "k \<in> fst ` set pd"
  shows "card (reachable_functional pd k) \<le> length pd"
proof -
  have "card (reachable_functional pd k) \<le> card (fst ` set pd)"
    using reachable_functional_bounded [OF assms] by (intro card_mono) simp_all
  also have "\<dots> \<le> card (set pd)" by (rule card_image_le) simp
  also have "\<dots> \<le> length pd" by (rule card_length)
  finally show ?thesis .
qed

subsection \<open>A path of friends\<close>

text \<open>
  The graph a program builds with \<open>m\<close> calls of the constructor and a call
  \<open>p\<^sub>i.add_friend(p\<^sub>i\<^sub>+\<^sub>1)\<close> for each pair of neighbours: every person but the
  first and the last has two friends, the one before and the one after. The traversal from
  the first person is \<open>m\<close> calls deep when it reaches the last one, whose friend is one
  call deeper.
\<close>

definition chain_id :: "nat \<Rightarrow> string" where
  "chain_id i = replicate (Suc i) CHR ''p''"

fun chain :: "nat \<Rightarrow> string heap" where
  "chain 0 = []"
| "chain (Suc n) =
     (let h = fst (new_person (chain n) (chain_id n) ''p'' ''2000-01-01T00:00:00'')
      in if n = 0 then h else add_friend h (n - 1) n)"

definition chain_friends :: "nat \<Rightarrow> nat \<Rightarrow> addr list" where
  "chain_friends m i = (if 0 < i then [i - 1] else []) @ (if Suc i < m then [Suc i] else [])"

lemma chain_id_inj [simp]: "chain_id i = chain_id j \<longleftrightarrow> i = j"
proof
  assume "chain_id i = chain_id j"
  then have "length (chain_id i) = length (chain_id j)" by simp
  then show "i = j" by (simp add: chain_id_def)
qed simp

lemma chain_length [simp]: "length (chain m) = m"
  by (induction m) (simp_all add: Let_def new_person_def)

lemma chain_nth:
  "i < m \<Longrightarrow> chain m ! i =
     \<lparr>p_id = chain_id i, p_name = ''p'', p_born_in = ''2000-01-01T00:00:00'',
      p_friends = chain_friends m i\<rparr>"
proof (induction m arbitrary: i)
  case 0
  then show ?case by simp
next
  case (Suc n)
  let ?h = "fst (new_person (chain n) (chain_id n) ''p'' ''2000-01-01T00:00:00'')"
  have len: "length ?h = Suc n" by (simp add: new_person_def)
  have old: "?h ! j = \<lparr>p_id = chain_id j, p_name = ''p'', p_born_in = ''2000-01-01T00:00:00'',
      p_friends = chain_friends n j\<rparr>" if "j < n" for j
    using that Suc.IH [OF that] by (simp add: new_person_def nth_append)
  have new: "?h ! n = \<lparr>p_id = chain_id n, p_name = ''p'', p_born_in = ''2000-01-01T00:00:00'',
      p_friends = []\<rparr>"
    by (simp add: new_person_def nth_append Person_def)
  show ?case
  proof (cases "n = 0")
    case True
    with Suc.prems new show ?thesis by (simp add: Let_def chain_friends_def)
  next
    case False
    then have ch: "chain (Suc n) = add_friend ?h (n - 1) n" by (simp add: Let_def)
    have il: "i < length ?h" using Suc.prems len by simp
    have base: "?h ! i = \<lparr>p_id = chain_id i, p_name = ''p'', p_born_in = ''2000-01-01T00:00:00'',
        p_friends = (if i < n then chain_friends n i else [])\<rparr>"
      using old [of i] new Suc.prems by (cases "i < n") (auto simp: less_Suc_eq)
    have fields: "p_id (chain (Suc n) ! i) = chain_id i" "p_name (chain (Suc n) ! i) = ''p''"
      "p_born_in (chain (Suc n) ! i) = ''2000-01-01T00:00:00''"
      unfolding ch using add_friend_fields [OF il, of "n - 1" n] base by simp_all
    have fa: "friends_at ?h (n - 1) = chain_friends n (n - 1)" "friends_at ?h n = []"
      using old [of "n - 1"] new False by (simp_all add: friends_at_def)
    have "friends_at (chain (Suc n)) i = chain_friends (Suc n) i"
      unfolding ch friends_at_add_friend [OF il] fa
      using False Suc.prems base len
      by (auto simp: chain_friends_def friends_at_def less_Suc_eq)
    then have "p_friends (chain (Suc n) ! i) = chain_friends (Suc n) i"
      by (simp add: friends_at_def)
    with fields show ?thesis by (cases "chain (Suc n) ! i") simp
  qed
qed

lemma chain_ids: "map p_id (chain m) = map chain_id [0..<m]"
  by (rule nth_equalityI) (simp_all add: chain_nth)

lemma chain_built: "built (chain m)"
proof (induction m)
  case 0
  show ?case by (simp add: built_empty)
next
  case (Suc n)
  have "chain_id n \<notin> set (map p_id (chain n))" by (auto simp: chain_ids)
  with Suc have b: "built (fst (new_person (chain n) (chain_id n) ''p'' ''2000-01-01T00:00:00''))"
    by (rule built_new)
  show ?case
  proof (cases "n = 0")
    case True
    with b show ?thesis by (simp add: Let_def)
  next
    case False
    have "built (add_friend (fst (new_person (chain n) (chain_id n) ''p'' ''2000-01-01T00:00:00''))
        (n - 1) n)"
      using b by (rule built_friend) (simp_all add: new_person_def)
    with False show ?thesis by (simp add: Let_def)
  qed
qed

lemma chain_overflow:
  "2 \<le> m \<Longrightarrow> i < m \<Longrightarrow> frames \<le> m - i \<Longrightarrow>
     \<forall>j. chain_id j \<in> visited_ids st \<longleftrightarrow> j < i \<Longrightarrow>
     collect_objects frames fmt (chain m) i st = Some (Inl RecursionError)"
proof (induction frames arbitrary: i st)
  case 0
  show ?case by simp
next
  case (Suc frames)
  note m = Suc.prems(1) and i = Suc.prems(2) and fr = Suc.prems(3) and v = Suc.prems(4)
  let ?st = "visit fmt (chain m) i st"
  have nv: "get_id (chain m ! i) \<notin> visited_ids st"
    using v i by (simp add: get_id_def chain_nth)
  have v': "\<forall>j. chain_id j \<in> visited_ids ?st \<longleftrightarrow> j < Suc i"
    using v i by (auto simp: visit_def get_id_def chain_nth less_Suc_eq)
  have unf: "collect_objects (Suc frames) fmt (chain m) i st =
      collect_friends frames fmt (chain m) (chain_friends m i) ?st"
    using nv i by (simp add: get_friends_def chain_nth)
  have prev: "collect_objects frames fmt (chain m) (i - 1) ?st =
      (if frames = 0 then Some (Inl RecursionError) else Some (Inr ?st))" if "0 < i"
  proof (cases frames)
    case 0
    then show ?thesis by simp
  next
    case (Suc k)
    from that i have "i - 1 < m" by simp
    moreover from that v' have "get_id (chain m ! (i - 1)) \<in> visited_ids ?st"
      using i by (simp add: get_id_def chain_nth)
    ultimately show ?thesis using Suc by simp
  qed
  have nxt: "collect_objects frames fmt (chain m) (Suc i) ?st = Some (Inl RecursionError)"
    if "Suc i < m"
    using that fr by (intro Suc.IH [OF m that _ v']) simp
  show ?case
  proof (cases "0 < i")
    case False
    with m have "chain_friends m i = [Suc i]" "Suc i < m" by (simp_all add: chain_friends_def)
    with nxt unf show ?thesis by simp
  next
    case True
    show ?thesis
    proof (cases "Suc i < m")
      case True
      with \<open>0 < i\<close> have "chain_friends m i = [i - 1, Suc i]" by (simp add: chain_friends_def)
      with unf prev [OF \<open>0 < i\<close>] nxt [OF True] show ?thesis by simp
    next
      case False
      with \<open>0 < i\<close> have "chain_friends m i = [i - 1]" by (simp add: chain_friends_def)
      moreover from False i fr have "frames = 0" by simp
      ultimately show ?thesis using unf prev [OF \<open>0 < i\<close>] by simp
    qed
  qed
qed

lemma chain_serialize_overflow:
  assumes "2 \<le> m" "frames \<le> m"
  shows "serialize frames fmt (chain m) 0 = Some (Inl RecursionError)"
proof -
  from assms have "collect_objects frames fmt (chain m) 0 \<lparr>objects_to_save = [], visited_ids = {}\<rparr> =
      Some (Inl RecursionError)"
    by (intro chain_overflow) simp_all
  then show ?thesis by (simp add: serialize_def)
qed

lemma chain_edges: "Suc i < m \<Longrightarrow> (i, Suc i) \<in> edges (chain m) \<and> (Suc i, i) \<in> edges (chain m)"
  by (simp add: edges_def chain_nth chain_friends_def)

lemma chain_reachable: "reachable (chain m) 0 = (if m = 0 then {0} else {..<m})"
proof (cases "m = 0")
  case True
  have "(0, a) \<in> (edges (chain 0))\<^sup>* \<Longrightarrow> a = 0" for a
    by (induction rule: rtrancl_induct) (simp_all add: edges_def)
  with True show ?thesis by (auto simp: reachable_def)
next
  case False
  have "closed (chain m)" using built_invariants [OF chain_built] by simp
  from reachable_bounded [OF this, of 0] False have 1: "reachable (chain m) 0 \<subseteq> {..<m}" by simp
  have "i < m \<Longrightarrow> i \<in> reachable (chain m) 0" for i
  proof (induction i)
    case 0
    show ?case by (rule reachable_root)
  next
    case (Suc i)
    then have "i \<in> reachable (chain m) 0" by simp
    then show ?case using chain_edges [OF Suc.prems] by (blast intro: reachable_step)
  qed
  with 1 False show ?thesis by auto
qed


section \<open>Lists as objects: \<open>get_friends\<close>\<close>

text \<open>
  A Python list is an object, and \<open>_friends\<close> holds a reference to it: a mutation through
  one reference is seen through every other. Here the lists live in a store of their own
  and a person holds the address of its list. \<open>self._friends.copy()\<close> allocates a new list
  with the same elements; \<open>append\<close>, \<open>remove\<close> and every other mutation in place replace
  the contents found at one address; \<open>list_remove\<close> is \<open>None\<close> where \<open>list.remove\<close> raises
  \<open>ValueError\<close>, the element not being in the list. \<open>heap_of\<close> reads the memory as the heap
  of the sections above.
\<close>

type_synonym list_ref = nat

record 'd person_object =
  o_id :: string
  o_name :: string
  o_born_in :: 'd
  o_friends :: list_ref

record 'd memory =
  persons :: "'d person_object list"
  lists :: "addr list list"

definition list_copy :: "'d memory \<Rightarrow> list_ref \<Rightarrow> 'd memory \<times> list_ref" where
  "list_copy m l = (m\<lparr>lists := lists m @ [lists m ! l]\<rparr>, length (lists m))"

definition get_friends_copy :: "'d memory \<Rightarrow> addr \<Rightarrow> 'd memory \<times> list_ref" where
  "get_friends_copy m self = list_copy m (o_friends (persons m ! self))"

definition list_assign :: "'d memory \<Rightarrow> list_ref \<Rightarrow> addr list \<Rightarrow> 'd memory" where
  "list_assign m l xs = m\<lparr>lists := (lists m)[l := xs]\<rparr>"

definition list_append :: "'d memory \<Rightarrow> list_ref \<Rightarrow> addr \<Rightarrow> 'd memory" where
  "list_append m l x = list_assign m l (lists m ! l @ [x])"

definition list_remove :: "'d memory \<Rightarrow> list_ref \<Rightarrow> addr \<Rightarrow> 'd memory option" where
  "list_remove m l x =
     (if x \<in> set (lists m ! l) then Some (list_assign m l (remove1 x (lists m ! l))) else None)"

definition heap_of :: "'d memory \<Rightarrow> 'd heap" where
  "heap_of m =
     map (\<lambda>p. \<lparr>p_id = o_id p, p_name = o_name p, p_born_in = o_born_in p,
               p_friends = lists m ! o_friends p\<rparr>) (persons m)"

definition wf_memory :: "'d memory \<Rightarrow> bool" where
  "wf_memory m = (\<forall>p\<in>set (persons m). o_friends p < length (lists m))"

lemma heap_of_cong:
  assumes "persons m' = persons m"
    and "\<forall>p\<in>set (persons m). lists m' ! o_friends p = lists m ! o_friends p"
  shows "heap_of m' = heap_of m"
  using assms by (simp add: heap_of_def)

lemma get_friends_copy_result:
  assumes "get_friends_copy m self = (m', l)"
  shows "l = length (lists m)" and "persons m' = persons m"
    and "lists m' = lists m @ [lists m ! o_friends (persons m ! self)]"
  using assms by (auto simp: get_friends_copy_def list_copy_def)

lemma get_friends_copy_frame:
  assumes w: "wf_memory m" and g: "get_friends_copy m self = (m', l)"
  shows "heap_of (list_assign m' l xs) = heap_of m"
proof (rule heap_of_cong)
  note r = get_friends_copy_result [OF g]
  show "persons (list_assign m' l xs) = persons m" using r(2) by (simp add: list_assign_def)
  show "\<forall>p\<in>set (persons m). lists (list_assign m' l xs) ! o_friends p = lists m ! o_friends p"
  proof
    fix p assume "p \<in> set (persons m)"
    with w have "o_friends p < length (lists m)" by (simp add: wf_memory_def)
    then show "lists (list_assign m' l xs) ! o_friends p = lists m ! o_friends p"
      using r(1,3) by (simp add: list_assign_def nth_append)
  qed
qed


section \<open>Examples\<close>

text \<open>
  The graph of the demonstrations: Ivan, Maria and Alexey, each a friend of the two others.
  The birth dates are written as their ISO text, and \<open>isoformat\<close> is the identity there.
\<close>

definition triangle :: "string heap" where
  "triangle =
     [\<lparr>p_id = ''a'', p_name = ''Ivan'', p_born_in = ''1990-05-15T00:00:00'', p_friends = [1, 2]\<rparr>,
      \<lparr>p_id = ''b'', p_name = ''Maria'', p_born_in = ''1992-08-22T00:00:00'', p_friends = [0, 2]\<rparr>,
      \<lparr>p_id = ''c'', p_name = ''Alexey'', p_born_in = ''1988-03-10T00:00:00'', p_friends = [1, 0]\<rparr>]"

lemma triangle_closed: "closed triangle"
  by (simp add: closed_def triangle_def)

lemma triangle_unique_ids: "unique_ids triangle"
  by (simp add: unique_ids_def triangle_def)

lemma triangle_serialize:
  "serialize 1000 (\<lambda>d. d) triangle 0 =
     Some (Inr (map (\<lambda>a. to_dict (\<lambda>d. d) triangle (triangle ! a)) [0, 1, 2]))"
  by (simp add: serialize_def collect_objects_pos triangle_def visit_def get_id_def
      get_friends_def)

definition mutual_pair :: "string heap" where
  "mutual_pair =
     [\<lparr>p_id = ''a'', p_name = ''Ivan'', p_born_in = ''1990-05-15T00:00:00'', p_friends = [1]\<rparr>,
      \<lparr>p_id = ''b'', p_name = ''Maria'', p_born_in = ''1992-08-22T00:00:00'', p_friends = [0]\<rparr>]"

lemma mutual_pair_serialize:
  "serialize 1000 (\<lambda>d. d) mutual_pair 0 =
     Some (Inr (map (\<lambda>a. to_dict (\<lambda>d. d) mutual_pair (mutual_pair ! a)) [0, 1]))"
  by (simp add: serialize_def collect_objects_pos mutual_pair_def visit_def get_id_def
      get_friends_def)

lemma triangle_cycle: "(0, 1) \<in> edges triangle \<and> (1, 2) \<in> edges triangle \<and> (2, 0) \<in> edges triangle"
  by (simp add: edges_def triangle_def)

lemma triangle_preorder: "preorder triangle [0] {} = [0, 1, 2]"
  by (simp add: preorder.simps triangle_def)

definition two_persons :: "string heap" where
  "two_persons =
     [Person ''a'' ''Ivan'' ''1990-05-15T00:00:00'', Person ''b'' ''Maria'' ''1992-08-22T00:00:00'']"

definition two_persons_functional :: "string person_data list" where
  "two_persons_functional =
     [create_person_with_friends ''a'' ''Ivan'' ''1990-05-15T00:00:00'',
      create_person_with_friends ''b'' ''Maria'' ''1992-08-22T00:00:00'']"

lemma two_persons_built: "built two_persons"
proof -
  have "built (fst (new_person (fst (new_person ([] :: string heap) ''a'' ''Ivan'' ''1990-05-15T00:00:00''))
      ''b'' ''Maria'' ''1992-08-22T00:00:00''))"
    by (intro built.intros) (simp_all add: new_person_def Person_def)
  then show ?thesis by (simp add: two_persons_def new_person_def)
qed

lemma two_persons_functional_built: "built_functional two_persons_functional"
proof -
  have "built_functional (([] :: string person_data list) @
      [create_person_with_friends ''a'' ''Ivan'' ''1990-05-15T00:00:00''] @
      [create_person_with_friends ''b'' ''Maria'' ''1992-08-22T00:00:00''])"
    unfolding append_assoc [symmetric]
    by (intro built_functional.intros)
      (simp_all add: create_person_with_friends_def create_person_data_def)
  then show ?thesis by (simp add: two_persons_functional_def)
qed

definition one_person :: "string heap" where
  "one_person = [Person ''a'' ''Ivan'' ''1990-05-15T00:00:00'']"

definition one_person_functional :: "string person_data list" where
  "one_person_functional = [create_person_with_friends ''a'' ''Ivan'' ''1990-05-15T00:00:00'']"

definition triangle_functional :: "string person_data list" where
  "triangle_functional =
     add_friend_functional (add_friend_functional (add_friend_functional
       [create_person_with_friends ''a'' ''Ivan'' ''1990-05-15T00:00:00'',
        create_person_with_friends ''b'' ''Maria'' ''1992-08-22T00:00:00'',
        create_person_with_friends ''c'' ''Alexey'' ''1988-03-10T00:00:00''] 0 1) 1 2) 2 0"

lemma triangle_built: "built triangle"
proof -
  let ?d1 = "''1990-05-15T00:00:00''" and ?d2 = "''1992-08-22T00:00:00''" and ?d3 = "''1988-03-10T00:00:00''"
  let ?h1 = "fst (new_person ([] :: string heap) ''a'' ''Ivan'' ?d1)"
  let ?h2 = "fst (new_person ?h1 ''b'' ''Maria'' ?d2)"
  let ?h3 = "fst (new_person ?h2 ''c'' ''Alexey'' ?d3)"
  have 3: "?h3 = [Person ''a'' ''Ivan'' ?d1, Person ''b'' ''Maria'' ?d2, Person ''c'' ''Alexey'' ?d3]"
    by (simp add: new_person_def)
  have "built ?h3"
    by (intro built.intros) (simp_all add: new_person_def Person_def)
  then have "built (add_friend ?h3 0 1)"
    by (rule built_friend) (simp_all add: new_person_def)
  then have "built (add_friend (add_friend ?h3 0 1) 1 2)"
    by (rule built_friend) (simp_all add: new_person_def)
  then have "built (add_friend (add_friend (add_friend ?h3 0 1) 1 2) 2 0)"
    by (rule built_friend) (simp_all add: new_person_def)
  moreover have "add_friend (add_friend (add_friend ?h3 0 1) 1 2) 2 0 = triangle"
    unfolding 3 by (simp add: add_friend_unfold append_friend_def Person_def triangle_def)
  ultimately show ?thesis by simp
qed

lemma triangle_functional_built: "built_functional triangle_functional"
proof -
  let ?d1 = "''1990-05-15T00:00:00''" and ?d2 = "''1992-08-22T00:00:00''" and ?d3 = "''1988-03-10T00:00:00''"
  have "built_functional ((([] :: string person_data list) @
      [create_person_with_friends ''a'' ''Ivan'' ?d1]) @
      [create_person_with_friends ''b'' ''Maria'' ?d2] @
      [create_person_with_friends ''c'' ''Alexey'' ?d3])"
    unfolding append_assoc [symmetric]
    by (intro built_functional.intros)
      (simp_all add: create_person_with_friends_def create_person_data_def)
  then have "built_functional [create_person_with_friends ''a'' ''Ivan'' ?d1,
      create_person_with_friends ''b'' ''Maria'' ?d2, create_person_with_friends ''c'' ''Alexey'' ?d3]"
    by simp
  then have "built_functional (add_friend_functional
      [create_person_with_friends ''a'' ''Ivan'' ?d1,
      create_person_with_friends ''b'' ''Maria'' ?d2, create_person_with_friends ''c'' ''Alexey'' ?d3] 0 1)"
    by (rule built_functional_friend) simp_all
  then have "built_functional (add_friend_functional (add_friend_functional
      [create_person_with_friends ''a'' ''Ivan'' ?d1,
      create_person_with_friends ''b'' ''Maria'' ?d2, create_person_with_friends ''c'' ''Alexey'' ?d3] 0 1) 1 2)"
    by (rule built_functional_friend) simp_all
  then show ?thesis unfolding triangle_functional_def
    by (rule built_functional_friend) simp_all
qed

lemma triangle_functional_value:
  "triangle_functional =
     [\<lparr>f_id = ''a'', f_name = ''Ivan'', f_born_in = ''1990-05-15T00:00:00'',
        f_friends = [IdRef ''b'', IdRef ''c'']\<rparr>,
      \<lparr>f_id = ''b'', f_name = ''Maria'', f_born_in = ''1992-08-22T00:00:00'',
        f_friends = [IdRef ''a'', IdRef ''c'']\<rparr>,
      \<lparr>f_id = ''c'', f_name = ''Alexey'', f_born_in = ''1988-03-10T00:00:00'',
        f_friends = [IdRef ''b'', IdRef ''a'']\<rparr>]"
  by (simp add: triangle_functional_def add_friend_functional_def friends_append_def
      create_person_with_friends_def create_person_data_def)

lemma triangle_functional_closed: "closed_functional (all_persons triangle_functional)"
  by (simp add: closed_functional_def known_ref_def all_persons_def triangle_functional_value)

lemma triangle_functional_serialize:
  "serialize_functional 1000 (\<lambda>d. d) (triangle_functional ! 0) (all_persons triangle_functional) =
     Inr \<lparr>root_id = ''a'',
          objects = map (obj_copy (\<lambda>d. d)) triangle_functional\<rparr>"
  by (simp add: serialize_functional_def collect_objects_functional_pos all_persons_def
      triangle_functional_value visit_functional_def)

lemma mutual_pair_wf: "closed mutual_pair" "unique_ids mutual_pair" "0 < length mutual_pair"
  by (simp_all add: closed_def unique_ids_def mutual_pair_def)

lemma mutual_pair_cycle: "(0, 1) \<in> edges mutual_pair \<and> (1, 0) \<in> edges mutual_pair"
  by (simp add: edges_def mutual_pair_def)

lemma triangle_frames: "card (reachable triangle 0) < 1000"
  using reachable_card [OF triangle_closed, of 0] by (simp add: triangle_def)

lemma mutual_pair_frames: "card (reachable mutual_pair 0) < 1000"
  using reachable_card [OF mutual_pair_wf(1), of 0] by (simp add: mutual_pair_def)

lemma triangle_functional_frames:
  "card (reachable_functional (all_persons triangle_functional) (f_id (triangle_functional ! 0))) < 1000"
proof -
  have "f_id (triangle_functional ! 0) \<in> fst ` set (all_persons triangle_functional)"
    by (simp add: all_persons_def triangle_functional_value)
  from reachable_functional_card [OF triangle_functional_closed this] show ?thesis
    by (simp add: all_persons_def triangle_functional_value)
qed

definition pair_records :: "flat list" where
  "pair_records =
     [\<lparr>d_id = ''a'', d_name = ''Ivan'', d_born_in = ''1990-05-15T00:00:00'', d_friends = [''b'']\<rparr>,
      \<lparr>d_id = ''b'', d_name = ''Maria'', d_born_in = ''1992-08-22T00:00:00'', d_friends = [''a'']\<rparr>]"

lemma mutual_pair_records: "serialize 1000 (\<lambda>d. d) mutual_pair 0 = Some (Inr pair_records)"
  by (simp add: mutual_pair_serialize) (simp add: mutual_pair_def to_dict_def pair_records_def)

definition mutual_pair_functional :: "string person_data list" where
  "mutual_pair_functional = add_friend_functional two_persons_functional 0 1"

lemma mutual_pair_functional_value:
  "mutual_pair_functional =
     [\<lparr>f_id = ''a'', f_name = ''Ivan'', f_born_in = ''1990-05-15T00:00:00'', f_friends = [IdRef ''b'']\<rparr>,
      \<lparr>f_id = ''b'', f_name = ''Maria'', f_born_in = ''1992-08-22T00:00:00'', f_friends = [IdRef ''a'']\<rparr>]"
  by (simp add: mutual_pair_functional_def two_persons_functional_def add_friend_functional_def
      friends_append_def create_person_with_friends_def create_person_data_def)

lemma mutual_pair_functional_serialize:
  "serialize_functional 1000 (\<lambda>d. d) (mutual_pair_functional ! 0) (all_persons mutual_pair_functional) =
     Inr \<lparr>root_id = ''a'', objects = pair_records\<rparr>"
  by (simp add: serialize_functional_def collect_objects_functional_pos all_persons_def
      mutual_pair_functional_value visit_functional_def obj_copy_def pair_records_def)


text \<open>Containers no serialiser of the repository writes, but every deserialiser can be given.\<close>

definition dangling :: "flat list" where
  "dangling =
     [\<lparr>d_id = ''a'', d_name = ''Ivan'', d_born_in = ''1990-05-15T00:00:00'', d_friends = [''b'', ''zz'']\<rparr>,
      \<lparr>d_id = ''b'', d_name = ''Maria'', d_born_in = ''1992-08-22T00:00:00'', d_friends = [''a'']\<rparr>]"

definition shadowed_dangling :: container where
  "shadowed_dangling =
     \<lparr>root_id = ''a'',
      objects =
        [\<lparr>d_id = ''a'', d_name = ''Ivan'', d_born_in = ''1990-05-15T00:00:00'', d_friends = [''zz'']\<rparr>,
         \<lparr>d_id = ''a'', d_name = ''Ivan'', d_born_in = ''1990-05-15T00:00:00'', d_friends = []\<rparr>]\<rparr>"

definition duplicated :: "flat list" where
  "duplicated =
     [\<lparr>d_id = ''a'', d_name = ''Ivan'', d_born_in = ''1990-05-15T00:00:00'', d_friends = [''b'']\<rparr>,
      \<lparr>d_id = ''b'', d_name = ''Maria'', d_born_in = ''1992-08-22T00:00:00'', d_friends = [''a'']\<rparr>,
      \<lparr>d_id = ''a'', d_name = ''Alexey'', d_born_in = ''1988-03-10T00:00:00'', d_friends = []\<rparr>]"

text \<open>
  A \<open>fromisoformat\<close> that refuses one string, a container with that string as a \<open>born_in\<close>
  and with a friend identifier that no dictionary carries, and the persons that
  \<open>deserialize_functional\<close> builds from \<open>pair_records\<close>.
\<close>

definition fromisoformat_sample :: "string \<Rightarrow> string option" where
  "fromisoformat_sample s = (if s = ''not a date'' then None else Some s)"

definition undated_dangling :: "flat list" where
  "undated_dangling =
     [\<lparr>d_id = ''a'', d_name = ''Ivan'', d_born_in = ''not a date'', d_friends = [''zz'']\<rparr>]"

definition linked_pair :: "string person_data list" where
  "linked_pair =
     [\<lparr>f_id = ''a'', f_name = ''Ivan'', f_born_in = ''1990-05-15T00:00:00'', f_friends = [ObjRef 1]\<rparr>,
      \<lparr>f_id = ''b'', f_name = ''Maria'', f_born_in = ''1992-08-22T00:00:00'', f_friends = [ObjRef 0]\<rparr>]"

definition pair_memory :: "string memory" where
  "pair_memory =
     \<lparr>persons =
        [\<lparr>o_id = ''a'', o_name = ''Ivan'', o_born_in = ''1990-05-15T00:00:00'', o_friends = 0\<rparr>,
         \<lparr>o_id = ''b'', o_name = ''Maria'', o_born_in = ''1992-08-22T00:00:00'', o_friends = 1\<rparr>],
      lists = [[1], [0]]\<rparr>"

lemma pair_memory_heap: "heap_of pair_memory = mutual_pair"
  by (simp add: heap_of_def pair_memory_def mutual_pair_def)

lemma direct_access_aliases:
  "heap_of (list_append pair_memory (o_friends (persons pair_memory ! 0)) 0) \<noteq> heap_of pair_memory"
  by (simp add: heap_of_def pair_memory_def list_append_def list_assign_def)


section \<open>Round trip\<close>

text \<open>
  C1 (round trip of content), where the code departs from it. The traversal of the
  serialiser recurses once for each person on the path it follows, and the interpreter
  allows a bounded number of nested calls. The path of 1200 friends is built with the
  constructor and \<open>add_friend\<close>; with the 1000 frames of Python's default recursion limit
  its serialisation raises \<open>RecursionError\<close>, so nothing is written and nothing can be
  deserialised.
\<close>

theorem roundtrip_overflow_counterexample:
  "built (chain 1200) \<and> 0 < length (chain 1200) \<and>
   serialize 1000 (\<lambda>d. d) (chain 1200) 0 = Some (Inl RecursionError)"
proof -
  have "serialize 1000 (\<lambda>d. d) (chain 1200) 0 = Some (Inl RecursionError)"
    by (rule chain_serialize_overflow) simp_all
  with chain_built [of 1200] show ?thesis by simp
qed


text \<open>
  C1 as the code has it. For every graph built with the constructor and \<open>add_friend\<close>
  and every root, serialisation either returns or raises \<open>RecursionError\<close>, and it returns
  whenever the persons reachable from the root are fewer than the nested calls the
  interpreter still allows. Whenever it returns, deserialising its output succeeds, the
  node returned has the identifier, name and birth date of the root, and every node
  reachable from the root has a reconstructed node with its identifier, name and birth
  date whose set of friend identifiers is the original one. The identifiers of the
  reconstructed objects are pairwise distinct, so that node is the only one with its
  identifier; in the functional pair it is the one the returned dictionary holds under
  that identifier. \<open>isoformat\<close> and \<open>fromisoformat\<close> are the library's, taken with the
  property that the second undoes the first; \<open>Some\<close> is a \<open>fromisoformat\<close> that accepts
  every text, for examples whose dates are kept as their ISO text. The first conjunct is
  the encapsulated serialiser (and the direct-access one), the second the functional pair.
\<close>

theorem roundtrip_content:
  fixes isoformat :: "'d \<Rightarrow> string" and fromisoformat :: "string \<Rightarrow> 'd option"
  shows
  "(built h \<and> root < length h \<and> (\<forall>d. fromisoformat (isoformat d) = Some d) \<longrightarrow>
      (serialize frames isoformat h root = Some (Inl RecursionError) \<or>
       (\<exists>objects_data h' root'.
          serialize frames isoformat h root = Some (Inr objects_data) \<and>
          deserialize fromisoformat objects_data = Inr (h', root') \<and>
          root' < length h' \<and> unique_ids h' \<and>
          p_id (h' ! root') = p_id (h ! root) \<and> p_name (h' ! root') = p_name (h ! root) \<and>
          p_born_in (h' ! root') = p_born_in (h ! root) \<and>
          (\<forall>a\<in>reachable h root. \<exists>a'<length h'.
              p_id (h' ! a') = p_id (h ! a) \<and> p_name (h' ! a') = p_name (h ! a) \<and>
              p_born_in (h' ! a') = p_born_in (h ! a) \<and>
              set (map (id_at h') (p_friends (h' ! a'))) =
              set (map (id_at h) (p_friends (h ! a)))))) \<and>
      (card (reachable h root) < frames \<longrightarrow>
         serialize frames isoformat h root \<noteq> Some (Inl RecursionError))) \<and>
   (built_functional g \<and> person < length g \<and> (\<forall>d. fromisoformat (isoformat d) = Some d) \<longrightarrow>
      (serialize_functional frames isoformat (g ! person) (all_persons g) = Inl RecursionError \<or>
       (\<exists>parsed root' persons_dict g'.
          serialize_functional frames isoformat (g ! person) (all_persons g) = Inr parsed \<and>
          deserialize_functional fromisoformat (person_factory uuid) parsed =
            Inr (root', persons_dict, g') \<and>
          root' < length g' \<and>
          f_id (g' ! root') = f_id (g ! person) \<and> f_name (g' ! root') = f_name (g ! person) \<and>
          f_born_in (g' ! root') = f_born_in (g ! person) \<and>
          (\<forall>a<length g.
              f_id (g ! a) \<in> reachable_functional (all_persons g) (f_id (g ! person)) \<longrightarrow>
              (\<exists>a'<length g'. map_of persons_dict (f_id (g ! a)) = Some a' \<and>
                  f_id (g' ! a') = f_id (g ! a) \<and> f_name (g' ! a') = f_name (g ! a) \<and>
                  f_born_in (g' ! a') = f_born_in (g ! a) \<and>
                  set (map (ref_id g') (f_friends (g' ! a'))) =
                  set (map (ref_id g) (f_friends (g ! a))))))) \<and>
      (card (reachable_functional (all_persons g) (f_id (g ! person))) < frames \<longrightarrow>
         serialize_functional frames isoformat (g ! person) (all_persons g) \<noteq>
           Inl RecursionError))"
proof (rule conjI; rule impI)
  assume a: "built h \<and> root < length h \<and> (\<forall>d. fromisoformat (isoformat d) = Some d)"
  then have c: "closed h" "unique_ids h" "root < length h" "\<forall>d. fromisoformat (isoformat d) = Some d"
    using built_invariants [of h] by simp_all
  from roundtrip [OF c]
  obtain recs h' root' where s: "serialize_unbounded isoformat h root = Some recs"
    and d: "deserialize fromisoformat recs = Inr (h', root')"
    and rl: "root' < length h'" "unique_ids h'"
    and r: "p_id (h' ! root') = p_id (h ! root)" "p_name (h' ! root') = p_name (h ! root)"
      "p_born_in (h' ! root') = p_born_in (h ! root)"
    and n: "\<forall>a\<in>reachable h root. \<exists>a'<length h'.
              p_id (h' ! a') = p_id (h ! a) \<and> p_name (h' ! a') = p_name (h ! a) \<and>
              p_born_in (h' ! a') = p_born_in (h ! a) \<and>
              map (id_at h') (p_friends (h' ! a')) = map (id_at h) (p_friends (h ! a))"
    by blast
  from n have n': "\<forall>a\<in>reachable h root. \<exists>a'<length h'.
              p_id (h' ! a') = p_id (h ! a) \<and> p_name (h' ! a') = p_name (h ! a) \<and>
              p_born_in (h' ! a') = p_born_in (h ! a) \<and>
              set (map (id_at h') (p_friends (h' ! a'))) = set (map (id_at h) (p_friends (h ! a)))"
    by metis
  have good: "\<exists>objects_data h' root'.
          serialize frames isoformat h root = Some (Inr objects_data) \<and>
          deserialize fromisoformat objects_data = Inr (h', root') \<and>
          root' < length h' \<and> unique_ids h' \<and>
          p_id (h' ! root') = p_id (h ! root) \<and> p_name (h' ! root') = p_name (h ! root) \<and>
          p_born_in (h' ! root') = p_born_in (h ! root) \<and>
          (\<forall>a\<in>reachable h root. \<exists>a'<length h'.
              p_id (h' ! a') = p_id (h ! a) \<and> p_name (h' ! a') = p_name (h ! a) \<and>
              p_born_in (h' ! a') = p_born_in (h ! a) \<and>
              set (map (id_at h') (p_friends (h' ! a'))) =
              set (map (id_at h) (p_friends (h ! a))))"
    if "serialize frames isoformat h root = Some (Inr recs)"
    using that d rl r n' by blast
  from serialize_returns(1) [OF c(1,3), of frames isoformat] s
  have dj: "serialize frames isoformat h root = Some (Inl RecursionError) \<or>
      serialize frames isoformat h root = Some (Inr recs)" by auto
  show "(serialize frames isoformat h root = Some (Inl RecursionError) \<or>
       (\<exists>objects_data h' root'.
          serialize frames isoformat h root = Some (Inr objects_data) \<and>
          deserialize fromisoformat objects_data = Inr (h', root') \<and>
          root' < length h' \<and> unique_ids h' \<and>
          p_id (h' ! root') = p_id (h ! root) \<and> p_name (h' ! root') = p_name (h ! root) \<and>
          p_born_in (h' ! root') = p_born_in (h ! root) \<and>
          (\<forall>a\<in>reachable h root. \<exists>a'<length h'.
              p_id (h' ! a') = p_id (h ! a) \<and> p_name (h' ! a') = p_name (h ! a) \<and>
              p_born_in (h' ! a') = p_born_in (h ! a) \<and>
              set (map (id_at h') (p_friends (h' ! a'))) =
              set (map (id_at h) (p_friends (h ! a)))))) \<and>
      (card (reachable h root) < frames \<longrightarrow>
         serialize frames isoformat h root \<noteq> Some (Inl RecursionError))"
  proof (rule conjI)
    from dj show "serialize frames isoformat h root = Some (Inl RecursionError) \<or>
       (\<exists>objects_data h' root'.
          serialize frames isoformat h root = Some (Inr objects_data) \<and>
          deserialize fromisoformat objects_data = Inr (h', root') \<and>
          root' < length h' \<and> unique_ids h' \<and>
          p_id (h' ! root') = p_id (h ! root) \<and> p_name (h' ! root') = p_name (h ! root) \<and>
          p_born_in (h' ! root') = p_born_in (h ! root) \<and>
          (\<forall>a\<in>reachable h root. \<exists>a'<length h'.
              p_id (h' ! a') = p_id (h ! a) \<and> p_name (h' ! a') = p_name (h ! a) \<and>
              p_born_in (h' ! a') = p_born_in (h ! a) \<and>
              set (map (id_at h') (p_friends (h' ! a'))) =
              set (map (id_at h) (p_friends (h ! a)))))"
    proof
      assume "serialize frames isoformat h root = Some (Inl RecursionError)"
      then show ?thesis by (rule disjI1)
    next
      assume "serialize frames isoformat h root = Some (Inr recs)"
      then show ?thesis by (intro disjI2 good)
    qed
    show "card (reachable h root) < frames \<longrightarrow>
         serialize frames isoformat h root \<noteq> Some (Inl RecursionError)"
      by (rule serialize_returns(2) [OF c(1,3)])
  qed
next
  assume a: "built_functional g \<and> person < length g \<and> (\<forall>d. fromisoformat (isoformat d) = Some d)"
  then have w: "wf_functional g" and p: "person < length g"
    and i: "\<forall>d. fromisoformat (isoformat d) = Some d"
    using built_functional_wf [of g] by simp_all
  have f: "\<forall>n b. f_name (person_factory uuid n b) = n \<and> f_born_in (person_factory uuid n b) = b"
    by (simp add: person_factory_def create_person_with_friends_def create_person_data_def)
  note ap = all_persons_facts [OF w]
  from p ap(3) have rin: "f_id (g ! person) \<in> fst ` set (all_persons g)" by simp
  from roundtrip_functional [OF w p i f]
  obtain c root' pd' g' where
    s: "serialize_functional_unbounded isoformat (g ! person) (all_persons g) = Inr c"
    and d: "deserialize_functional fromisoformat (person_factory uuid) c = Inr (root', pd', g')"
    and rl: "root' < length g'"
    and r: "f_id (g' ! root') = f_id (g ! person)" "f_name (g' ! root') = f_name (g ! person)"
      "f_born_in (g' ! root') = f_born_in (g ! person)"
    and n: "\<forall>a<length g. f_id (g ! a) \<in> reachable_functional (all_persons g) (f_id (g ! person)) \<longrightarrow>
              (\<exists>a'<length g'. map_of pd' (f_id (g ! a)) = Some a' \<and>
                 f_id (g' ! a') = f_id (g ! a) \<and> f_name (g' ! a') = f_name (g ! a) \<and>
                 f_born_in (g' ! a') = f_born_in (g ! a) \<and>
                 map (ref_id g') (f_friends (g' ! a')) = map (ref_id g) (f_friends (g ! a)))"
    by blast
  from n have n': "\<forall>a<length g. f_id (g ! a) \<in> reachable_functional (all_persons g) (f_id (g ! person)) \<longrightarrow>
              (\<exists>a'<length g'. map_of pd' (f_id (g ! a)) = Some a' \<and>
                  f_id (g' ! a') = f_id (g ! a) \<and> f_name (g' ! a') = f_name (g ! a) \<and>
                  f_born_in (g' ! a') = f_born_in (g ! a) \<and>
                  set (map (ref_id g') (f_friends (g' ! a'))) =
                  set (map (ref_id g) (f_friends (g ! a))))"
    by metis
  have good: "\<exists>parsed root' persons_dict g'.
          serialize_functional frames isoformat (g ! person) (all_persons g) = Inr parsed \<and>
          deserialize_functional fromisoformat (person_factory uuid) parsed =
            Inr (root', persons_dict, g') \<and>
          root' < length g' \<and>
          f_id (g' ! root') = f_id (g ! person) \<and> f_name (g' ! root') = f_name (g ! person) \<and>
          f_born_in (g' ! root') = f_born_in (g ! person) \<and>
          (\<forall>a<length g.
              f_id (g ! a) \<in> reachable_functional (all_persons g) (f_id (g ! person)) \<longrightarrow>
              (\<exists>a'<length g'. map_of persons_dict (f_id (g ! a)) = Some a' \<and>
                  f_id (g' ! a') = f_id (g ! a) \<and> f_name (g' ! a') = f_name (g ! a) \<and>
                  f_born_in (g' ! a') = f_born_in (g ! a) \<and>
                  set (map (ref_id g') (f_friends (g' ! a'))) =
                  set (map (ref_id g) (f_friends (g ! a)))))"
    if "serialize_functional frames isoformat (g ! person) (all_persons g) = Inr c"
    using that d rl r n' by blast
  from serialize_functional_returns(1) [OF ap(1) rin, of frames isoformat] s
  have dj: "serialize_functional frames isoformat (g ! person) (all_persons g) = Inl RecursionError \<or>
      serialize_functional frames isoformat (g ! person) (all_persons g) = Inr c" by auto
  show "(serialize_functional frames isoformat (g ! person) (all_persons g) = Inl RecursionError \<or>
       (\<exists>parsed root' persons_dict g'.
          serialize_functional frames isoformat (g ! person) (all_persons g) = Inr parsed \<and>
          deserialize_functional fromisoformat (person_factory uuid) parsed =
            Inr (root', persons_dict, g') \<and>
          root' < length g' \<and>
          f_id (g' ! root') = f_id (g ! person) \<and> f_name (g' ! root') = f_name (g ! person) \<and>
          f_born_in (g' ! root') = f_born_in (g ! person) \<and>
          (\<forall>a<length g.
              f_id (g ! a) \<in> reachable_functional (all_persons g) (f_id (g ! person)) \<longrightarrow>
              (\<exists>a'<length g'. map_of persons_dict (f_id (g ! a)) = Some a' \<and>
                  f_id (g' ! a') = f_id (g ! a) \<and> f_name (g' ! a') = f_name (g ! a) \<and>
                  f_born_in (g' ! a') = f_born_in (g ! a) \<and>
                  set (map (ref_id g') (f_friends (g' ! a'))) =
                  set (map (ref_id g) (f_friends (g ! a))))))) \<and>
      (card (reachable_functional (all_persons g) (f_id (g ! person))) < frames \<longrightarrow>
         serialize_functional frames isoformat (g ! person) (all_persons g) \<noteq>
           Inl RecursionError)"
  proof (rule conjI)
    from dj show "serialize_functional frames isoformat (g ! person) (all_persons g) = Inl RecursionError \<or>
       (\<exists>parsed root' persons_dict g'.
          serialize_functional frames isoformat (g ! person) (all_persons g) = Inr parsed \<and>
          deserialize_functional fromisoformat (person_factory uuid) parsed =
            Inr (root', persons_dict, g') \<and>
          root' < length g' \<and>
          f_id (g' ! root') = f_id (g ! person) \<and> f_name (g' ! root') = f_name (g ! person) \<and>
          f_born_in (g' ! root') = f_born_in (g ! person) \<and>
          (\<forall>a<length g.
              f_id (g ! a) \<in> reachable_functional (all_persons g) (f_id (g ! person)) \<longrightarrow>
              (\<exists>a'<length g'. map_of persons_dict (f_id (g ! a)) = Some a' \<and>
                  f_id (g' ! a') = f_id (g ! a) \<and> f_name (g' ! a') = f_name (g ! a) \<and>
                  f_born_in (g' ! a') = f_born_in (g ! a) \<and>
                  set (map (ref_id g') (f_friends (g' ! a'))) =
                  set (map (ref_id g) (f_friends (g ! a))))))"
    proof
      assume "serialize_functional frames isoformat (g ! person) (all_persons g) = Inl RecursionError"
      then show ?thesis by (rule disjI1)
    next
      assume "serialize_functional frames isoformat (g ! person) (all_persons g) = Inr c"
      then show ?thesis by (intro disjI2 good)
    qed
    show "card (reachable_functional (all_persons g) (f_id (g ! person))) < frames \<longrightarrow>
         serialize_functional frames isoformat (g ! person) (all_persons g) \<noteq>
           Inl RecursionError"
      by (rule serialize_functional_returns(2) [OF ap(1) rin])
  qed
qed

theorem roundtrip_content_witness:
  "built triangle \<and> 0 < length triangle \<and> (\<forall>d :: string. Some ((\<lambda>d. d) d) = Some d) \<and>
   card (reachable triangle 0) < 1000 \<and>
   (\<exists>objects_data h' root'.
       serialize 1000 (\<lambda>d. d) triangle 0 = Some (Inr objects_data) \<and>
       deserialize Some objects_data = Inr (h', root') \<and>
       p_id (h' ! root') = ''a'' \<and> p_name (h' ! root') = ''Ivan'' \<and>
       p_born_in (h' ! root') = ''1990-05-15T00:00:00'') \<and>
   built_functional triangle_functional \<and> 0 < length triangle_functional \<and>
   card (reachable_functional (all_persons triangle_functional)
     (f_id (triangle_functional ! 0))) < 1000 \<and>
   (\<exists>parsed root' persons_dict g'.
       serialize_functional 1000 (\<lambda>d. d) (triangle_functional ! 0)
         (all_persons triangle_functional) = Inr parsed \<and>
       deserialize_functional Some (person_factory ''x'') parsed = Inr (root', persons_dict, g') \<and>
       f_id (g' ! root') = ''a'' \<and> f_name (g' ! root') = ''Ivan'' \<and>
       f_born_in (g' ! root') = ''1990-05-15T00:00:00'')"
proof -
  have l: "0 < length triangle" "0 < length triangle_functional"
    by (simp_all add: triangle_def triangle_functional_value)
  have v: "p_id (triangle ! 0) = ''a''" "p_name (triangle ! 0) = ''Ivan''"
    "p_born_in (triangle ! 0) = ''1990-05-15T00:00:00''"
    "f_id (triangle_functional ! 0) = ''a''" "f_name (triangle_functional ! 0) = ''Ivan''"
    "f_born_in (triangle_functional ! 0) = ''1990-05-15T00:00:00''"
    by (simp_all add: triangle_def triangle_functional_value)
  have i: "\<forall>d :: string. Some ((\<lambda>d. d) d) = Some d" by simp
  have h1: "built triangle \<and> 0 < length triangle \<and> (\<forall>d :: string. Some ((\<lambda>d. d) d) = Some d)"
    using triangle_built l i by blast
  have h2: "built_functional triangle_functional \<and> 0 < length triangle_functional \<and>
      (\<forall>d :: string. Some ((\<lambda>d. d) d) = Some d)"
    using triangle_functional_built l i by blast
  note t = roundtrip_content [of triangle 0 Some "\<lambda>d. d" 1000 triangle_functional 0 "''x''"]
  note t1 = t [THEN conjunct1, THEN mp, OF h1]
  from t1 [THEN conjunct2] triangle_frames
  have ne1: "serialize 1000 (\<lambda>d. d) triangle 0 \<noteq> Some (Inl RecursionError)" by simp
  from t1 [THEN conjunct1] ne1
  obtain objects_data h' root' where 1: "serialize 1000 (\<lambda>d. d) triangle 0 = Some (Inr objects_data)"
    "deserialize Some objects_data = Inr (h', root')"
    "p_id (h' ! root') = p_id (triangle ! 0)" "p_name (h' ! root') = p_name (triangle ! 0)"
    "p_born_in (h' ! root') = p_born_in (triangle ! 0)"
    by (elim disjE) (simp, blast)
  note t2 = t [THEN conjunct2, THEN mp, OF h2]
  from t2 [THEN conjunct2] triangle_functional_frames
  have ne2: "serialize_functional 1000 (\<lambda>d. d) (triangle_functional ! 0)
      (all_persons triangle_functional) \<noteq> Inl RecursionError" by simp
  from t2 [THEN conjunct1] ne2
  obtain parsed root'' persons_dict g' where 2:
    "serialize_functional 1000 (\<lambda>d. d) (triangle_functional ! 0) (all_persons triangle_functional) = Inr parsed"
    "deserialize_functional Some (person_factory ''x'') parsed = Inr (root'', persons_dict, g')"
    "f_id (g' ! root'') = f_id (triangle_functional ! 0)"
    "f_name (g' ! root'') = f_name (triangle_functional ! 0)"
    "f_born_in (g' ! root'') = f_born_in (triangle_functional ! 0)"
    by (elim disjE) (simp, blast)
  from 1 have e1: "\<exists>objects_data h' root'.
       serialize 1000 (\<lambda>d. d) triangle 0 = Some (Inr objects_data) \<and>
       deserialize Some objects_data = Inr (h', root') \<and>
       p_id (h' ! root') = ''a'' \<and> p_name (h' ! root') = ''Ivan'' \<and>
       p_born_in (h' ! root') = ''1990-05-15T00:00:00''"
    unfolding v by blast
  from 2 have e2: "\<exists>parsed root' persons_dict g'.
       serialize_functional 1000 (\<lambda>d. d) (triangle_functional ! 0)
         (all_persons triangle_functional) = Inr parsed \<and>
       deserialize_functional Some (person_factory ''x'') parsed = Inr (root', persons_dict, g') \<and>
       f_id (g' ! root') = ''a'' \<and> f_name (g' ! root') = ''Ivan'' \<and>
       f_born_in (g' ! root') = ''1990-05-15T00:00:00''"
    unfolding v by blast
  show ?thesis
    apply (intro conjI)
            apply (rule triangle_built)
           apply (rule l(1))
          apply (rule i)
         apply (rule triangle_frames)
        apply (rule e1)
       apply (rule triangle_functional_built)
      apply (rule l(2))
     apply (rule triangle_functional_frames)
    apply (rule e2)
    done
qed


section \<open>Properties of the serialiser\<close>

text \<open>
  C2 (cycle termination), where the code departs from it. Every person of the path of 1200
  friends is in a cycle of length 2 with each neighbour. With the 1000 frames of Python's
  default recursion limit the serialiser stops with \<open>RecursionError\<close>: it does not
  diverge, but there is no output sequence for the persons to be in.
\<close>

theorem serialize_overflow_counterexample:
  "closed (chain 1200) \<and> 0 < length (chain 1200) \<and>
   (0, 1) \<in> edges (chain 1200) \<and> (1, 0) \<in> edges (chain 1200) \<and>
   serialize 1000 (\<lambda>d. d) (chain 1200) 0 = Some (Inl RecursionError)"
proof -
  have "closed (chain 1200)" using built_invariants [OF chain_built] by simp
  moreover have "(0, 1) \<in> edges (chain 1200) \<and> (1, 0) \<in> edges (chain 1200)"
    using chain_edges [of 0 1200] by simp
  moreover have "serialize 1000 (\<lambda>d. d) (chain 1200) 0 = Some (Inl RecursionError)"
    by (rule chain_serialize_overflow) simp_all
  ultimately show ?thesis by simp
qed


text \<open>
  C2 as the code has it. On every heap, cyclic or not, the serialiser terminates: it
  returns its list of dictionaries or it raises \<open>RecursionError\<close>, and it returns whenever
  the persons reachable from the root are fewer than the nested calls the interpreter
  still allows. The recursion itself is well founded whatever the limit, because each
  call that goes on marks an identifier that was not marked before. In the list returned
  no identifier occurs twice, and where the identifiers of the objects are unique every
  object reachable from the root, so every object on a cycle through the root (a mutual
  pair, a triangle or longer), has exactly one dictionary in it. The direct-access
  serialiser runs the same traversal.
\<close>

theorem serialize_terminates_on_cycles:
  assumes "closed h" "root < length h"
  shows "(serialize frames fmt h root = Some (Inl RecursionError) \<or>
          (\<exists>objects. serialize frames fmt h root = Some (Inr objects) \<and>
             distinct (map d_id objects) \<and>
             (unique_ids h \<longrightarrow>
                (\<forall>a\<in>reachable h root. count_list (map d_id objects) (id_at h a) = 1)))) \<and>
         (card (reachable h root) < frames \<longrightarrow>
            serialize frames fmt h root \<noteq> Some (Inl RecursionError))"
proof -
  from preorder_root [OF assms, of fmt]
  obtain as where d: "distinct (map (id_at h) as)"
    and s: "serialize_unbounded fmt h root = Some (map (\<lambda>a. to_dict fmt h (h ! a)) as)"
    by blast
  let ?objects = "map (\<lambda>a. to_dict fmt h (h ! a)) as"
  have i: "map d_id ?objects = map (id_at h) as" by (simp add: comp_def id_at_def)
  have 1: "distinct (map d_id ?objects)" using d unfolding i .
  have 2: "\<forall>a\<in>reachable h root. count_list (map d_id ?objects) (id_at h a) = 1" if u: "unique_ids h"
  proof
    fix a assume a: "a \<in> reachable h root"
    from serialize_ids [OF assms(1) u assms(2), of fmt]
    obtain objects where "serialize_unbounded fmt h root = Some objects"
      "set (map d_id objects) = id_at h ` reachable h root" by blast
    with s have "set (map d_id ?objects) = id_at h ` reachable h root" by (simp only: option.inject)
    with a have "id_at h a \<in> set (map d_id ?objects)" by blast
    with 1 show "count_list (map d_id ?objects) (id_at h a) = 1" by (rule count_list_distinct)
  qed
  from serialize_returns(1) [OF assms, of frames fmt] s 1 2
  have "serialize frames fmt h root = Some (Inl RecursionError) \<or>
          (\<exists>objects. serialize frames fmt h root = Some (Inr objects) \<and>
             distinct (map d_id objects) \<and>
             (unique_ids h \<longrightarrow>
                (\<forall>a\<in>reachable h root. count_list (map d_id objects) (id_at h a) = 1)))"
    by auto
  with serialize_returns(2) [OF assms, of frames fmt] show ?thesis by blast
qed

theorem serialize_terminates_on_cycles_witness:
  "closed triangle \<and> 0 < length triangle \<and> unique_ids triangle \<and>
   card (reachable triangle 0) < 1000 \<and>
   (0, 1) \<in> edges triangle \<and> (1, 2) \<in> edges triangle \<and> (2, 0) \<in> edges triangle \<and>
   (\<exists>objects. serialize 1000 (\<lambda>d. d) triangle 0 = Some (Inr objects) \<and>
      count_list (map d_id objects) ''a'' = 1 \<and>
      count_list (map d_id objects) ''b'' = 1 \<and>
      count_list (map d_id objects) ''c'' = 1) \<and>
   closed mutual_pair \<and> 0 < length mutual_pair \<and> unique_ids mutual_pair \<and>
   card (reachable mutual_pair 0) < 1000 \<and>
   (0, 1) \<in> edges mutual_pair \<and> (1, 0) \<in> edges mutual_pair \<and>
   (\<exists>objects. serialize 1000 (\<lambda>d. d) mutual_pair 0 = Some (Inr objects) \<and>
      count_list (map d_id objects) ''a'' = 1 \<and>
      count_list (map d_id objects) ''b'' = 1)"
proof -
  have r: "0 < length triangle" by (simp add: triangle_def)
  have r0: "0 \<in> reachable triangle 0" by (rule reachable_root)
  have r1: "1 \<in> reachable triangle 0"
    using r0 triangle_cycle by (blast intro: reachable_step)
  have r2: "2 \<in> reachable triangle 0"
    using r1 triangle_cycle by (blast intro: reachable_step)
  have i: "id_at triangle 0 = ''a''" "id_at triangle 1 = ''b''" "id_at triangle 2 = ''c''"
    by (simp_all add: id_at_def triangle_def)
  from serialize_terminates_on_cycles [OF triangle_closed r, of 1000 "\<lambda>d. d"]
    triangle_unique_ids triangle_frames
  obtain objects where s: "serialize 1000 (\<lambda>d. d) triangle 0 = Some (Inr objects)"
    and c: "\<forall>a\<in>reachable triangle 0. count_list (map d_id objects) (id_at triangle a) = 1"
    by blast
  from c r0 r1 r2 i have t: "count_list (map d_id objects) ''a'' = 1"
    "count_list (map d_id objects) ''b'' = 1" "count_list (map d_id objects) ''c'' = 1"
    by metis+
  have p0: "0 \<in> reachable mutual_pair 0" by (rule reachable_root)
  have p1: "1 \<in> reachable mutual_pair 0"
    using p0 mutual_pair_cycle by (blast intro: reachable_step)
  have j: "id_at mutual_pair 0 = ''a''" "id_at mutual_pair 1 = ''b''"
    by (simp_all add: id_at_def mutual_pair_def)
  from serialize_terminates_on_cycles [OF mutual_pair_wf(1,3), of 1000 "\<lambda>d. d"]
    mutual_pair_wf(2) mutual_pair_frames
  obtain objects' where s': "serialize 1000 (\<lambda>d. d) mutual_pair 0 = Some (Inr objects')"
    and c': "\<forall>a\<in>reachable mutual_pair 0. count_list (map d_id objects') (id_at mutual_pair a) = 1"
    by blast
  from c' p0 p1 j have t': "count_list (map d_id objects') ''a'' = 1"
    "count_list (map d_id objects') ''b'' = 1"
    by metis+
  from s t s' t' triangle_closed triangle_unique_ids r triangle_cycle mutual_pair_wf
    mutual_pair_cycle triangle_frames mutual_pair_frames
  show ?thesis by blast
qed


text \<open>
  C6 (count invariant), where the code departs from it. From the first person of the path
  of 1200 friends all 1200 are reachable, and with the 1000 frames of Python's default
  recursion limit the serialiser raises \<open>RecursionError\<close> and writes no dictionary.
\<close>

theorem serialize_count_counterexample:
  "card (reachable (chain 1200) 0) = 1200 \<and>
   serialize 1000 (\<lambda>d. d) (chain 1200) 0 = Some (Inl RecursionError)"
proof -
  have "serialize 1000 (\<lambda>d. d) (chain 1200) 0 = Some (Inl RecursionError)"
    by (rule chain_serialize_overflow) simp_all
  then show ?thesis by (simp add: chain_reachable)
qed


text \<open>
  C6 as the code has it. For every root the serialiser returns or raises
  \<open>RecursionError\<close>, and it returns whenever the nodes reachable from the root are fewer
  than the nested calls the interpreter still allows. Whenever it returns, the number of
  dictionaries it has written is the number of distinct nodes reachable from the root
  through the friends relation, the root included: of objects on a heap whose references
  denote objects and whose identifiers are unique for the serialisers of the classes, of
  identifiers for \<open>serialize_functional\<close>, given a \<open>persons_dict\<close> in which every friends
  entry is a stored identifier.
\<close>

theorem serialize_count:
  "(closed h \<and> unique_ids h \<and> root < length h \<longrightarrow>
      (serialize frames isoformat h root = Some (Inl RecursionError) \<or>
       (\<exists>objects_to_save. serialize frames isoformat h root = Some (Inr objects_to_save) \<and>
          length objects_to_save = card (reachable h root))) \<and>
      (card (reachable h root) < frames \<longrightarrow>
         serialize frames isoformat h root \<noteq> Some (Inl RecursionError))) \<and>
   (closed_functional persons_dict \<and> f_id root_person \<in> fst ` set persons_dict \<longrightarrow>
      (serialize_functional frames isoformat root_person persons_dict = Inl RecursionError \<or>
       (\<exists>parsed. serialize_functional frames isoformat root_person persons_dict = Inr parsed \<and>
          length (objects parsed) = card (reachable_functional persons_dict (f_id root_person)))) \<and>
      (card (reachable_functional persons_dict (f_id root_person)) < frames \<longrightarrow>
         serialize_functional frames isoformat root_person persons_dict \<noteq> Inl RecursionError))"
proof (rule conjI; rule impI)
  assume "closed h \<and> unique_ids h \<and> root < length h"
  then have a: "closed h" "unique_ids h" "root < length h" by simp_all
  from preorder_facts(1,2) [OF a]
  have "card (reachable h root) = length (preorder h [root] {})"
    by (metis distinct_card)
  with serialize_preorder [OF a, of isoformat]
  have "\<exists>recs. serialize_unbounded isoformat h root = Some recs \<and> length recs = card (reachable h root)"
    by simp
  with serialize_returns [OF a(1,3), of frames isoformat]
  show "(serialize frames isoformat h root = Some (Inl RecursionError) \<or>
       (\<exists>objects_to_save. serialize frames isoformat h root = Some (Inr objects_to_save) \<and>
          length objects_to_save = card (reachable h root))) \<and>
      (card (reachable h root) < frames \<longrightarrow>
         serialize frames isoformat h root \<noteq> Some (Inl RecursionError))"
    by auto
next
  assume "closed_functional persons_dict \<and> f_id root_person \<in> fst ` set persons_dict"
  then have a: "closed_functional persons_dict" "f_id root_person \<in> fst ` set persons_dict"
    by simp_all
  from serialize_functional_keys [OF a, of isoformat]
  obtain ks where s: "serialize_functional_unbounded isoformat root_person persons_dict =
        Inr \<lparr>root_id = f_id root_person,
             objects = map (\<lambda>k. obj_copy isoformat (person_at persons_dict k)) ks\<rparr>"
    and dk: "distinct ks" and sk: "set ks = reachable_functional persons_dict (f_id root_person)"
    by blast
  from dk sk have "card (reachable_functional persons_dict (f_id root_person)) = length ks"
    by (metis distinct_card)
  with s have "\<exists>c. serialize_functional_unbounded isoformat root_person persons_dict = Inr c \<and>
      length (objects c) = card (reachable_functional persons_dict (f_id root_person))"
    by simp
  with serialize_functional_returns [OF a, of frames isoformat]
  show "(serialize_functional frames isoformat root_person persons_dict = Inl RecursionError \<or>
       (\<exists>parsed. serialize_functional frames isoformat root_person persons_dict = Inr parsed \<and>
          length (objects parsed) = card (reachable_functional persons_dict (f_id root_person)))) \<and>
      (card (reachable_functional persons_dict (f_id root_person)) < frames \<longrightarrow>
         serialize_functional frames isoformat root_person persons_dict \<noteq> Inl RecursionError)"
    by auto
qed

theorem serialize_count_witness:
  "closed triangle \<and> unique_ids triangle \<and> 0 < length triangle \<and>
   card (reachable triangle 0) < 1000 \<and>
   (\<exists>objects_to_save. serialize 1000 (\<lambda>d. d) triangle 0 = Some (Inr objects_to_save) \<and>
       length objects_to_save = 3 \<and> card (reachable triangle 0) = 3) \<and>
   closed_functional (all_persons triangle_functional) \<and>
   f_id (triangle_functional ! 0) \<in> fst ` set (all_persons triangle_functional) \<and>
   card (reachable_functional (all_persons triangle_functional)
     (f_id (triangle_functional ! 0))) < 1000 \<and>
   (\<exists>parsed. serialize_functional 1000 (\<lambda>d. d) (triangle_functional ! 0)
         (all_persons triangle_functional) = Inr parsed \<and>
       length (objects parsed) = 3 \<and>
       card (reachable_functional (all_persons triangle_functional)
         (f_id (triangle_functional ! 0))) = 3)"
proof -
  have r: "0 < length triangle" by (simp add: triangle_def)
  have k: "f_id (triangle_functional ! 0) \<in> fst ` set (all_persons triangle_functional)"
    by (simp add: all_persons_def triangle_functional_value)
  have l: "length (map (obj_copy (\<lambda>d. d)) triangle_functional) = 3"
    by (simp add: triangle_functional_value)
  from serialize_count [of triangle 0 1000 "\<lambda>d. d" "all_persons triangle_functional"
      "triangle_functional ! 0"]
    triangle_serialize triangle_closed triangle_unique_ids r triangle_frames
    triangle_functional_closed k triangle_functional_serialize l triangle_functional_frames
  show ?thesis by auto
qed


text \<open>
  C7 (first-visit order), where the code departs from it. The first and the last person of
  the path of 1200 friends are reachable from the first, and with the 1000 frames of
  Python's default recursion limit the serialiser raises \<open>RecursionError\<close>: it lists no
  node at all.
\<close>

theorem serialize_order_counterexample:
  "closed (chain 1200) \<and> unique_ids (chain 1200) \<and> 0 < length (chain 1200) \<and>
   0 \<in> reachable (chain 1200) 0 \<and> 1199 \<in> reachable (chain 1200) 0 \<and>
   serialize 1000 (\<lambda>d. d) (chain 1200) 0 = Some (Inl RecursionError)"
proof -
  have "closed (chain 1200)" "unique_ids (chain 1200)"
    using built_invariants [OF chain_built] by simp_all
  moreover have "serialize 1000 (\<lambda>d. d) (chain 1200) 0 = Some (Inl RecursionError)"
    by (rule chain_serialize_overflow) simp_all
  ultimately show ?thesis by (simp add: chain_reachable)
qed


text \<open>
  C7 as the code has it. The serialiser returns or raises \<open>RecursionError\<close>, and it returns
  whenever the objects reachable from the root are fewer than the nested calls the
  interpreter still allows. The list it returns is the depth-first pre-order of the
  friends graph from the root, as the stack formulation \<open>preorder\<close> defines it, with each
  object written as its dictionary: its identifier, its name, the ISO text of its birth
  date and the identifiers of its friends in the order of its list. The pre-order has the
  root first and every reachable object exactly once, friends taken in the order of each
  object's list.
\<close>

theorem serialize_first_visit_order:
  assumes "closed h" "unique_ids h" "root < length h"
  shows "(serialize frames fmt h root = Some (Inl RecursionError) \<or>
          serialize frames fmt h root =
            Some (Inr (map (\<lambda>a. \<lparr>d_id = p_id (h ! a), d_name = p_name (h ! a),
                                  d_born_in = fmt (p_born_in (h ! a)),
                                  d_friends = map (\<lambda>b. p_id (h ! b)) (p_friends (h ! a))\<rparr>)
                         (preorder h [root] {})))) \<and>
         (card (reachable h root) < frames \<longrightarrow>
            serialize frames fmt h root \<noteq> Some (Inl RecursionError)) \<and>
         distinct (preorder h [root] {}) \<and>
         set (preorder h [root] {}) = reachable h root \<and>
         hd (preorder h [root] {}) = root"
proof -
  from preorder_facts(3) [OF assms] have hd: "hd (preorder h [root] {}) = root" by auto
  have "(\<lambda>a. to_dict fmt h (h ! a)) =
      (\<lambda>a. \<lparr>d_id = p_id (h ! a), d_name = p_name (h ! a), d_born_in = fmt (p_born_in (h ! a)),
             d_friends = map (\<lambda>b. p_id (h ! b)) (p_friends (h ! a))\<rparr>)"
    by (simp add: to_dict_def)
  with serialize_preorder [OF assms, of fmt]
  have u: "serialize_unbounded fmt h root =
      Some (map (\<lambda>a. \<lparr>d_id = p_id (h ! a), d_name = p_name (h ! a),
                       d_born_in = fmt (p_born_in (h ! a)),
                       d_friends = map (\<lambda>b. p_id (h ! b)) (p_friends (h ! a))\<rparr>)
              (preorder h [root] {}))"
    by simp
  from serialize_returns [OF assms(1,3), of frames fmt] u
  have "(serialize frames fmt h root = Some (Inl RecursionError) \<or>
          serialize frames fmt h root =
            Some (Inr (map (\<lambda>a. \<lparr>d_id = p_id (h ! a), d_name = p_name (h ! a),
                                  d_born_in = fmt (p_born_in (h ! a)),
                                  d_friends = map (\<lambda>b. p_id (h ! b)) (p_friends (h ! a))\<rparr>)
                         (preorder h [root] {})))) \<and>
         (card (reachable h root) < frames \<longrightarrow>
            serialize frames fmt h root \<noteq> Some (Inl RecursionError))"
    by auto
  with hd preorder_facts(1,2) [OF assms] show ?thesis by blast
qed

theorem serialize_first_visit_order_witness:
  "closed triangle \<and> unique_ids triangle \<and> 0 < length triangle \<and>
   card (reachable triangle 0) < 1000 \<and>
   serialize 1000 (\<lambda>d. d) triangle 0 =
     Some (Inr
       [\<lparr>d_id = ''a'', d_name = ''Ivan'', d_born_in = ''1990-05-15T00:00:00'', d_friends = [''b'', ''c'']\<rparr>,
        \<lparr>d_id = ''b'', d_name = ''Maria'', d_born_in = ''1992-08-22T00:00:00'', d_friends = [''a'', ''c'']\<rparr>,
        \<lparr>d_id = ''c'', d_name = ''Alexey'', d_born_in = ''1988-03-10T00:00:00'', d_friends = [''b'', ''a'']\<rparr>]) \<and>
   preorder triangle [0] {} = [0, 1, 2] \<and>
   reachable triangle 0 = {0, 1, 2}"
proof -
  have r: "0 < length triangle" by (simp add: triangle_def)
  note t = serialize_first_visit_order [OF triangle_closed triangle_unique_ids r, of 1000 "\<lambda>d. d"]
  from t triangle_frames
  have "serialize 1000 (\<lambda>d. d) triangle 0 =
      Some (Inr (map (\<lambda>a. \<lparr>d_id = p_id (triangle ! a), d_name = p_name (triangle ! a),
                           d_born_in = p_born_in (triangle ! a),
                           d_friends = map (\<lambda>b. p_id (triangle ! b)) (p_friends (triangle ! a))\<rparr>)
                  (preorder triangle [0] {})))"
    by blast
  then have s: "serialize 1000 (\<lambda>d. d) triangle 0 =
     Some (Inr
       [\<lparr>d_id = ''a'', d_name = ''Ivan'', d_born_in = ''1990-05-15T00:00:00'', d_friends = [''b'', ''c'']\<rparr>,
        \<lparr>d_id = ''b'', d_name = ''Maria'', d_born_in = ''1992-08-22T00:00:00'', d_friends = [''a'', ''c'']\<rparr>,
        \<lparr>d_id = ''c'', d_name = ''Alexey'', d_born_in = ''1988-03-10T00:00:00'', d_friends = [''b'', ''a'']\<rparr>])"
    unfolding triangle_preorder by (simp add: triangle_def)
  from t have "set (preorder triangle [0] {}) = reachable triangle 0" by blast
  then have "reachable triangle 0 = {0, 1, 2}" unfolding triangle_preorder by auto
  with s triangle_preorder triangle_closed triangle_unique_ids r triangle_frames
  show ?thesis by blast
qed


section \<open>Properties of \<open>add_friend\<close>\<close>

text \<open>
  C3 (symmetry and idempotence). In a graph built with the constructor and \<open>add_friend\<close>,
  for distinct persons A and B: after \<open>add_friend(A, B)\<close> B is in the friends of A and A
  is in the friends of B, and a second call leaves the whole heap as it is. The first
  conjunct is the method of the two classes, the second the function of the functional
  module, whose lists hold identifiers.
\<close>

theorem add_friend_symmetric_idempotent:
  "(built h \<and> a < length h \<and> b < length h \<and> a \<noteq> b \<longrightarrow>
      b \<in> set (p_friends (add_friend h a b ! a)) \<and>
      a \<in> set (p_friends (add_friend h a b ! b)) \<and>
      add_friend (add_friend h a b) a b = add_friend h a b) \<and>
   (built_functional g \<and> c < length g \<and> d < length g \<and> c \<noteq> d \<longrightarrow>
      IdRef (f_id (g ! d)) \<in> set (f_friends (add_friend_functional g c d ! c)) \<and>
      IdRef (f_id (g ! c)) \<in> set (f_friends (add_friend_functional g c d ! d)) \<and>
      add_friend_functional (add_friend_functional g c d) c d = add_friend_functional g c d)"
proof (rule conjI; rule impI)
  assume h: "built h \<and> a < length h \<and> b < length h \<and> a \<noteq> b"
  with built_invariants [of h] have "symmetric h" by simp
  with h have "b \<in> set (p_friends (h ! a)) \<Longrightarrow> a \<in> set (p_friends (h ! b))"
    by (simp add: symmetric_def)
  with h show "b \<in> set (p_friends (add_friend h a b ! a)) \<and>
      a \<in> set (p_friends (add_friend h a b ! b)) \<and>
      add_friend (add_friend h a b) a b = add_friend h a b"
    by (intro add_friend_symmetric_pair) simp_all
next
  assume g: "built_functional g \<and> c < length g \<and> d < length g \<and> c \<noteq> d"
  then have "wf_functional g" by (simp add: built_functional_wf)
  with g show "IdRef (f_id (g ! d)) \<in> set (f_friends (add_friend_functional g c d ! c)) \<and>
      IdRef (f_id (g ! c)) \<in> set (f_friends (add_friend_functional g c d ! d)) \<and>
      add_friend_functional (add_friend_functional g c d) c d = add_friend_functional g c d"
    by (intro add_friend_functional_pair) simp_all
qed

theorem add_friend_symmetric_idempotent_witness:
  "built two_persons \<and> 0 < length two_persons \<and> 1 < length two_persons \<and> (0::nat) \<noteq> 1 \<and>
   map p_friends (add_friend two_persons 0 1) = [[1], [0]] \<and>
   add_friend (add_friend two_persons 0 1) 0 1 = add_friend two_persons 0 1 \<and>
   built_functional two_persons_functional \<and> 0 < length two_persons_functional \<and>
   1 < length two_persons_functional \<and>
   map f_friends (add_friend_functional two_persons_functional 0 1) = [[IdRef ''b''], [IdRef ''a'']] \<and>
   add_friend_functional (add_friend_functional two_persons_functional 0 1) 0 1 =
     add_friend_functional two_persons_functional 0 1"
proof -
  have l: "0 < length two_persons" "1 < length two_persons"
    "0 < length two_persons_functional" "1 < length two_persons_functional"
    by (simp_all add: two_persons_def two_persons_functional_def)
  have e: "map p_friends (add_friend two_persons 0 1) = [[1], [0]]"
    by (simp add: add_friend_unfold two_persons_def Person_def append_friend_def)
  have f: "map f_friends (add_friend_functional two_persons_functional 0 1) = [[IdRef ''b''], [IdRef ''a'']]"
    by (simp add: add_friend_functional_def two_persons_functional_def
        create_person_with_friends_def create_person_data_def friends_append_def)
  from add_friend_symmetric_idempotent [of two_persons 0 1 two_persons_functional 0 1]
    two_persons_built two_persons_functional_built l e f
  show ?thesis by simp
qed


text \<open>
  C9 (self-loops). No variant of \<open>add_friend\<close> compares the two persons: called with
  the same person twice, the method of the classes appends the person to its own list, and
  the function of the functional module appends its identifier twice.
\<close>

theorem add_friend_self_counterexample:
  "0 \<in> set (p_friends (add_friend one_person 0 0 ! 0)) \<and>
   f_friends (add_friend_functional one_person_functional 0 0 ! 0) = [IdRef ''a'', IdRef ''a'']"
  by (simp add: add_friend_unfold one_person_def Person_def append_friend_def
      add_friend_functional_def one_person_functional_def create_person_with_friends_def
      create_person_data_def friends_append_def)


text \<open>
  C9 as the code has it: after \<open>add_friend(A, A)\<close> A is in its own friends list. When it was
  not there before, the classes append A once and the functional module appends the
  identifier of A twice; when it was, nothing changes. A second call changes nothing.
\<close>

theorem add_friend_self:
  "(a < length h \<longrightarrow>
      p_friends (add_friend h a a ! a) =
        (if a \<in> set (p_friends (h ! a)) then p_friends (h ! a) else p_friends (h ! a) @ [a]) \<and>
      a \<in> set (p_friends (add_friend h a a ! a)) \<and>
      add_friend (add_friend h a a) a a = add_friend h a a) \<and>
   (c < length g \<longrightarrow>
      f_friends (add_friend_functional g c c ! c) =
        (if IdRef (f_id (g ! c)) \<in> set (f_friends (g ! c)) then f_friends (g ! c)
         else f_friends (g ! c) @ [IdRef (f_id (g ! c)), IdRef (f_id (g ! c))]) \<and>
      IdRef (f_id (g ! c)) \<in> set (f_friends (add_friend_functional g c c ! c)) \<and>
      add_friend_functional (add_friend_functional g c c) c c = add_friend_functional g c c)"
proof (rule conjI; rule impI)
  assume a: "a < length h"
  have 1: "p_friends (add_friend h a a ! a) =
        (if a \<in> set (p_friends (h ! a)) then p_friends (h ! a) else p_friends (h ! a) @ [a])"
    using add_friend_to_self [OF a] .
  then have 2: "a \<in> set (p_friends (add_friend h a a ! a))" by (simp split: if_splits)
  then have "add_friend (add_friend h a a) a a = add_friend h a a"
    by (intro add_friend_skip) simp
  with 1 2 show "p_friends (add_friend h a a ! a) =
        (if a \<in> set (p_friends (h ! a)) then p_friends (h ! a) else p_friends (h ! a) @ [a]) \<and>
      a \<in> set (p_friends (add_friend h a a ! a)) \<and>
      add_friend (add_friend h a a) a a = add_friend h a a"
    by blast
next
  assume c: "c < length g"
  have 1: "f_friends (add_friend_functional g c c ! c) =
        (if IdRef (f_id (g ! c)) \<in> set (f_friends (g ! c)) then f_friends (g ! c)
         else f_friends (g ! c) @ [IdRef (f_id (g ! c)), IdRef (f_id (g ! c))])"
    using add_friend_functional_self [OF c] .
  then have 2: "IdRef (f_id (g ! c)) \<in> set (f_friends (add_friend_functional g c c ! c))"
    by (simp split: if_splits)
  with c have "IdRef (f_id (add_friend_functional g c c ! c))
      \<in> set (f_friends (add_friend_functional g c c ! c))"
    by (simp add: add_friend_functional_id)
  then have "add_friend_functional (add_friend_functional g c c) c c = add_friend_functional g c c"
    by (subst add_friend_functional_def) simp
  with 1 2 show "f_friends (add_friend_functional g c c ! c) =
        (if IdRef (f_id (g ! c)) \<in> set (f_friends (g ! c)) then f_friends (g ! c)
         else f_friends (g ! c) @ [IdRef (f_id (g ! c)), IdRef (f_id (g ! c))]) \<and>
      IdRef (f_id (g ! c)) \<in> set (f_friends (add_friend_functional g c c ! c)) \<and>
      add_friend_functional (add_friend_functional g c c) c c = add_friend_functional g c c"
    by blast
qed

theorem add_friend_self_witness:
  "0 < length one_person \<and> p_friends (add_friend one_person 0 0 ! 0) = [0] \<and>
   add_friend (add_friend one_person 0 0) 0 0 = add_friend one_person 0 0 \<and>
   0 < length one_person_functional \<and>
   f_friends (add_friend_functional one_person_functional 0 0 ! 0) = [IdRef ''a'', IdRef ''a''] \<and>
   add_friend_functional (add_friend_functional one_person_functional 0 0) 0 0 =
     add_friend_functional one_person_functional 0 0"
proof -
  have l: "0 < length one_person" "0 < length one_person_functional"
    by (simp_all add: one_person_def one_person_functional_def)
  have e: "p_friends (one_person ! 0) = []" "f_friends (one_person_functional ! 0) = []"
    by (simp_all add: one_person_def one_person_functional_def Person_def
        create_person_with_friends_def create_person_data_def)
  have i: "f_id (one_person_functional ! 0) = ''a''"
    by (simp add: one_person_functional_def create_person_with_friends_def create_person_data_def)
  from add_friend_self [of 0 one_person 0 one_person_functional] l e i
  show ?thesis by simp
qed



section \<open>Properties of the deserialisers\<close>

text \<open>
  C4 (dangling references), where the code departs from it. The first loop of every
  deserialiser parses \<open>born_in\<close> of every dictionary before any identifier is looked up.
  The first container below names the friend identifier \<open>zz\<close>, which no dictionary
  carries, and has a \<open>born_in\<close> that \<open>fromisoformat\<close> refuses: the classes and
  \<open>deserialize_functional\<close> fail with the \<open>ValueError\<close> of that string, which names no
  identifier. \<open>deserialize_functional\<close> moreover links the persons still in
  \<open>persons_dict\<close>: a dictionary replaced there by a later one with the same identifier is
  never linked, so the second container, which names \<open>zz\<close> in such a dictionary, is
  deserialised by it without an error.
\<close>

theorem dangling_reference_counterexample:
  "''zz'' \<in> set (d_friends (undated_dangling ! 0)) \<and> ''zz'' \<notin> d_id ` set undated_dangling \<and>
   deserialize fromisoformat_sample undated_dangling = Inl (ValueError ''not a date'') \<and>
   deserialize_functional fromisoformat_sample (person_factory ''x'')
     \<lparr>root_id = ''a'', objects = undated_dangling\<rparr> = Inl (ValueError ''not a date'') \<and>
   ''zz'' \<in> set (d_friends (objects shadowed_dangling ! 0)) \<and>
   ''zz'' \<notin> d_id ` set (objects shadowed_dangling) \<and>
   deserialize_functional Some (person_factory ''x'') shadowed_dangling =
     Inr (1, [(''a'', 1)],
       [\<lparr>f_id = ''a'', f_name = ''Ivan'', f_born_in = ''1990-05-15T00:00:00'', f_friends = [IdRef ''zz'']\<rparr>,
        \<lparr>f_id = ''a'', f_name = ''Ivan'', f_born_in = ''1990-05-15T00:00:00'', f_friends = []\<rparr>])"
  by (simp add: undated_dangling_def fromisoformat_sample_def deserialize_def rebuild_def
      from_dict_def shadowed_dangling_def deserialize_functional_def new_person_data_def
      person_factory_def create_person_with_friends_def create_person_data_def)


text \<open>
  C4 as the code has it. When \<open>fromisoformat\<close> refuses the \<open>born_in\<close> of some dictionary,
  every deserialiser fails with the \<open>ValueError\<close> of the first such string. When it
  accepts them all and some dictionary names a friend identifier that no dictionary
  carries, the deserialisers of the two classes fail with \<open>KeyError\<close> of such an
  identifier; \<open>deserialize_functional\<close> does so when that dictionary is the last one with
  its identifier, which every dictionary is when the identifiers are distinct; and when
  the links of these last dictionaries resolve and \<open>root_id\<close> is carried by no dictionary,
  it fails with \<open>KeyError\<close> of \<open>root_id\<close>. No deserialiser returns a node with a hole in
  its friends list: whenever one returns, the returned node is in the mapping it built,
  and every node of that mapping has, in order, the friends that its dictionary names.
\<close>

theorem dangling_reference_error:
  fixes fromisoformat :: "string \<Rightarrow> 'd option" and factory :: "string \<Rightarrow> 'd \<Rightarrow> 'd person_data"
  shows
  "(\<forall>r. find (\<lambda>r. fromisoformat (d_born_in r) = None) objects_data = Some r \<longrightarrow>
      deserialize fromisoformat objects_data = Inl (ValueError (d_born_in r)) \<and>
      deserialize_functional fromisoformat factory \<lparr>root_id = rid, objects = objects_data\<rparr> =
        Inl (ValueError (d_born_in r))) \<and>
   ((\<forall>r\<in>set objects_data. fromisoformat (d_born_in r) \<noteq> None) \<and>
    (\<exists>r\<in>set objects_data. \<not> set (d_friends r) \<subseteq> d_id ` set objects_data) \<longrightarrow>
      (\<exists>k. deserialize fromisoformat objects_data = Inl (KeyError k) \<and>
           k \<notin> d_id ` set objects_data \<and> (\<exists>r\<in>set objects_data. k \<in> set (d_friends r)))) \<and>
   ((\<forall>r\<in>set objects_data. fromisoformat (d_born_in r) \<noteq> None) \<and>
    (\<exists>i. is_last objects_data i \<and>
         \<not> set (d_friends (objects_data ! i)) \<subseteq> d_id ` set objects_data) \<longrightarrow>
      (\<exists>k. deserialize_functional fromisoformat factory
              \<lparr>root_id = rid, objects = objects_data\<rparr> = Inl (KeyError k) \<and>
           k \<notin> d_id ` set objects_data \<and> (\<exists>r\<in>set objects_data. k \<in> set (d_friends r)))) \<and>
   ((\<forall>r\<in>set objects_data. fromisoformat (d_born_in r) \<noteq> None) \<and>
    (\<forall>i. is_last objects_data i \<longrightarrow>
         set (d_friends (objects_data ! i)) \<subseteq> d_id ` set objects_data) \<and>
    rid \<notin> d_id ` set objects_data \<longrightarrow>
      deserialize_functional fromisoformat factory \<lparr>root_id = rid, objects = objects_data\<rparr> =
        Inl (KeyError rid)) \<and>
   (\<forall>h' root. deserialize fromisoformat objects_data = Inr (h', root) \<longrightarrow>
      (\<exists>obj_cache. rebuild fromisoformat objects_data = Inr (h', obj_cache) \<and>
          obj_cache (d_id (hd objects_data)) = Some root \<and>
          (\<forall>k a. obj_cache k = Some a \<longrightarrow>
              a < length objects_data \<and> d_id (objects_data ! a) = k \<and> p_id (h' ! a) = k \<and>
              map (id_at h') (p_friends (h' ! a)) = d_friends (objects_data ! a)))) \<and>
   (\<forall>root persons_dict g.
      deserialize_functional fromisoformat factory \<lparr>root_id = rid, objects = objects_data\<rparr> =
        Inr (root, persons_dict, g) \<longrightarrow>
      map_of persons_dict rid = Some root \<and>
      (\<forall>k a. map_of persons_dict k = Some a \<longrightarrow>
          a < length objects_data \<and> d_id (objects_data ! a) = k \<and> f_id (g ! a) = k \<and>
          map (ref_id g) (f_friends (g ! a)) = d_friends (objects_data ! a)))"
proof (intro conjI)
  show "\<forall>r. find (\<lambda>r. fromisoformat (d_born_in r) = None) objects_data = Some r \<longrightarrow>
      deserialize fromisoformat objects_data = Inl (ValueError (d_born_in r)) \<and>
      deserialize_functional fromisoformat factory \<lparr>root_id = rid, objects = objects_data\<rparr> =
        Inl (ValueError (d_born_in r))"
    using deserialize_parse_error(2) [of fromisoformat objects_data]
      deserialize_functional_parse_error [of fromisoformat objects_data _ factory rid]
    by blast
next
  show "(\<forall>r\<in>set objects_data. fromisoformat (d_born_in r) \<noteq> None) \<and>
    (\<exists>r\<in>set objects_data. \<not> set (d_friends r) \<subseteq> d_id ` set objects_data) \<longrightarrow>
      (\<exists>k. deserialize fromisoformat objects_data = Inl (KeyError k) \<and>
           k \<notin> d_id ` set objects_data \<and> (\<exists>r\<in>set objects_data. k \<in> set (d_friends r)))"
    using deserialize_dangling [of objects_data fromisoformat] by blast
next
  show "(\<forall>r\<in>set objects_data. fromisoformat (d_born_in r) \<noteq> None) \<and>
    (\<exists>i. is_last objects_data i \<and>
         \<not> set (d_friends (objects_data ! i)) \<subseteq> d_id ` set objects_data) \<longrightarrow>
      (\<exists>k. deserialize_functional fromisoformat factory
              \<lparr>root_id = rid, objects = objects_data\<rparr> = Inl (KeyError k) \<and>
           k \<notin> d_id ` set objects_data \<and> (\<exists>r\<in>set objects_data. k \<in> set (d_friends r)))"
    using deserialize_functional_dangling [of objects_data fromisoformat factory rid] by blast
next
  show "(\<forall>r\<in>set objects_data. fromisoformat (d_born_in r) \<noteq> None) \<and>
    (\<forall>i. is_last objects_data i \<longrightarrow>
         set (d_friends (objects_data ! i)) \<subseteq> d_id ` set objects_data) \<and>
    rid \<notin> d_id ` set objects_data \<longrightarrow>
      deserialize_functional fromisoformat factory \<lparr>root_id = rid, objects = objects_data\<rparr> =
        Inl (KeyError rid)"
    using deserialize_functional_no_root [of objects_data fromisoformat rid factory] by blast
next
  show "\<forall>h' root. deserialize fromisoformat objects_data = Inr (h', root) \<longrightarrow>
      (\<exists>obj_cache. rebuild fromisoformat objects_data = Inr (h', obj_cache) \<and>
          obj_cache (d_id (hd objects_data)) = Some root \<and>
          (\<forall>k a. obj_cache k = Some a \<longrightarrow>
              a < length objects_data \<and> d_id (objects_data ! a) = k \<and> p_id (h' ! a) = k \<and>
              map (id_at h') (p_friends (h' ! a)) = d_friends (objects_data ! a)))"
  proof (intro allI impI)
    fix h' root
    assume de: "deserialize fromisoformat objects_data = Inr (h', root)"
    from deserialize_Inr [OF de] obtain c where rb: "rebuild fromisoformat objects_data = Inr (h', c)"
      and ne: "objects_data \<noteq> []" by blast
    note ap = rebuild_Inr(1) [OF rb] and ok = rebuild_Inr(2) [OF rb]
    from deserialize_result [OF ap ne ok] rb de
    have rt: "c (d_id (hd objects_data)) = Some root"
      and last: "\<And>i. is_last objects_data i \<Longrightarrow> c (d_id (objects_data ! i)) = Some i \<and>
               p_id (h' ! i) = d_id (objects_data ! i) \<and>
               map (id_at h') (p_friends (h' ! i)) = d_friends (objects_data ! i)"
      by auto
    from rebuild_result [OF ap ok] rb
    have some: "\<And>k a. c k = Some a \<Longrightarrow> is_last objects_data a \<and> d_id (objects_data ! a) = k"
      by auto
    have "a < length objects_data \<and> d_id (objects_data ! a) = k \<and> p_id (h' ! a) = k \<and>
        map (id_at h') (p_friends (h' ! a)) = d_friends (objects_data ! a)" if "c k = Some a" for k a
    proof -
      from some [OF that] have l: "is_last objects_data a" and k: "d_id (objects_data ! a) = k"
        by simp_all
      from l have al: "a < length objects_data" by (simp add: is_last_def)
      from last [OF l] k al show ?thesis by simp
    qed
    with rb rt show "\<exists>obj_cache. rebuild fromisoformat objects_data = Inr (h', obj_cache) \<and>
          obj_cache (d_id (hd objects_data)) = Some root \<and>
          (\<forall>k a. obj_cache k = Some a \<longrightarrow>
              a < length objects_data \<and> d_id (objects_data ! a) = k \<and> p_id (h' ! a) = k \<and>
              map (id_at h') (p_friends (h' ! a)) = d_friends (objects_data ! a))"
      by blast
  qed
next
  let ?recs = objects_data
  show "\<forall>root persons_dict g.
      deserialize_functional fromisoformat factory \<lparr>root_id = rid, objects = objects_data\<rparr> =
        Inr (root, persons_dict, g) \<longrightarrow>
      map_of persons_dict rid = Some root \<and>
      (\<forall>k a. map_of persons_dict k = Some a \<longrightarrow>
          a < length objects_data \<and> d_id (objects_data ! a) = k \<and> f_id (g ! a) = k \<and>
          map (ref_id g) (f_friends (g ! a)) = d_friends (objects_data ! a))"
  proof (intro allI impI)
    fix root pd g
    assume de: "deserialize_functional fromisoformat factory \<lparr>root_id = rid, objects = ?recs\<rparr> =
        Inr (root, pd, g)"
    note ap = deserialize_functional_Inr(1) [OF de] and ok = deserialize_functional_Inr(2) [OF de]
      and rt = deserialize_functional_Inr(3) [OF de]
    from deserialize_functional_result [OF ap ok rt, of factory] de
    have mr: "map_of pd rid = Some root"
      and dom: "dom (map_of pd) = d_id ` set ?recs"
      and some: "\<And>k a. map_of pd k = Some a \<Longrightarrow> is_last ?recs a \<and> d_id (?recs ! a) = k"
      and last: "\<And>i. is_last ?recs i \<Longrightarrow> map_of pd (d_id (?recs ! i)) = Some i \<and>
               g ! i = (projr (new_person_data fromisoformat factory (?recs ! i)))\<lparr>f_friends :=
                  map (\<lambda>k. ObjRef (the (map_of pd k))) (d_friends (?recs ! i))\<rparr>"
      by auto
    have fid: "f_id (g ! b) = d_id (?recs ! b)" if "is_last ?recs b" for b
    proof -
      from that have "b < length ?recs" by (simp add: is_last_def)
      with ap have "fromisoformat (d_born_in (?recs ! b)) \<noteq> None" by simp
      with last [OF that] show ?thesis by (simp add: new_person_data_sel)
    qed
    have res: "ref_id g (ObjRef (the (map_of pd k))) = k" if "k \<in> d_id ` set ?recs" for k
    proof -
      from that dom obtain b where b: "map_of pd k = Some b" by blast
      from some [OF b] fid [of b] b show ?thesis by (simp add: ref_id_def)
    qed
    have "a < length ?recs \<and> d_id (?recs ! a) = k \<and> f_id (g ! a) = k \<and>
        map (ref_id g) (f_friends (g ! a)) = d_friends (?recs ! a)" if m: "map_of pd k = Some a" for k a
    proof -
      from some [OF m] have l: "is_last ?recs a" and k: "d_id (?recs ! a) = k" by simp_all
      from l have al: "a < length ?recs" by (simp add: is_last_def)
      from ok l have sub: "set (d_friends (?recs ! a)) \<subseteq> d_id ` set ?recs" by simp
      from last [OF l]
      have ga: "g ! a = (projr (new_person_data fromisoformat factory (?recs ! a)))\<lparr>f_friends :=
                  map (\<lambda>k. ObjRef (the (map_of pd k))) (d_friends (?recs ! a))\<rparr>" by simp
      have "map (ref_id g) (f_friends (g ! a)) = d_friends (?recs ! a)"
        unfolding ga using sub res by (simp add: comp_def map_idI subset_iff)
      with al k fid [OF l] show ?thesis by simp
    qed
    with mr show "map_of pd rid = Some root \<and>
      (\<forall>k a. map_of pd k = Some a \<longrightarrow>
          a < length objects_data \<and> d_id (objects_data ! a) = k \<and> f_id (g ! a) = k \<and>
          map (ref_id g) (f_friends (g ! a)) = d_friends (objects_data ! a))"
      by blast
  qed
qed


theorem dangling_reference_error_witness:
  "find (\<lambda>r. fromisoformat_sample (d_born_in r) = None) undated_dangling =
     Some (undated_dangling ! 0) \<and>
   deserialize fromisoformat_sample undated_dangling = Inl (ValueError ''not a date'') \<and>
   deserialize_functional fromisoformat_sample (person_factory ''x'')
     \<lparr>root_id = ''a'', objects = undated_dangling\<rparr> = Inl (ValueError ''not a date'') \<and>
   deserialize Some dangling = Inl (KeyError ''zz'') \<and>
   deserialize_functional Some (person_factory ''x'') \<lparr>root_id = ''a'', objects = dangling\<rparr> =
     Inl (KeyError ''zz'') \<and>
   deserialize_functional Some (person_factory ''x'') \<lparr>root_id = ''c'', objects = tl dangling\<rparr> =
     Inl (KeyError ''a'') \<and>
   deserialize_functional Some (person_factory ''x'') \<lparr>root_id = ''c'', objects = pair_records\<rparr> =
     Inl (KeyError ''c'') \<and>
   deserialize Some pair_records = Inr (mutual_pair, 0) \<and>
   map (id_at mutual_pair) (p_friends (mutual_pair ! 0)) = d_friends (pair_records ! 0) \<and>
   deserialize_functional Some (person_factory ''x'') \<lparr>root_id = ''a'', objects = pair_records\<rparr> =
     Inr (0, [(''a'', 0), (''b'', 1)], linked_pair) \<and>
   map (ref_id linked_pair) (f_friends (linked_pair ! 0)) = d_friends (pair_records ! 0)"
proof -
  note t = dangling_reference_error
  have f: "find (\<lambda>r. fromisoformat_sample (d_born_in r) = None) undated_dangling =
     Some (undated_dangling ! 0)"
    by (simp add: undated_dangling_def fromisoformat_sample_def)
  have v: "d_born_in (undated_dangling ! 0) = ''not a date''"
    by (simp add: undated_dangling_def)
  from t [of fromisoformat_sample undated_dangling "person_factory ''x''" "''a''",
      THEN conjunct1, rule_format, OF f]
  have a: "deserialize fromisoformat_sample undated_dangling = Inl (ValueError ''not a date'')"
    and b: "deserialize_functional fromisoformat_sample (person_factory ''x'')
     \<lparr>root_id = ''a'', objects = undated_dangling\<rparr> = Inl (ValueError ''not a date'')"
    by (simp_all add: v)
  have ap: "\<forall>r\<in>set dangling. Some (d_born_in r) \<noteq> None" by simp
  have 1: "\<exists>r\<in>set dangling. \<not> set (d_friends r) \<subseteq> d_id ` set dangling"
    by (simp add: dangling_def)
  have 2: "\<exists>i. is_last dangling i \<and> \<not> set (d_friends (dangling ! i)) \<subseteq> d_id ` set dangling"
    by (rule exI [of _ 0]) (simp add: dangling_def is_last_def)
  have k: "k = ''zz''" if "k \<notin> d_id ` set dangling" "\<exists>r\<in>set dangling. k \<in> set (d_friends r)" for k
    using that by (auto simp: dangling_def)
  from t [of Some dangling "person_factory ''x''" "''a''", THEN conjunct2, THEN conjunct1] ap 1 k
  have c: "deserialize Some dangling = Inl (KeyError ''zz'')"
    by metis
  from t [of Some dangling "person_factory ''x''" "''a''", THEN conjunct2, THEN conjunct2,
      THEN conjunct1] ap 2 k
  have d: "deserialize_functional Some (person_factory ''x'') \<lparr>root_id = ''a'', objects = dangling\<rparr> =
     Inl (KeyError ''zz'')"
    by metis
  have ap': "\<forall>r\<in>set (tl dangling). Some (d_born_in r) \<noteq> None" by simp
  have k': "k = ''a''" if "k \<notin> d_id ` set (tl dangling)" "\<exists>r\<in>set (tl dangling). k \<in> set (d_friends r)" for k
    using that by (auto simp: dangling_def)
  have 4: "\<exists>i. is_last (tl dangling) i \<and> \<not> set (d_friends (tl dangling ! i)) \<subseteq> d_id ` set (tl dangling)"
    by (rule exI [of _ 0]) (simp add: dangling_def is_last_def)
  from t [of Some "tl dangling" "person_factory ''x''" "''c''", THEN conjunct2, THEN conjunct2,
      THEN conjunct1] ap' 4 k'
  have e: "deserialize_functional Some (person_factory ''x'') \<lparr>root_id = ''c'', objects = tl dangling\<rparr> =
     Inl (KeyError ''a'')"
    by metis
  have 5: "(\<forall>r\<in>set pair_records. Some (d_born_in r) \<noteq> None) \<and>
      (\<forall>i. is_last pair_records i \<longrightarrow> set (d_friends (pair_records ! i)) \<subseteq> d_id ` set pair_records) \<and>
      ''c'' \<notin> d_id ` set pair_records"
    by (auto simp: pair_records_def is_last_def less_Suc_eq)
  from t [of Some pair_records "person_factory ''x''" "''c''", THEN conjunct2, THEN conjunct2,
      THEN conjunct2, THEN conjunct1, THEN mp, OF 5]
  have g: "deserialize_functional Some (person_factory ''x'') \<lparr>root_id = ''c'', objects = pair_records\<rparr> =
     Inl (KeyError ''c'')" .
  have 6: "deserialize Some pair_records = Inr (mutual_pair, 0)"
    by (simp add: pair_records_def deserialize_def rebuild_def from_dict_def lookup_def
        set_friends_def mutual_pair_def)
  from t [of Some pair_records "person_factory ''x''" "''a''", THEN conjunct2, THEN conjunct2,
      THEN conjunct2, THEN conjunct2, THEN conjunct1, rule_format, OF 6]
  obtain obj_cache where oc: "obj_cache (d_id (hd pair_records)) = Some 0"
    and al: "\<And>k a. obj_cache k = Some a \<Longrightarrow>
       map (id_at mutual_pair) (p_friends (mutual_pair ! a)) = d_friends (pair_records ! a)"
    by blast
  from al [OF oc]
  have h: "map (id_at mutual_pair) (p_friends (mutual_pair ! 0)) = d_friends (pair_records ! 0)" .
  have 7: "deserialize_functional Some (person_factory ''x'') \<lparr>root_id = ''a'', objects = pair_records\<rparr> =
     Inr (0, [(''a'', 0), (''b'', 1)], linked_pair)"
    by (simp add: pair_records_def deserialize_functional_def new_person_data_def
        person_factory_def create_person_with_friends_def create_person_data_def linked_pair_def)
  from t [of Some pair_records "person_factory ''x''" "''a''", THEN conjunct2, THEN conjunct2,
      THEN conjunct2, THEN conjunct2, THEN conjunct2, rule_format, OF 7]
  have mr: "map_of [(''a'', 0::nat), (''b'', 1)] ''a'' = Some 0"
    and al': "\<And>k a. map_of [(''a'', 0::nat), (''b'', 1)] k = Some a \<Longrightarrow>
       map (ref_id linked_pair) (f_friends (linked_pair ! a)) = d_friends (pair_records ! a)"
    by blast+
  from al' [OF mr]
  have i: "map (ref_id linked_pair) (f_friends (linked_pair ! 0)) = d_friends (pair_records ! 0)" .
  show ?thesis
    apply (intro conjI)
              apply (rule f)
             apply (rule a)
            apply (rule b)
           apply (rule c)
          apply (rule d)
         apply (rule e)
        apply (rule g)
       apply (rule 6)
      apply (rule h)
     apply (rule 7)
    apply (rule i)
    done
qed


text \<open>
  C5 (repeated identifiers), where the code departs from it. No deserialiser compares the
  identifiers of two dictionaries: the assignment to the mapping replaces the earlier node.
  The container below carries the identifier \<open>a\<close> twice and is deserialised without an
  error by the classes and by the functional module.
\<close>

theorem duplicate_id_counterexample:
  "d_id (duplicated ! 0) = d_id (duplicated ! 2) \<and>
   deserialize Some duplicated =
     Inr ([\<lparr>p_id = ''a'', p_name = ''Ivan'', p_born_in = ''1990-05-15T00:00:00'', p_friends = []\<rparr>,
           \<lparr>p_id = ''b'', p_name = ''Maria'', p_born_in = ''1992-08-22T00:00:00'', p_friends = [2]\<rparr>,
           \<lparr>p_id = ''a'', p_name = ''Alexey'', p_born_in = ''1988-03-10T00:00:00'', p_friends = []\<rparr>],
          2) \<and>
   deserialize_functional Some (person_factory ''x'') \<lparr>root_id = ''a'', objects = duplicated\<rparr> =
     Inr (2, [(''a'', 2), (''b'', 1)],
          [\<lparr>f_id = ''a'', f_name = ''Ivan'', f_born_in = ''1990-05-15T00:00:00'',
             f_friends = [IdRef ''b'']\<rparr>,
           \<lparr>f_id = ''b'', f_name = ''Maria'', f_born_in = ''1992-08-22T00:00:00'',
             f_friends = [ObjRef 2]\<rparr>,
           \<lparr>f_id = ''a'', f_name = ''Alexey'', f_born_in = ''1988-03-10T00:00:00'',
             f_friends = []\<rparr>])"
  by (simp add: duplicated_def deserialize_def rebuild_def from_dict_def lookup_def set_friends_def
      deserialize_functional_def new_person_data_def person_factory_def
      create_person_with_friends_def create_person_data_def)


text \<open>
  C5 as the code has it. A container whose \<open>born_in\<close> strings \<open>fromisoformat\<close> accepts
  and whose friend identifiers are all carried by some dictionary is deserialised without
  an error whether or not identifiers repeat, by the classes when it is not empty and by
  \<open>deserialize_functional\<close> when some dictionary carries \<open>root_id\<close>. The mapping then sends
  each identifier to the node made from the last dictionary that carries it. In the
  classes that node has the identifier, the name, the parsed \<open>born_in\<close> and the friends of
  that dictionary. In \<open>deserialize_functional\<close> it has the identifier and the friends of
  that dictionary, and the name and \<open>born_in\<close> of the person that the factory returned for
  the name and the parsed \<open>born_in\<close> of that dictionary, which \<open>person_factory\<close> returns
  unchanged. A node made from an earlier dictionary with the same identifier is not in the
  mapping; in the classes it keeps an empty friends list, in \<open>deserialize_functional\<close> the
  identifiers of its dictionary. The classes return the node the mapping holds for the
  identifier of the first dictionary, and fail with \<open>IndexError\<close> on the empty container.
\<close>

theorem duplicate_ids_overwrite:
  fixes fromisoformat :: "string \<Rightarrow> 'd option" and factory :: "string \<Rightarrow> 'd \<Rightarrow> 'd person_data"
  shows
  "(objects_data \<noteq> [] \<and> (\<forall>r\<in>set objects_data. fromisoformat (d_born_in r) \<noteq> None) \<and>
    (\<forall>r\<in>set objects_data. set (d_friends r) \<subseteq> d_id ` set objects_data) \<longrightarrow>
      (\<exists>h' obj_cache root.
          rebuild fromisoformat objects_data = Inr (h', obj_cache) \<and>
          deserialize fromisoformat objects_data = Inr (h', root) \<and>
          obj_cache (d_id (hd objects_data)) = Some root \<and>
          (\<forall>i. is_last objects_data i \<longrightarrow>
              obj_cache (d_id (objects_data ! i)) = Some i \<and>
              p_id (h' ! i) = d_id (objects_data ! i) \<and>
              p_name (h' ! i) = d_name (objects_data ! i) \<and>
              fromisoformat (d_born_in (objects_data ! i)) = Some (p_born_in (h' ! i)) \<and>
              map (id_at h') (p_friends (h' ! i)) = d_friends (objects_data ! i)) \<and>
          (\<forall>i<length objects_data. \<not> is_last objects_data i \<longrightarrow>
              obj_cache (d_id (objects_data ! i)) \<noteq> Some i \<and> p_friends (h' ! i) = []))) \<and>
   ((\<forall>r\<in>set objects_data. fromisoformat (d_born_in r) \<noteq> None) \<and>
    (\<forall>r\<in>set objects_data. set (d_friends r) \<subseteq> d_id ` set objects_data) \<and>
    rid \<in> d_id ` set objects_data \<longrightarrow>
      (\<exists>root persons_dict g.
          deserialize_functional fromisoformat factory \<lparr>root_id = rid, objects = objects_data\<rparr> =
            Inr (root, persons_dict, g) \<and>
          map_of persons_dict rid = Some root \<and>
          (\<forall>i. is_last objects_data i \<longrightarrow>
              map_of persons_dict (d_id (objects_data ! i)) = Some i \<and>
              f_id (g ! i) = d_id (objects_data ! i) \<and>
              (\<exists>born_in. fromisoformat (d_born_in (objects_data ! i)) = Some born_in \<and>
                 f_name (g ! i) = f_name (factory (d_name (objects_data ! i)) born_in) \<and>
                 f_born_in (g ! i) = f_born_in (factory (d_name (objects_data ! i)) born_in)) \<and>
              map (ref_id g) (f_friends (g ! i)) = d_friends (objects_data ! i)) \<and>
          (\<forall>i<length objects_data. \<not> is_last objects_data i \<longrightarrow>
              map_of persons_dict (d_id (objects_data ! i)) \<noteq> Some i \<and>
              f_friends (g ! i) = map IdRef (d_friends (objects_data ! i))))) \<and>
   (\<forall>uuid name (born_in :: 'd).
      f_name (person_factory uuid name born_in) = name \<and>
      f_born_in (person_factory uuid name born_in) = born_in) \<and>
   deserialize fromisoformat [] = Inl IndexError"
proof (intro conjI)
  show "objects_data \<noteq> [] \<and> (\<forall>r\<in>set objects_data. fromisoformat (d_born_in r) \<noteq> None) \<and>
    (\<forall>r\<in>set objects_data. set (d_friends r) \<subseteq> d_id ` set objects_data) \<longrightarrow>
      (\<exists>h' obj_cache root.
          rebuild fromisoformat objects_data = Inr (h', obj_cache) \<and>
          deserialize fromisoformat objects_data = Inr (h', root) \<and>
          obj_cache (d_id (hd objects_data)) = Some root \<and>
          (\<forall>i. is_last objects_data i \<longrightarrow>
              obj_cache (d_id (objects_data ! i)) = Some i \<and>
              p_id (h' ! i) = d_id (objects_data ! i) \<and>
              p_name (h' ! i) = d_name (objects_data ! i) \<and>
              fromisoformat (d_born_in (objects_data ! i)) = Some (p_born_in (h' ! i)) \<and>
              map (id_at h') (p_friends (h' ! i)) = d_friends (objects_data ! i)) \<and>
          (\<forall>i<length objects_data. \<not> is_last objects_data i \<longrightarrow>
              obj_cache (d_id (objects_data ! i)) \<noteq> Some i \<and> p_friends (h' ! i) = []))"
  proof (rule impI)
    let ?recs = objects_data
    assume "?recs \<noteq> [] \<and> (\<forall>r\<in>set ?recs. fromisoformat (d_born_in r) \<noteq> None) \<and>
      (\<forall>r\<in>set ?recs. set (d_friends r) \<subseteq> d_id ` set ?recs)"
    then have ne: "?recs \<noteq> []" and ap: "\<forall>r\<in>set ?recs. fromisoformat (d_born_in r) \<noteq> None"
      and ok: "\<forall>r\<in>set ?recs. set (d_friends r) \<subseteq> d_id ` set ?recs" by simp_all
    from deserialize_result [OF ap ne ok]
    obtain h' c root where r: "rebuild fromisoformat ?recs = Inr (h', c)"
      "deserialize fromisoformat ?recs = Inr (h', root)" "c (d_id (hd ?recs)) = Some root"
      and l: "\<And>i. is_last ?recs i \<Longrightarrow> c (d_id (?recs ! i)) = Some i \<and>
               p_id (h' ! i) = d_id (?recs ! i) \<and> p_name (h' ! i) = d_name (?recs ! i) \<and>
               p_born_in (h' ! i) = the (fromisoformat (d_born_in (?recs ! i))) \<and>
               map (id_at h') (p_friends (h' ! i)) = d_friends (?recs ! i)"
      and n: "\<forall>i<length ?recs. \<not> is_last ?recs i \<longrightarrow>
               c (d_id (?recs ! i)) \<noteq> Some i \<and> p_friends (h' ! i) = []"
      by blast
    have l': "c (d_id (?recs ! i)) = Some i \<and>
               p_id (h' ! i) = d_id (?recs ! i) \<and> p_name (h' ! i) = d_name (?recs ! i) \<and>
               fromisoformat (d_born_in (?recs ! i)) = Some (p_born_in (h' ! i)) \<and>
               map (id_at h') (p_friends (h' ! i)) = d_friends (?recs ! i)" if "is_last ?recs i" for i
    proof -
      from that have "i < length ?recs" by (simp add: is_last_def)
      with ap have "fromisoformat (d_born_in (?recs ! i)) \<noteq> None" by simp
      with l [OF that] show ?thesis by auto
    qed
    from r l' n
    show "\<exists>h' obj_cache root.
          rebuild fromisoformat objects_data = Inr (h', obj_cache) \<and>
          deserialize fromisoformat objects_data = Inr (h', root) \<and>
          obj_cache (d_id (hd objects_data)) = Some root \<and>
          (\<forall>i. is_last objects_data i \<longrightarrow>
              obj_cache (d_id (objects_data ! i)) = Some i \<and>
              p_id (h' ! i) = d_id (objects_data ! i) \<and>
              p_name (h' ! i) = d_name (objects_data ! i) \<and>
              fromisoformat (d_born_in (objects_data ! i)) = Some (p_born_in (h' ! i)) \<and>
              map (id_at h') (p_friends (h' ! i)) = d_friends (objects_data ! i)) \<and>
          (\<forall>i<length objects_data. \<not> is_last objects_data i \<longrightarrow>
              obj_cache (d_id (objects_data ! i)) \<noteq> Some i \<and> p_friends (h' ! i) = [])"
      by blast
  qed
next
  show "(\<forall>r\<in>set objects_data. fromisoformat (d_born_in r) \<noteq> None) \<and>
    (\<forall>r\<in>set objects_data. set (d_friends r) \<subseteq> d_id ` set objects_data) \<and>
    rid \<in> d_id ` set objects_data \<longrightarrow>
      (\<exists>root persons_dict g.
          deserialize_functional fromisoformat factory \<lparr>root_id = rid, objects = objects_data\<rparr> =
            Inr (root, persons_dict, g) \<and>
          map_of persons_dict rid = Some root \<and>
          (\<forall>i. is_last objects_data i \<longrightarrow>
              map_of persons_dict (d_id (objects_data ! i)) = Some i \<and>
              f_id (g ! i) = d_id (objects_data ! i) \<and>
              (\<exists>born_in. fromisoformat (d_born_in (objects_data ! i)) = Some born_in \<and>
                 f_name (g ! i) = f_name (factory (d_name (objects_data ! i)) born_in) \<and>
                 f_born_in (g ! i) = f_born_in (factory (d_name (objects_data ! i)) born_in)) \<and>
              map (ref_id g) (f_friends (g ! i)) = d_friends (objects_data ! i)) \<and>
          (\<forall>i<length objects_data. \<not> is_last objects_data i \<longrightarrow>
              map_of persons_dict (d_id (objects_data ! i)) \<noteq> Some i \<and>
              f_friends (g ! i) = map IdRef (d_friends (objects_data ! i))))"
  proof (rule impI)
    let ?recs = objects_data
    assume "(\<forall>r\<in>set ?recs. fromisoformat (d_born_in r) \<noteq> None) \<and>
      (\<forall>r\<in>set ?recs. set (d_friends r) \<subseteq> d_id ` set ?recs) \<and> rid \<in> d_id ` set ?recs"
    then have ap: "\<forall>r\<in>set ?recs. fromisoformat (d_born_in r) \<noteq> None"
      and ok: "\<forall>r\<in>set ?recs. set (d_friends r) \<subseteq> d_id ` set ?recs"
      and rt: "rid \<in> d_id ` set ?recs" by simp_all
    have ok': "\<forall>i. is_last ?recs i \<longrightarrow> set (d_friends (?recs ! i)) \<subseteq> d_id ` set ?recs"
      using ok by (auto simp: is_last_def)
    have pn: "fromisoformat (d_born_in (?recs ! i)) \<noteq> None" if "i < length ?recs" for i
      using that ap by simp
    from deserialize_functional_result [OF ap ok' rt, of factory]
    obtain root pd g where
      de: "deserialize_functional fromisoformat factory \<lparr>root_id = rid, objects = ?recs\<rparr> = Inr (root, pd, g)"
      and mr: "map_of pd rid = Some root"
      and dom: "dom (map_of pd) = d_id ` set ?recs"
      and some: "\<And>k a. map_of pd k = Some a \<Longrightarrow> is_last ?recs a \<and> d_id (?recs ! a) = k"
      and last: "\<And>i. is_last ?recs i \<Longrightarrow> map_of pd (d_id (?recs ! i)) = Some i \<and>
               g ! i = (projr (new_person_data fromisoformat factory (?recs ! i)))\<lparr>f_friends :=
                  map (\<lambda>k. ObjRef (the (map_of pd k))) (d_friends (?recs ! i))\<rparr>"
      and nolast: "\<forall>i<length ?recs. \<not> is_last ?recs i \<longrightarrow>
               g ! i = projr (new_person_data fromisoformat factory (?recs ! i))"
      by blast
    have fid: "f_id (g ! b) = d_id (?recs ! b)" if "is_last ?recs b" for b
    proof -
      from that have "b < length ?recs" by (simp add: is_last_def)
      from last [OF that] pn [OF this] show ?thesis by (simp add: new_person_data_sel)
    qed
    have res: "ref_id g (ObjRef (the (map_of pd k))) = k" if "k \<in> d_id ` set ?recs" for k
    proof -
      from that dom obtain b where b: "map_of pd k = Some b" by blast
      from some [OF b] fid [of b] b show ?thesis by (simp add: ref_id_def)
    qed
    have good: "map_of pd (d_id (?recs ! i)) = Some i \<and> f_id (g ! i) = d_id (?recs ! i) \<and>
        (\<exists>born_in. fromisoformat (d_born_in (?recs ! i)) = Some born_in \<and>
           f_name (g ! i) = f_name (factory (d_name (?recs ! i)) born_in) \<and>
           f_born_in (g ! i) = f_born_in (factory (d_name (?recs ! i)) born_in)) \<and>
        map (ref_id g) (f_friends (g ! i)) = d_friends (?recs ! i)" if "is_last ?recs i" for i
    proof -
      from that have il: "i < length ?recs" by (simp add: is_last_def)
      with ok have sub: "set (d_friends (?recs ! i)) \<subseteq> d_id ` set ?recs" by auto
      from pn [OF il] obtain b where b: "fromisoformat (d_born_in (?recs ! i)) = Some b" by blast
      from last [OF that]
      have gi: "g ! i = (projr (new_person_data fromisoformat factory (?recs ! i)))\<lparr>f_friends :=
                  map (\<lambda>k. ObjRef (the (map_of pd k))) (d_friends (?recs ! i))\<rparr>"
        and m: "map_of pd (d_id (?recs ! i)) = Some i" by simp_all
      have fr: "map (ref_id g) (f_friends (g ! i)) = d_friends (?recs ! i)"
        unfolding gi using sub res by (simp add: comp_def map_idI subset_iff)
      have nm: "f_name (g ! i) = f_name (factory (d_name (?recs ! i)) b)"
        "f_born_in (g ! i) = f_born_in (factory (d_name (?recs ! i)) b)"
        using gi b by (simp_all add: new_person_data_def)
      from m fid [OF that] b nm fr show ?thesis by blast
    qed
    have bad: "map_of pd (d_id (?recs ! i)) \<noteq> Some i \<and>
        f_friends (g ! i) = map IdRef (d_friends (?recs ! i))"
      if "i < length ?recs" "\<not> is_last ?recs i" for i
    proof -
      from that some have 1: "map_of pd (d_id (?recs ! i)) \<noteq> Some i" by blast
      from nolast that have "g ! i = projr (new_person_data fromisoformat factory (?recs ! i))"
        by blast
      with pn [OF that(1)] have "f_friends (g ! i) = map IdRef (d_friends (?recs ! i))"
        by (simp add: new_person_data_sel)
      with 1 show ?thesis by simp
    qed
    from de mr good bad
    show "\<exists>root persons_dict g.
          deserialize_functional fromisoformat factory \<lparr>root_id = rid, objects = objects_data\<rparr> =
            Inr (root, persons_dict, g) \<and>
          map_of persons_dict rid = Some root \<and>
          (\<forall>i. is_last objects_data i \<longrightarrow>
              map_of persons_dict (d_id (objects_data ! i)) = Some i \<and>
              f_id (g ! i) = d_id (objects_data ! i) \<and>
              (\<exists>born_in. fromisoformat (d_born_in (objects_data ! i)) = Some born_in \<and>
                 f_name (g ! i) = f_name (factory (d_name (objects_data ! i)) born_in) \<and>
                 f_born_in (g ! i) = f_born_in (factory (d_name (objects_data ! i)) born_in)) \<and>
              map (ref_id g) (f_friends (g ! i)) = d_friends (objects_data ! i)) \<and>
          (\<forall>i<length objects_data. \<not> is_last objects_data i \<longrightarrow>
              map_of persons_dict (d_id (objects_data ! i)) \<noteq> Some i \<and>
              f_friends (g ! i) = map IdRef (d_friends (objects_data ! i)))"
      by blast
  qed
next
  show "\<forall>uuid name (born_in :: 'd).
      f_name (person_factory uuid name born_in) = name \<and>
      f_born_in (person_factory uuid name born_in) = born_in"
    by (simp add: person_factory_def create_person_with_friends_def create_person_data_def)
next
  show "deserialize fromisoformat [] = Inl IndexError"
    by (simp add: deserialize_def rebuild_def)
qed


theorem duplicate_ids_overwrite_witness:
  "duplicated \<noteq> [] \<and> \<Union> (set ` d_friends ` set duplicated) \<subseteq> d_id ` set duplicated \<and>
   ''a'' \<in> d_id ` set duplicated \<and> is_last duplicated 2 \<and> \<not> is_last duplicated 0 \<and>
   (\<exists>h' obj_cache root.
       rebuild Some duplicated = Inr (h', obj_cache) \<and>
       deserialize Some duplicated = Inr (h', root) \<and>
       obj_cache ''a'' = Some 2 \<and> p_name (h' ! 2) = ''Alexey'' \<and>
       p_born_in (h' ! 2) = ''1988-03-10T00:00:00'' \<and> p_friends (h' ! 0) = []) \<and>
   (\<exists>root persons_dict g.
       deserialize_functional Some (person_factory ''x'') \<lparr>root_id = ''a'', objects = duplicated\<rparr> =
         Inr (root, persons_dict, g) \<and>
       map_of persons_dict ''a'' = Some 2 \<and> map_of persons_dict ''a'' \<noteq> Some 0 \<and>
       f_name (g ! 2) = ''Alexey'' \<and> f_born_in (g ! 2) = ''1988-03-10T00:00:00'' \<and>
       f_friends (g ! 0) = [IdRef ''b''])"
proof -
  note t = duplicate_ids_overwrite [of duplicated Some "''a''" "person_factory ''x''"]
  have 1: "duplicated \<noteq> []" "\<forall>r\<in>set duplicated. Some (d_born_in r) \<noteq> None"
    "\<forall>r\<in>set duplicated. set (d_friends r) \<subseteq> d_id ` set duplicated"
    "''a'' \<in> d_id ` set duplicated"
    by (simp_all add: duplicated_def)
  have 2: "is_last duplicated 2" "\<not> is_last duplicated 0" "0 < length duplicated"
    by (simp_all add: duplicated_def is_last_def)
  have 3: "d_id (duplicated ! 2) = ''a''" "d_id (duplicated ! 0) = ''a''"
    "d_name (duplicated ! 2) = ''Alexey''" "d_born_in (duplicated ! 2) = ''1988-03-10T00:00:00''"
    "d_friends (duplicated ! 0) = [''b'']"
    by (simp_all add: duplicated_def)
  have pf: "f_name (person_factory ''x'' n b) = n" "f_born_in (person_factory ''x'' n b) = b"
    for n and b :: string
    using t [THEN conjunct2, THEN conjunct2, THEN conjunct1] by simp_all
  from t [THEN conjunct1] 1(1,2,3)
  obtain h' obj_cache root where
    r: "rebuild Some duplicated = Inr (h', obj_cache)"
      "deserialize Some duplicated = Inr (h', root)"
    and l: "\<forall>i. is_last duplicated i \<longrightarrow>
              obj_cache (d_id (duplicated ! i)) = Some i \<and>
              p_id (h' ! i) = d_id (duplicated ! i) \<and>
              p_name (h' ! i) = d_name (duplicated ! i) \<and>
              Some (d_born_in (duplicated ! i)) = Some (p_born_in (h' ! i)) \<and>
              map (id_at h') (p_friends (h' ! i)) = d_friends (duplicated ! i)"
    and n: "\<forall>i<length duplicated. \<not> is_last duplicated i \<longrightarrow>
              obj_cache (d_id (duplicated ! i)) \<noteq> Some i \<and> p_friends (h' ! i) = []"
    by blast
  from t [THEN conjunct2, THEN conjunct1] 1(2,3,4)
  obtain root' persons_dict g where
    f: "deserialize_functional Some (person_factory ''x'') \<lparr>root_id = ''a'', objects = duplicated\<rparr> =
            Inr (root', persons_dict, g)"
    and fl: "\<forall>i. is_last duplicated i \<longrightarrow>
              map_of persons_dict (d_id (duplicated ! i)) = Some i \<and>
              f_id (g ! i) = d_id (duplicated ! i) \<and>
              (\<exists>born_in. Some (d_born_in (duplicated ! i)) = Some born_in \<and>
                 f_name (g ! i) = f_name (person_factory ''x'' (d_name (duplicated ! i)) born_in) \<and>
                 f_born_in (g ! i) = f_born_in (person_factory ''x'' (d_name (duplicated ! i)) born_in)) \<and>
              map (ref_id g) (f_friends (g ! i)) = d_friends (duplicated ! i)"
    and fn: "\<forall>i<length duplicated. \<not> is_last duplicated i \<longrightarrow>
              map_of persons_dict (d_id (duplicated ! i)) \<noteq> Some i \<and>
              f_friends (g ! i) = map IdRef (d_friends (duplicated ! i))"
    by blast
  from l 2(1) 3 have a: "obj_cache ''a'' = Some 2" "p_name (h' ! 2) = ''Alexey''"
    "p_born_in (h' ! 2) = ''1988-03-10T00:00:00''" by auto
  from n 2(2,3) have b: "p_friends (h' ! 0) = []" by blast
  from fl 2(1) 3 have c: "map_of persons_dict ''a'' = Some 2" by auto
  from fl 2(1) 3 pf have c': "f_name (g ! 2) = ''Alexey''"
    "f_born_in (g ! 2) = ''1988-03-10T00:00:00''" by auto
  from fn 2(2,3) 3 have d: "map_of persons_dict ''a'' \<noteq> Some 0"
    "f_friends (g ! 0) = [IdRef ''b'']" by auto
  have e: "\<Union> (set ` d_friends ` set duplicated) \<subseteq> d_id ` set duplicated"
    using 1(3) by blast
  from r a b have x: "\<exists>h' obj_cache root.
       rebuild Some duplicated = Inr (h', obj_cache) \<and>
       deserialize Some duplicated = Inr (h', root) \<and>
       obj_cache ''a'' = Some 2 \<and> p_name (h' ! 2) = ''Alexey'' \<and>
       p_born_in (h' ! 2) = ''1988-03-10T00:00:00'' \<and> p_friends (h' ! 0) = []"
    by blast
  from f c c' d have y: "\<exists>root persons_dict g.
       deserialize_functional Some (person_factory ''x'') \<lparr>root_id = ''a'', objects = duplicated\<rparr> =
         Inr (root, persons_dict, g) \<and>
       map_of persons_dict ''a'' = Some 2 \<and> map_of persons_dict ''a'' \<noteq> Some 0 \<and>
       f_name (g ! 2) = ''Alexey'' \<and> f_born_in (g ! 2) = ''1988-03-10T00:00:00'' \<and>
       f_friends (g ! 0) = [IdRef ''b'']"
    by blast
  show ?thesis
    apply (intro conjI)
          apply (rule 1(1))
         apply (rule e)
        apply (rule 1(4))
       apply (rule 2(1))
      apply (rule 2(2))
     apply (rule x)
    apply (rule y)
    done
qed


text \<open>
  C8 (order of the records), where the code departs from it. The deserialisers of the two
  classes return \<open>obj_cache[objects_data[0]['id']]\<close>, the node of the first dictionary. The
  serialiser writes the mutual pair as Ivan, Maria; given Maria, Ivan the deserialiser
  returns Maria.
\<close>

theorem record_order_counterexample:
  "serialize 1000 (\<lambda>d. d) mutual_pair 0 = Some (Inr pair_records) \<and>
   mset (rev pair_records) = mset pair_records \<and>
   deserialize Some pair_records =
     Inr ([\<lparr>p_id = ''a'', p_name = ''Ivan'', p_born_in = ''1990-05-15T00:00:00'', p_friends = [1]\<rparr>,
           \<lparr>p_id = ''b'', p_name = ''Maria'', p_born_in = ''1992-08-22T00:00:00'', p_friends = [0]\<rparr>],
          0) \<and>
   deserialize Some (rev pair_records) =
     Inr ([\<lparr>p_id = ''b'', p_name = ''Maria'', p_born_in = ''1992-08-22T00:00:00'', p_friends = [1]\<rparr>,
           \<lparr>p_id = ''a'', p_name = ''Ivan'', p_born_in = ''1990-05-15T00:00:00'', p_friends = [0]\<rparr>],
          0)"
  using mutual_pair_records
  by (simp add: pair_records_def deserialize_def rebuild_def from_dict_def lookup_def
      set_friends_def)


text \<open>
  C8 as the code has it. For a sequence written by the collector and any permutation of
  it, deserialisation succeeds on both and builds the same mapping from identifiers to
  nodes with the same fields and the same friends, \<open>fromisoformat\<close> accepting every string
  that \<open>isoformat\<close> returns. \<open>deserialize_functional\<close>, which is given \<open>root_id\<close>, returns
  the node of that identifier for both. The deserialisers of the classes return the node
  of the first dictionary of the sequence they are given.
\<close>

theorem record_order_irrelevant_for_graph:
  fixes isoformat :: "'d \<Rightarrow> string" and fromisoformat :: "string \<Rightarrow> 'd option"
    and factory :: "string \<Rightarrow> 'd \<Rightarrow> 'd person_data"
  shows
  "(closed h \<and> unique_ids h \<and> root < length h \<and>
    serialize frames isoformat h root = Some (Inr objects_data) \<and>
    mset permuted = mset objects_data \<and>
    (\<forall>d. fromisoformat (isoformat d) \<noteq> None) \<longrightarrow>
      (\<exists>h1 cache1 root1 h2 cache2 root2.
          rebuild fromisoformat objects_data = Inr (h1, cache1) \<and>
          rebuild fromisoformat permuted = Inr (h2, cache2) \<and>
          graph_view h1 cache1 = graph_view h2 cache2 \<and>
          deserialize fromisoformat objects_data = Inr (h1, root1) \<and>
          deserialize fromisoformat permuted = Inr (h2, root2) \<and>
          p_id (h1 ! root1) = d_id (hd objects_data) \<and>
          p_id (h2 ! root2) = d_id (hd permuted))) \<and>
   (closed_functional persons_dict \<and> indexed persons_dict \<and>
    f_id root_person \<in> fst ` set persons_dict \<and>
    serialize_functional frames isoformat root_person persons_dict = Inr parsed \<and>
    mset permuted_f = mset (objects parsed) \<and>
    (\<forall>d. fromisoformat (isoformat d) \<noteq> None) \<longrightarrow>
      (\<exists>root1 dict1 g1 root2 dict2 g2.
          deserialize_functional fromisoformat factory parsed = Inr (root1, dict1, g1) \<and>
          deserialize_functional fromisoformat factory (parsed\<lparr>objects := permuted_f\<rparr>) =
            Inr (root2, dict2, g2) \<and>
          graph_view_functional g1 dict1 = graph_view_functional g2 dict2 \<and>
          f_id (g1 ! root1) = root_id parsed \<and> f_id (g2 ! root2) = root_id parsed))"
proof (rule conjI; rule impI)
  assume "closed h \<and> unique_ids h \<and> root < length h \<and>
    serialize frames isoformat h root = Some (Inr objects_data) \<and>
    mset permuted = mset objects_data \<and>
    (\<forall>d. fromisoformat (isoformat d) \<noteq> None)"
  then have a: "closed h" "unique_ids h" "root < length h"
    and s: "serialize frames isoformat h root = Some (Inr objects_data)"
    and m: "mset permuted = mset objects_data"
    and lib: "\<forall>d. fromisoformat (isoformat d) \<noteq> None" by simp_all
  from serialize_records [OF a, of isoformat] serialize_Inr [OF s]
  have d: "distinct (map d_id objects_data)"
    and ok: "\<forall>r\<in>set objects_data. set (d_friends r) \<subseteq> d_id ` set objects_data"
    and ne: "objects_data \<noteq> []"
    and od: "objects_data = map (\<lambda>a. to_dict isoformat h (h ! a)) (preorder h [root] {})"
    by simp_all
  from od lib have ap: "\<forall>r\<in>set objects_data. fromisoformat (d_born_in r) \<noteq> None"
    by (auto simp: to_dict_def)
  from m have sm: "set permuted = set objects_data" by (rule mset_eq_setD)
  from m have "mset (map d_id permuted) = mset (map d_id objects_data)" by simp
  with d have d': "distinct (map d_id permuted)" by (metis mset_eq_imp_distinct_iff)
  from ok sm have ok': "\<forall>r\<in>set permuted. set (d_friends r) \<subseteq> d_id ` set permuted" by simp
  from ne sm have ne': "permuted \<noteq> []" by auto
  from ap sm have ap': "\<forall>r\<in>set permuted. fromisoformat (d_born_in r) \<noteq> None" by simp
  from deserialize_result [OF ap ne ok]
  obtain h1 c1 r1 where r1: "rebuild fromisoformat objects_data = Inr (h1, c1)"
    "deserialize fromisoformat objects_data = Inr (h1, r1)" "c1 (d_id (hd objects_data)) = Some r1"
    and l1: "\<forall>i. is_last objects_data i \<longrightarrow> c1 (d_id (objects_data ! i)) = Some i \<and>
               p_id (h1 ! i) = d_id (objects_data ! i) \<and> p_name (h1 ! i) = d_name (objects_data ! i) \<and>
               p_born_in (h1 ! i) = the (fromisoformat (d_born_in (objects_data ! i))) \<and>
               map (id_at h1) (p_friends (h1 ! i)) = d_friends (objects_data ! i)"
    by blast
  from deserialize_result [OF ap' ne' ok']
  obtain h2 c2 r2 where r2: "rebuild fromisoformat permuted = Inr (h2, c2)"
    "deserialize fromisoformat permuted = Inr (h2, r2)" "c2 (d_id (hd permuted)) = Some r2"
    and l2: "\<forall>i. is_last permuted i \<longrightarrow> c2 (d_id (permuted ! i)) = Some i \<and>
               p_id (h2 ! i) = d_id (permuted ! i) \<and> p_name (h2 ! i) = d_name (permuted ! i) \<and>
               p_born_in (h2 ! i) = the (fromisoformat (d_born_in (permuted ! i))) \<and>
               map (id_at h2) (p_friends (h2 ! i)) = d_friends (permuted ! i)"
    by blast
  have g: "graph_view h1 c1 = graph_view h2 c2"
    unfolding graph_view_records [OF ap d ok r1(1)] graph_view_records [OF ap' d' ok' r2(1)]
    by (rule map_of_records_perm [OF d m, symmetric])
  have 0: "is_last objects_data 0" "is_last permuted 0"
    using is_last_distinct [OF d, of 0] is_last_distinct [OF d', of 0] ne ne' by simp_all
  from l1 0(1) r1(3) ne have p1: "p_id (h1 ! r1) = d_id (hd objects_data)"
    by (auto simp: hd_conv_nth)
  from l2 0(2) r2(3) ne' have p2: "p_id (h2 ! r2) = d_id (hd permuted)"
    by (auto simp: hd_conv_nth)
  from r1 r2 g p1 p2
  show "\<exists>h1 cache1 root1 h2 cache2 root2.
          rebuild fromisoformat objects_data = Inr (h1, cache1) \<and>
          rebuild fromisoformat permuted = Inr (h2, cache2) \<and>
          graph_view h1 cache1 = graph_view h2 cache2 \<and>
          deserialize fromisoformat objects_data = Inr (h1, root1) \<and>
          deserialize fromisoformat permuted = Inr (h2, root2) \<and>
          p_id (h1 ! root1) = d_id (hd objects_data) \<and>
          p_id (h2 ! root2) = d_id (hd permuted)"
    by blast
next
  assume "closed_functional persons_dict \<and> indexed persons_dict \<and>
    f_id root_person \<in> fst ` set persons_dict \<and>
    serialize_functional frames isoformat root_person persons_dict = Inr parsed \<and>
    mset permuted_f = mset (objects parsed) \<and>
    (\<forall>d. fromisoformat (isoformat d) \<noteq> None)"
  then have a: "closed_functional persons_dict" "indexed persons_dict"
    "f_id root_person \<in> fst ` set persons_dict"
    and s: "serialize_functional frames isoformat root_person persons_dict = Inr parsed"
    and m: "mset permuted_f = mset (objects parsed)"
    and lib: "\<forall>d. fromisoformat (isoformat d) \<noteq> None" by simp_all
  from serialize_functional_records [OF a, of isoformat] serialize_functional_Inr [OF s]
  obtain recs where p: "parsed = \<lparr>root_id = f_id root_person, objects = recs\<rparr>"
    and d: "distinct (map d_id recs)"
    and ok: "\<forall>r\<in>set recs. set (d_friends r) \<subseteq> d_id ` set recs"
    and rt: "f_id root_person \<in> d_id ` set recs" by auto
  from serialize_functional_keys [OF a(1,3), of isoformat] serialize_functional_Inr [OF s] p
  obtain ks where "recs = map (\<lambda>k. obj_copy isoformat (person_at persons_dict k)) ks" by auto
  with lib have ap: "\<forall>r\<in>set recs. fromisoformat (d_born_in r) \<noteq> None" by auto
  from m p have m': "mset permuted_f = mset recs" by simp
  then have sm: "set permuted_f = set recs" by (rule mset_eq_setD)
  from m' have "mset (map d_id permuted_f) = mset (map d_id recs)" by simp
  with d have d': "distinct (map d_id permuted_f)" by (metis mset_eq_imp_distinct_iff)
  from ok sm have ok': "\<forall>r\<in>set permuted_f. set (d_friends r) \<subseteq> d_id ` set permuted_f" by simp
  from rt sm have rt': "f_id root_person \<in> d_id ` set permuted_f" by simp
  from ap sm have ap': "\<forall>r\<in>set permuted_f. fromisoformat (d_born_in r) \<noteq> None" by simp
  let ?f = "\<lambda>r. (d_id r, f_name (factory (d_name r) (the (fromisoformat (d_born_in r)))),
                f_born_in (factory (d_name r) (the (fromisoformat (d_born_in r)))), d_friends r)"
  from graph_view_functional_records [OF ap d ok rt, of factory]
  obtain root1 dict1 g1 where 1: "deserialize_functional fromisoformat factory
        \<lparr>root_id = f_id root_person, objects = recs\<rparr> = Inr (root1, dict1, g1)"
    "f_id (g1 ! root1) = f_id root_person"
    "graph_view_functional g1 dict1 = map_of (map (\<lambda>r. (d_id r, ?f r)) recs)"
    by blast
  from graph_view_functional_records [OF ap' d' ok' rt', of factory]
  obtain root2 dict2 g2 where 2: "deserialize_functional fromisoformat factory
        \<lparr>root_id = f_id root_person, objects = permuted_f\<rparr> = Inr (root2, dict2, g2)"
    "f_id (g2 ! root2) = f_id root_person"
    "graph_view_functional g2 dict2 = map_of (map (\<lambda>r. (d_id r, ?f r)) permuted_f)"
    by blast
  have "graph_view_functional g1 dict1 = graph_view_functional g2 dict2"
    unfolding 1(3) 2(3) by (rule map_of_records_perm [OF d m', symmetric])
  with 1(1,2) 2(1,2) p
  show "\<exists>root1 dict1 g1 root2 dict2 g2.
          deserialize_functional fromisoformat factory parsed = Inr (root1, dict1, g1) \<and>
          deserialize_functional fromisoformat factory (parsed\<lparr>objects := permuted_f\<rparr>) =
            Inr (root2, dict2, g2) \<and>
          graph_view_functional g1 dict1 = graph_view_functional g2 dict2 \<and>
          f_id (g1 ! root1) = root_id parsed \<and> f_id (g2 ! root2) = root_id parsed"
    by auto
qed

theorem record_order_irrelevant_for_graph_witness:
  "closed mutual_pair \<and> unique_ids mutual_pair \<and> 0 < length mutual_pair \<and>
   serialize 1000 (\<lambda>d. d) mutual_pair 0 = Some (Inr pair_records) \<and>
   mset (rev pair_records) = mset pair_records \<and>
   (\<exists>h1 cache1 root1 h2 cache2 root2.
       rebuild Some pair_records = Inr (h1, cache1) \<and>
       rebuild Some (rev pair_records) = Inr (h2, cache2) \<and>
       graph_view h1 cache1 = graph_view h2 cache2 \<and>
       deserialize Some pair_records = Inr (h1, root1) \<and>
       deserialize Some (rev pair_records) = Inr (h2, root2) \<and>
       p_id (h1 ! root1) = ''a'' \<and> p_id (h2 ! root2) = ''b'') \<and>
   closed_functional (all_persons mutual_pair_functional) \<and>
   indexed (all_persons mutual_pair_functional) \<and>
   (\<exists>root1 dict1 g1 root2 dict2 g2.
       deserialize_functional Some (person_factory ''x'') \<lparr>root_id = ''a'', objects = pair_records\<rparr> =
         Inr (root1, dict1, g1) \<and>
       deserialize_functional Some (person_factory ''x'')
         \<lparr>root_id = ''a'', objects = rev pair_records\<rparr> = Inr (root2, dict2, g2) \<and>
       graph_view_functional g1 dict1 = graph_view_functional g2 dict2 \<and>
       f_id (g1 ! root1) = ''a'' \<and> f_id (g2 ! root2) = ''a'')"
proof -
  have m: "mset (rev pair_records) = mset pair_records" by simp
  have c: "closed_functional (all_persons mutual_pair_functional)"
    "indexed (all_persons mutual_pair_functional)"
    "f_id (mutual_pair_functional ! 0) \<in> fst ` set (all_persons mutual_pair_functional)"
    by (simp_all add: closed_functional_def indexed_def known_ref_def all_persons_def
        mutual_pair_functional_value)
  have h: "d_id (hd pair_records) = ''a''" "d_id (hd (rev pair_records)) = ''b''"
    by (simp_all add: pair_records_def)
  from record_order_irrelevant_for_graph [of mutual_pair 0 1000 "\<lambda>d. d" pair_records "rev pair_records"
      Some "all_persons mutual_pair_functional" "mutual_pair_functional ! 0"
      "\<lparr>root_id = ''a'', objects = pair_records\<rparr>" "rev pair_records" "person_factory ''x''"]
    mutual_pair_wf mutual_pair_records m c mutual_pair_functional_serialize
  show ?thesis unfolding h by simp
qed


section \<open>Properties of \<open>get_friends\<close>\<close>

text \<open>
  C10 (\<open>get_friends\<close> returns a copy). The list returned by \<open>get_friends\<close> has the elements
  of the person's friends list and is a new object: appending to it, removing from it or
  replacing its contents in any way leaves the friends lists of all persons as they were,
  and with them every later serialisation.
\<close>

theorem get_friends_returns_copy:
  "wf_memory m \<and> self < length (persons m) \<and> get_friends_copy m self = (m', l) \<longrightarrow>
     lists m' ! l = p_friends (heap_of m ! self) \<and>
     heap_of m' = heap_of m \<and>
     heap_of (list_append m' l x) = heap_of m \<and>
     (\<forall>m''. list_remove m' l x = Some m'' \<longrightarrow> heap_of m'' = heap_of m) \<and>
     heap_of (list_assign m' l xs) = heap_of m \<and>
     serialize frames isoformat (heap_of (list_assign m' l xs)) root =
       serialize frames isoformat (heap_of m) root"
proof
  assume a: "wf_memory m \<and> self < length (persons m) \<and> get_friends_copy m self = (m', l)"
  then have w: "wf_memory m" and s: "self < length (persons m)"
    and g: "get_friends_copy m self = (m', l)" by simp_all
  note r = get_friends_copy_result [OF g]
  note f = get_friends_copy_frame [OF w g]
  have 1: "lists m' ! l = p_friends (heap_of m ! self)"
    using r s by (simp add: heap_of_def)
  have "list_assign m' l (lists m' ! l) = m'"
    using r by (simp add: list_assign_def)
  with f [of "lists m' ! l"] have 2: "heap_of m' = heap_of m" by simp
  have 3: "heap_of (list_append m' l x) = heap_of m"
    unfolding list_append_def by (rule f)
  have 4: "\<forall>m''. list_remove m' l x = Some m'' \<longrightarrow> heap_of m'' = heap_of m"
    unfolding list_remove_def using f by (auto split: if_splits)
  from 1 2 3 4 f [of xs]
  show "lists m' ! l = p_friends (heap_of m ! self) \<and>
     heap_of m' = heap_of m \<and>
     heap_of (list_append m' l x) = heap_of m \<and>
     (\<forall>m''. list_remove m' l x = Some m'' \<longrightarrow> heap_of m'' = heap_of m) \<and>
     heap_of (list_assign m' l xs) = heap_of m \<and>
     serialize frames isoformat (heap_of (list_assign m' l xs)) root =
       serialize frames isoformat (heap_of m) root"
    by simp
qed

theorem get_friends_returns_copy_witness:
  "wf_memory pair_memory \<and> 0 < length (persons pair_memory) \<and>
   get_friends_copy pair_memory 0 = (pair_memory\<lparr>lists := [[1], [0], [1]]\<rparr>, 2) \<and>
   heap_of (list_append (pair_memory\<lparr>lists := [[1], [0], [1]]\<rparr>) 2 0) = mutual_pair \<and>
   list_remove (pair_memory\<lparr>lists := [[1], [0], [1]]\<rparr>) 2 1 =
     Some (pair_memory\<lparr>lists := [[1], [0], []]\<rparr>) \<and>
   heap_of (pair_memory\<lparr>lists := [[1], [0], []]\<rparr>) = mutual_pair \<and>
   serialize 1000 (\<lambda>d. d) (heap_of (list_assign (pair_memory\<lparr>lists := [[1], [0], [1]]\<rparr>) 2 [])) 0 =
     Some (Inr pair_records)"
proof -
  have w: "wf_memory pair_memory" "0 < length (persons pair_memory)"
    by (simp_all add: wf_memory_def pair_memory_def)
  have g: "get_friends_copy pair_memory 0 = (pair_memory\<lparr>lists := [[1], [0], [1]]\<rparr>, 2)"
    by (simp add: get_friends_copy_def list_copy_def pair_memory_def)
  have r: "list_remove (pair_memory\<lparr>lists := [[1], [0], [1]]\<rparr>) 2 1 =
     Some (pair_memory\<lparr>lists := [[1], [0], []]\<rparr>)"
    by (simp add: list_remove_def list_assign_def pair_memory_def)
  have h: "wf_memory pair_memory \<and> 0 < length (persons pair_memory) \<and>
      get_friends_copy pair_memory 0 = (pair_memory\<lparr>lists := [[1], [0], [1]]\<rparr>, 2)"
    using w g by blast
  note t0 = get_friends_returns_copy [of pair_memory 0 "pair_memory\<lparr>lists := [[1], [0], [1]]\<rparr>" 2 0
      "[]" 1000 "\<lambda>d. d" 0, THEN mp, OF h]
  note t1 = get_friends_returns_copy [of pair_memory 0 "pair_memory\<lparr>lists := [[1], [0], [1]]\<rparr>" 2 1
      "[]" 1000 "\<lambda>d. d" 0, THEN mp, OF h]
  from t0 have a: "heap_of (list_append (pair_memory\<lparr>lists := [[1], [0], [1]]\<rparr>) 2 0) = heap_of pair_memory"
    by blast
  from t0 have b: "serialize 1000 (\<lambda>d. d) (heap_of (list_assign (pair_memory\<lparr>lists := [[1], [0], [1]]\<rparr>) 2 [])) 0 =
      serialize 1000 (\<lambda>d. d) (heap_of pair_memory) 0"
    by blast
  from t1 r have c: "heap_of (pair_memory\<lparr>lists := [[1], [0], []]\<rparr>) = heap_of pair_memory"
    by blast
  from a b c have "heap_of (list_append (pair_memory\<lparr>lists := [[1], [0], [1]]\<rparr>) 2 0) = mutual_pair"
    "heap_of (pair_memory\<lparr>lists := [[1], [0], []]\<rparr>) = mutual_pair"
    "serialize 1000 (\<lambda>d. d) (heap_of (list_assign (pair_memory\<lparr>lists := [[1], [0], [1]]\<rparr>) 2 [])) 0 =
     Some (Inr pair_records)"
    by (simp_all only: pair_memory_heap mutual_pair_records)
  with w g r show ?thesis by blast
qed


end
